(* ===== verification/Prelude.thy ===== *)
theory Prelude
  imports
    Main
    "HOL-Library.Word"
    "HOL-Library.List_Lexorder"
    "HOL-Library.Sublist"
    "HOL-Library.Code_Target_Numeral"
begin

text \<open>
  Shared vocabulary of the development: the machine types of the Rust sources as words, byte
  strings with their lexicographic order, and the ordered association lists that stand for
  Rust's \<^verbatim>\<open>BTreeMap\<close>. A \<^verbatim>\<open>BTreeMap\<close> is modelled by the list of its key/value pairs in strictly
  increasing key order, so that iteration order is the list's order and two maps with the same
  content are equal.
\<close>

type_synonym u8 = "8 word"
type_synonym u32 = "32 word"
type_synonym u64 = "64 word"
type_synonym i64 = "64 word"
type_synonym bytes = "u8 list"

abbreviation u64_max :: u64 where
  "u64_max \<equiv> - 1"

named_theorems monad_simps \<open>unfolding rules of the result and state-result monads\<close>
named_theorems btree_simps \<open>lookup rules for ordered association lists\<close>

section \<open>Strictly ordered association lists\<close>

abbreviation ordered :: "('k::linorder \<times> 'v) list \<Rightarrow> bool" where
  "ordered m \<equiv> sorted_wrt (<) (map fst m)"

fun btree_insert :: "'k::linorder \<Rightarrow> 'v \<Rightarrow> ('k \<times> 'v) list \<Rightarrow> ('k \<times> 'v) list" where
  "btree_insert k v [] = [(k, v)]"
| "btree_insert k v ((a, b) # m) =
     (if k < a then (k, v) # (a, b) # m
      else if k = a then (k, v) # m
      else (a, b) # btree_insert k v m)"

definition btree_remove :: "'k \<Rightarrow> ('k \<times> 'v) list \<Rightarrow> ('k \<times> 'v) list" where
  "btree_remove k m = filter (\<lambda>p. fst p \<noteq> k) m"

lemma fst_image_btree_insert [simp]:
  "fst ` set (btree_insert k v m) = insert k (fst ` set m)"
  by (induction k v m rule: btree_insert.induct) (simp_all add: insert_commute)

lemma ordered_btree_insert [simp, intro]: "ordered m \<Longrightarrow> ordered (btree_insert k v m)"
proof (induction m)
  case (Cons p m)
  then show ?case by (cases p) (auto simp: ball_Un dest: less_trans)
qed simp

lemma ordered_filter [simp, intro]: "ordered m \<Longrightarrow> ordered (filter P m)"
  by (induction m) auto

lemma ordered_btree_remove [simp, intro]: "ordered m \<Longrightarrow> ordered (btree_remove k m)"
  by (simp add: btree_remove_def)

lemma ordered_distinct: "ordered m \<Longrightarrow> distinct (map fst m)"
  by (simp add: strict_sorted_iff)

lemma map_of_btree_insert [simp, btree_simps]:
  "map_of (btree_insert k v m) = (map_of m)(k \<mapsto> v)"
  by (induction m) (auto simp: fun_eq_iff)

lemma map_of_btree_remove [simp, btree_simps]:
  "map_of (btree_remove k m) = (map_of m)(k := None)"
  by (induction m) (auto simp: btree_remove_def fun_eq_iff)

lemma map_of_keys_eq:
  "distinct (map fst m) \<Longrightarrow> m = map (\<lambda>k. (k, the (map_of m k))) (map fst m)"
proof (rule nth_equalityI)
  fix i assume d: "distinct (map fst m)" and "i < length m"
  then have "map_of m (fst (m ! i)) = Some (snd (m ! i))" by simp
  then show "m ! i = map (\<lambda>k. (k, the (map_of m k))) (map fst m) ! i"
    using \<open>i < length m\<close> by simp
qed simp

lemma ordered_unique:
  assumes "ordered m" "ordered m'" "map_of m = map_of m'"
  shows "m = m'"
proof -
  have "set (map fst m) = set (map fst m')"
    using assms(3) by (metis dom_map_of_conv_image_fst set_map)
  then have keys: "map fst m = map fst m'"
    using assms(1,2) by (metis strict_sorted_equal)
  show ?thesis
    using map_of_keys_eq[OF ordered_distinct[OF assms(1)]]
      map_of_keys_eq[OF ordered_distinct[OF assms(2)]] keys assms(3) by simp
qed

lemma map_of_filter_key:
  "map_of (filter (\<lambda>p. P (fst p)) m) k = (if P k then map_of m k else None)"
  by (induction m) auto

lemma ordered_map_of_iff:
  "ordered m \<Longrightarrow> map_of m k = Some v \<longleftrightarrow> (k, v) \<in> set m"
  by (simp add: ordered_distinct)

end
