(* ===== verification/Errors.thy ===== *)
theory Errors
  imports Prelude
begin

text \<open>
  The error type of \<^verbatim>\<open>src/error.rs\<close> and the result monad of the model. A Rust computation
  returns \<^verbatim>\<open>Ok\<close>, returns \<^verbatim>\<open>Err\<close> with a toyDB error, or panics (a failed assertion, an
  \<^verbatim>\<open>expect\<close>, an arithmetic overflow); the three are the constructors of \<open>result\<close>. Error and
  panic messages keep the fixed text of the source's format strings and drop the interpolated
  values. Code that mutates state through \<^verbatim>\<open>&mut self\<close> is a function from the state to a
  result and the new state; an error leaves the writes made before it in place, as in Rust.
\<close>

section \<open>Errors\<close>

datatype error =
  Abort
| InvalidData string
| InvalidInput string
| IO string
| ReadOnly
| Serialization

fun is_deterministic :: "error \<Rightarrow> bool" where
  "is_deterministic Abort = False"
| "is_deterministic (InvalidData _) = False"
| "is_deterministic (InvalidInput _) = True"
| "is_deterministic (IO _) = False"
| "is_deterministic ReadOnly = True"
| "is_deterministic Serialization = True"

fun display_error :: "error \<Rightarrow> string" where
  "display_error Abort = ''operation aborted''"
| "display_error (InvalidData msg) = ''invalid data: '' @ msg"
| "display_error (InvalidInput msg) = ''invalid input: '' @ msg"
| "display_error (IO msg) = ''io error: '' @ msg"
| "display_error ReadOnly = ''read-only transaction''"
| "display_error Serialization = ''serialization failure, retry transaction''"

section \<open>Results\<close>

datatype 'a result = Ok 'a | Err error | Panic string

definition errdata :: "string \<Rightarrow> 'a result" where
  "errdata msg = Err (InvalidData msg)"

definition errinput :: "string \<Rightarrow> 'a result" where
  "errinput msg = Err (InvalidInput msg)"

fun rbind :: "'a result \<Rightarrow> ('a \<Rightarrow> 'b result) \<Rightarrow> 'b result" where
  "rbind (Ok a) f = f a"
| "rbind (Err e) f = Err e"
| "rbind (Panic msg) f = Panic msg"

abbreviation rmap :: "('a \<Rightarrow> 'b) \<Rightarrow> 'a result \<Rightarrow> 'b result" where
  "rmap f r \<equiv> rbind r (\<lambda>a. Ok (f a))"

fun try_collect :: "'a result list \<Rightarrow> 'a list result" where
  "try_collect [] = Ok []"
| "try_collect (r # rs) = rbind r (\<lambda>a. rbind (try_collect rs) (\<lambda>as. Ok (a # as)))"

lemma try_collect_map_Ok [simp]: "try_collect (map Ok xs) = Ok xs"
  by (induction xs) auto

lemma try_collect_map_Ok' [simp]: "try_collect (map (\<lambda>x. Ok (f x)) xs) = Ok (map f xs)"
  by (induction xs) auto

lemma rbind_eq_Ok [simp]: "rbind r f = Ok b \<longleftrightarrow> (\<exists>a. r = Ok a \<and> f a = Ok b)"
  by (cases r) auto

lemma errdata_neq_Ok [simp]: "errdata msg \<noteq> Ok a" "Ok a \<noteq> errdata msg"
  by (simp_all add: errdata_def)

lemma errinput_neq_Ok [simp]: "errinput msg \<noteq> Ok a" "Ok a \<noteq> errinput msg"
  by (simp_all add: errinput_def)

section \<open>State and results\<close>

type_synonym ('s, 'a) action = "'s \<Rightarrow> 'a result \<times> 's"

definition sret :: "'a \<Rightarrow> ('s, 'a) action" where
  [monad_simps]: "sret a = (\<lambda>s. (Ok a, s))"

definition slift :: "'a result \<Rightarrow> ('s, 'a) action" where
  [monad_simps]: "slift r = (\<lambda>s. (r, s))"

definition sbind :: "('s, 'a) action \<Rightarrow> ('a \<Rightarrow> ('s, 'b) action) \<Rightarrow> ('s, 'b) action" where
  [monad_simps]: "sbind m f = (\<lambda>s. case m s of
     (Ok a, s') \<Rightarrow> f a s'
   | (Err e, s') \<Rightarrow> (Err e, s')
   | (Panic msg, s') \<Rightarrow> (Panic msg, s'))"

definition sassert :: "bool \<Rightarrow> string \<Rightarrow> ('s, unit) action" where
  [monad_simps]: "sassert b msg = (\<lambda>s. (if b then Ok () else Panic msg, s))"

text \<open>A \<^verbatim>\<open>for\<close> loop whose body may fail: the first failure ends it.\<close>

fun sfor :: "('a \<Rightarrow> ('s, unit) action) \<Rightarrow> 'a list \<Rightarrow> ('s, unit) action" where
  "sfor f [] = sret ()"
| "sfor f (x # xs) = sbind (f x) (\<lambda>_. sfor f xs)"

lemma sbind_Ok: "m s = (Ok a, s') \<Longrightarrow> sbind m f s = f a s'"
  by (simp add: sbind_def)

lemma sbind_eq_Ok:
  "sbind m f s = (Ok b, t) \<longleftrightarrow> (\<exists>a s'. m s = (Ok a, s') \<and> f a s' = (Ok b, t))"
  by (auto simp: sbind_def split: prod.splits result.splits)

lemma sassert_eq_Ok [simp]: "sassert b msg s = (Ok u, t) \<longleftrightarrow> b \<and> t = s"
  by (auto simp: sassert_def)

lemma sret_eq_Ok [simp]: "sret a s = (Ok b, t) \<longleftrightarrow> a = b \<and> t = s"
  by (auto simp: sret_def)

lemma slift_eq_Ok [simp]: "slift r s = (Ok b, t) \<longleftrightarrow> r = Ok b \<and> t = s"
  by (auto simp: slift_def)

lemmas action_ok = sbind_eq_Ok sassert_eq_Ok sret_eq_Ok slift_eq_Ok

end
