(* ===== verification/Keycode.thy ===== *)
theory Keycode
  imports Errors
begin

unbundle bit_operations_syntax

text \<open>
  The order-preserving key encoding of \<^verbatim>\<open>src/encoding/keycode.rs\<close>: the integer, float and
  byte-string encoders, prefix ranges, and the serde serializer and deserializer. A value that
  serde hands to the serializer is a term of \<open>sval\<close>, and the Rust type the caller decodes
  into is a term of \<open>sty\<close>. Shown here: decoding inverts encoding and leaves the bytes that
  follow untouched; the byte order of encoded values is the order of the values; a prefix range
  holds exactly the keys with the prefix.
\<close>

section \<open>Integers and floats\<close>

definition to_be_bytes_n :: "nat \<Rightarrow> nat \<Rightarrow> bytes" where
  "to_be_bytes_n n x = map (\<lambda>i. of_nat (x div 256 ^ i)) (rev [0..<n])"

definition from_be_bytes_n :: "bytes \<Rightarrow> nat" where
  "from_be_bytes_n bs = foldl (\<lambda>acc b. acc * 256 + unat b) 0 bs"

definition u64_to_be_bytes :: "u64 \<Rightarrow> bytes" where
  "u64_to_be_bytes x = to_be_bytes_n 8 (unat x)"

definition u64_from_be_bytes :: "bytes \<Rightarrow> u64" where
  "u64_from_be_bytes bs = of_nat (from_be_bytes_n bs)"

definition sign_bit :: u64 where
  "sign_bit = push_bit 63 1"

definition i64_key :: "i64 \<Rightarrow> u64" where
  "i64_key v = v XOR sign_bit"

definition encode_i64_key :: "i64 \<Rightarrow> u64" where
  "encode_i64_key v = v XOR sign_bit"

definition decode_i64_key :: "u64 \<Rightarrow> i64" where
  "decode_i64_key k = k XOR sign_bit"

definition f64_key :: "u64 \<Rightarrow> u64" where
  "f64_key bits = (if bits AND sign_bit = 0 then bits XOR sign_bit else NOT bits)"

definition f64_unkey :: "u64 \<Rightarrow> u64" where
  "f64_unkey key = (if key AND sign_bit \<noteq> 0 then key XOR sign_bit else NOT key)"

definition encode_f64_key :: "u64 \<Rightarrow> u64" where
  "encode_f64_key bits = (if bits AND sign_bit = 0 then bits XOR sign_bit else NOT bits)"

definition decode_f64_key :: "u64 \<Rightarrow> u64" where
  "decode_f64_key key = (if key AND sign_bit \<noteq> 0 then key XOR sign_bit else NOT key)"

section \<open>Byte strings\<close>

fun esc_all :: "bytes \<Rightarrow> bytes" where
  "esc_all [] = []"
| "esc_all (b # v) = (if b = 0 then [0, 255] else [b]) @ esc_all v"

definition bytes_enc :: "bytes \<Rightarrow> bytes" where
  "bytes_enc v = esc_all v @ [0, 0]"

fun bytes_dec :: "bytes \<Rightarrow> bytes \<times> bytes" where
  "bytes_dec (b0 # b1 # s) =
     (if b0 = 0 then
        if b1 = 0 then ([], s)
        else if b1 = 255 then (let rest = bytes_dec s in (0 # fst rest, snd rest))
        else ([], [])
      else let rest = bytes_dec (b1 # s) in (b0 # fst rest, snd rest))"
| "bytes_dec s = ([], [])"

function encode_bytes_loop :: "bytes \<Rightarrow> nat \<Rightarrow> bytes \<Rightarrow> bytes" where
  "encode_bytes_loop v i out =
     (if i < length v then
        let b = v ! i in
        encode_bytes_loop v (i + 1) (if b = 0 then out @ [0] @ [255] else out @ [b])
      else out)"
  by pat_completeness auto
termination
  by (relation "measure (\<lambda>(v, i, out). length v - i)") auto

definition encode_bytes :: "bytes \<Rightarrow> bytes" where
  "encode_bytes v = encode_bytes_loop v 0 [] @ [0] @ [0]"

datatype decode_bytes = Decoded bytes nat | InvalidEscape | UnexpectedEnd

function decode_bytes_loop :: "bytes \<Rightarrow> bytes \<Rightarrow> nat \<Rightarrow> decode_bytes" where
  "decode_bytes_loop s decoded pos =
     (if length s - pos < 2 then
        (if pos < length s \<and> s ! pos = 0 then InvalidEscape else UnexpectedEnd)
      else
        let b0 = s ! pos; b1 = s ! (pos + 1) in
        if b0 = 0 then
          if b1 = 0 then Decoded decoded (pos + 2)
          else if b1 = 255 then decode_bytes_loop s (decoded @ [0]) (pos + 2)
          else InvalidEscape
        else decode_bytes_loop s (decoded @ [b0]) (pos + 1))"
  by pat_completeness auto
termination
  by (relation "measure (\<lambda>(s, decoded, pos). length s - pos)") auto

definition decode_bytes_exec :: "bytes \<Rightarrow> decode_bytes" where
  "decode_bytes_exec s = decode_bytes_loop s [] 0"

declare encode_bytes_loop.simps [simp del] decode_bytes_loop.simps [simp del]

section \<open>Prefix ranges\<close>

text \<open>The order of the storage engine is the lexicographic order on byte lists, which
  \<open>lex_lt\<close> spells out; \<open>lex_lt_less\<close> below identifies it with the library's order.\<close>

fun lex_lt :: "bytes \<Rightarrow> bytes \<Rightarrow> bool" where
  "lex_lt [] b = (b \<noteq> [])"
| "lex_lt (x # a) [] = False"
| "lex_lt (x # a) (y # b) = (if x \<noteq> y then x < y else lex_lt a b)"

definition lex_le :: "bytes \<Rightarrow> bytes \<Rightarrow> bool" where
  "lex_le a b = (a = b \<or> lex_lt a b)"

definition is_prefix :: "bytes \<Rightarrow> bytes \<Rightarrow> bool" where
  "is_prefix p k = (length p \<le> length k \<and> take (length p) k = p)"

function prefix_end_loop :: "bytes \<Rightarrow> nat \<Rightarrow> bytes option" where
  "prefix_end_loop pre i =
     (if i > 0 then
        if pre ! (i - 1) \<noteq> 255 then
          let idx = i - 1 in Some (map ((!) pre) [0..<idx] @ [pre ! idx + 1])
        else prefix_end_loop pre (i - 1)
      else None)"
  by pat_completeness auto
termination
  by (relation "measure snd") auto

declare prefix_end_loop.simps [simp del]

definition prefix_end :: "bytes \<Rightarrow> bytes option" where
  "prefix_end pre = prefix_end_loop pre (length pre)"

datatype 'a bound = Included 'a | Excluded 'a | Unbounded

definition prefix_range :: "bytes \<Rightarrow> bytes bound \<times> bytes bound" where
  "prefix_range pre =
     (Included pre, case prefix_end pre of Some e \<Rightarrow> Excluded e | None \<Rightarrow> Unbounded)"

fun within_start :: "'a::linorder bound \<Rightarrow> 'a \<Rightarrow> bool" where
  "within_start (Included a) k = (a \<le> k)"
| "within_start (Excluded a) k = (a < k)"
| "within_start Unbounded k = True"

fun within_end :: "'a::linorder bound \<Rightarrow> 'a \<Rightarrow> bool" where
  "within_end (Included a) k = (k \<le> a)"
| "within_end (Excluded a) k = (k < a)"
| "within_end Unbounded k = True"

definition in_range :: "'a::linorder bound \<times> 'a bound \<Rightarrow> 'a \<Rightarrow> bool" where
  "in_range r k = (within_start (fst r) k \<and> within_end (snd r) k)"

section \<open>Serializing\<close>

text \<open>
  The calls serde makes on the serializer, one constructor per method of the
  \<^verbatim>\<open>serde::ser::Serializer\<close> trait that keycode implements; \<open>SOther\<close> is a call of one of
  the methods whose body is \<^verbatim>\<open>unimplemented!()\<close>. Floats are given by their IEEE 754 bits and
  strings by their UTF-8 bytes.
\<close>

datatype sval =
  SBool bool
| SI64 i64
| SU64 u64
| SF64 u64
| SStr bytes
| SBytes bytes
| SUnitVariant nat
| SNewtypeVariant nat sval
| STupleVariant nat "sval list"
| SSeq "sval list"
| STuple "sval list"
| SOther

definition push :: "bytes \<Rightarrow> (bytes, unit) action" where
  "push bs = (\<lambda>output. (Ok (), output @ bs))"

definition serialize_unit_variant :: "nat \<Rightarrow> (bytes, unit) action" where
  "serialize_unit_variant index =
     (if index < 256 then push [of_nat index] else slift (errdata ''out of range integral type conversion attempted''))"

fun serialize_val :: "sval \<Rightarrow> (bytes, unit) action"
and serialize_elements :: "sval list \<Rightarrow> (bytes, unit) action" where
  "serialize_val (SBool v) = push [if v then 1 else 0]"
| "serialize_val (SI64 v) = push (u64_to_be_bytes (encode_i64_key v))"
| "serialize_val (SU64 v) = push (u64_to_be_bytes v)"
| "serialize_val (SF64 v) = push (u64_to_be_bytes (encode_f64_key v))"
| "serialize_val (SStr v) = push (encode_bytes v)"
| "serialize_val (SBytes v) = push (encode_bytes v)"
| "serialize_val (SUnitVariant index) = serialize_unit_variant index"
| "serialize_val (SNewtypeVariant index v) =
     sbind (serialize_unit_variant index) (\<lambda>_. serialize_val v)"
| "serialize_val (STupleVariant index vs) =
     sbind (serialize_unit_variant index) (\<lambda>_. serialize_elements vs)"
| "serialize_val (SSeq vs) = serialize_elements vs"
| "serialize_val (STuple vs) = serialize_elements vs"
| "serialize_val SOther = slift (Panic ''not implemented'')"
| "serialize_elements [] = sret ()"
| "serialize_elements (v # vs) = sbind (serialize_val v) (\<lambda>_. serialize_elements vs)"

definition serialize :: "sval \<Rightarrow> bytes result" where
  "serialize key = (case serialize_val key [] of
     (Ok _, output) \<Rightarrow> Ok output
   | (Err _, output) \<Rightarrow> Panic ''key must be serializable''
   | (Panic msg, output) \<Rightarrow> Panic msg)"

section \<open>Deserializing\<close>

text \<open>The Rust types a key is decoded into; \<open>TOther\<close> is a type whose \<^verbatim>\<open>deserialize\<close> method
  is \<^verbatim>\<open>unimplemented!()\<close>. An enum lists its variants in declaration order.\<close>

datatype sty =
  TBool | TI64 | TU64 | TF64 | TStr | TBytes
| TSeq sty
| TTuple "sty list"
| TEnum "vty list"
| TOther
and vty = VUnit | VNewtype sty | VTuple "sty list"

text \<open>\<^verbatim>\<open>String::from_utf8\<close> accepts the well-formed byte sequences of the Unicode standard.\<close>

definition utf8_cont :: "u8 \<Rightarrow> bool" where
  "utf8_cont b = (0x80 \<le> b \<and> b \<le> 0xBF)"

fun utf8_valid :: "bytes \<Rightarrow> bool" where
  "utf8_valid [] = True"
| "utf8_valid (a # s) =
     (if a \<le> 0x7F then utf8_valid s
      else if 0xC2 \<le> a \<and> a \<le> 0xDF then
        (case s of b # s' \<Rightarrow> utf8_cont b \<and> utf8_valid s' | _ \<Rightarrow> False)
      else if 0xE0 \<le> a \<and> a \<le> 0xEF then
        (case s of b # c # s' \<Rightarrow>
           utf8_cont b \<and> utf8_cont c \<and> (a = 0xE0 \<longrightarrow> 0xA0 \<le> b) \<and> (a = 0xED \<longrightarrow> b \<le> 0x9F)
           \<and> utf8_valid s' | _ \<Rightarrow> False)
      else if 0xF0 \<le> a \<and> a \<le> 0xF4 then
        (case s of b # c # d # s' \<Rightarrow>
           utf8_cont b \<and> utf8_cont c \<and> utf8_cont d \<and> (a = 0xF0 \<longrightarrow> 0x90 \<le> b)
           \<and> (a = 0xF4 \<longrightarrow> b \<le> 0x8F) \<and> utf8_valid s' | _ \<Rightarrow> False)
      else False)"

definition take_bytes :: "nat \<Rightarrow> (bytes, bytes) action" where
  "take_bytes len = (\<lambda>input.
     if length input < len then (errdata ''insufficient bytes'', input)
     else (Ok (take len input), drop len input))"

definition decode_next_bytes :: "(bytes, bytes) action" where
  "decode_next_bytes = (\<lambda>input. case decode_bytes_exec input of
     Decoded decoded taken \<Rightarrow> (Ok decoded, drop taken input)
   | InvalidEscape \<Rightarrow> (errdata ''invalid escape sequence'', input)
   | UnexpectedEnd \<Rightarrow> (errdata ''unexpected end of input'', input))"

definition deserialize_bool :: "(bytes, bool) action" where
  "deserialize_bool = sbind (take_bytes 1) (\<lambda>b.
     slift (if b ! 0 = 0 then Ok False else if b ! 0 = 1 then Ok True
            else errdata ''invalid boolean value''))"

definition deserialize_u64 :: "(bytes, u64) action" where
  "deserialize_u64 = sbind (take_bytes 8) (\<lambda>b. sret (u64_from_be_bytes b))"

definition deserialize_i64 :: "(bytes, i64) action" where
  "deserialize_i64 = sbind (take_bytes 8) (\<lambda>b. sret (decode_i64_key (u64_from_be_bytes b)))"

definition deserialize_f64 :: "(bytes, u64) action" where
  "deserialize_f64 = sbind (take_bytes 8) (\<lambda>b. sret (decode_f64_key (u64_from_be_bytes b)))"

definition deserialize_string :: "(bytes, bytes) action" where
  "deserialize_string = sbind decode_next_bytes (\<lambda>b.
     slift (if utf8_valid b then Ok b else errdata ''invalid utf-8 sequence''))"

text \<open>
  \<open>deserialize_elements\<close> is the visitor of a tuple: it asks \<^verbatim>\<open>next_element_seed\<close> for each
  field, which answers \<^verbatim>\<open>None\<close> on exhausted input. \<open>deserialize_seq\<close> is the visitor of a
  \<^verbatim>\<open>Vec\<close>, which pulls elements until the input is exhausted; every supported element takes at
  least one byte, so the length of the input bounds the number of rounds.
\<close>

function (sequential) deserialize_val :: "sty \<Rightarrow> (bytes, sval) action"
and deserialize_variant :: "nat \<Rightarrow> vty \<Rightarrow> (bytes, sval) action"
and deserialize_elements :: "sty list \<Rightarrow> (bytes, sval list) action"
and deserialize_seq :: "nat \<Rightarrow> sty \<Rightarrow> (bytes, sval list) action" where
  "deserialize_val TBool = sbind deserialize_bool (\<lambda>b. sret (SBool b))"
| "deserialize_val TI64 = sbind deserialize_i64 (\<lambda>i. sret (SI64 i))"
| "deserialize_val TU64 = sbind deserialize_u64 (\<lambda>i. sret (SU64 i))"
| "deserialize_val TF64 = sbind deserialize_f64 (\<lambda>f. sret (SF64 f))"
| "deserialize_val TStr = sbind deserialize_string (\<lambda>s. sret (SStr s))"
| "deserialize_val TBytes = sbind decode_next_bytes (\<lambda>s. sret (SBytes s))"
| "deserialize_val (TSeq t) = (\<lambda>input.
     sbind (deserialize_seq (length input) t) (\<lambda>vs. sret (SSeq vs)) input)"
| "deserialize_val (TTuple ts) = sbind (deserialize_elements ts) (\<lambda>vs. sret (STuple vs))"
| "deserialize_val (TEnum vts) = sbind (take_bytes 1) (\<lambda>b.
     let index = unat (b ! 0) in
     if index < length vts then deserialize_variant index (vts ! index)
     else slift (errdata ''invalid value, expected variant index''))"
| "deserialize_val TOther = slift (Panic ''not implemented'')"
| "deserialize_variant index VUnit = sret (SUnitVariant index)"
| "deserialize_variant index (VNewtype t) =
     sbind (deserialize_val t) (\<lambda>v. sret (SNewtypeVariant index v))"
| "deserialize_variant index (VTuple ts) =
     sbind (deserialize_elements ts) (\<lambda>vs. sret (STupleVariant index vs))"
| "deserialize_elements [] = sret []"
| "deserialize_elements (t # ts) = (\<lambda>input.
     if input = [] then (errdata ''invalid length'', input)
     else sbind (deserialize_val t) (\<lambda>v.
       sbind (deserialize_elements ts) (\<lambda>vs. sret (v # vs))) input)"
| "deserialize_seq 0 t = sret []"
| "deserialize_seq (Suc fuel) t = (\<lambda>input.
     if input = [] then (Ok [], input)
     else sbind (deserialize_val t) (\<lambda>v.
       sbind (deserialize_seq fuel t) (\<lambda>vs. sret (v # vs))) input)"
  by pat_completeness auto
termination
  apply (relation "measures [
     \<lambda>x. case x of Inl (Inl t) \<Rightarrow> 2 * size t | Inl (Inr (_, vt)) \<Rightarrow> 2 * size vt
       | Inr (Inl ts) \<Rightarrow> 2 * size_list size ts | Inr (Inr (_, t)) \<Rightarrow> 2 * size t + 1,
     \<lambda>x. case x of Inr (Inr (fuel, _)) \<Rightarrow> fuel | _ \<Rightarrow> 0]")
  apply (auto simp: less_Suc_eq_le)
  subgoal for vts x
    using size_list_estimation'[OF nth_mem order_refl, of "unat (x ! 0)" vts size] by simp
  done

definition deserialize :: "sty \<Rightarrow> bytes \<Rightarrow> sval result" where
  "deserialize t input = (case deserialize_val t input of
     (Ok v, rest) \<Rightarrow>
       if rest \<noteq> [] then errdata ''unexpected trailing bytes at end of key'' else Ok v
   | (r, rest) \<Rightarrow> r)"


section \<open>Big-endian integers\<close>

lemma to_be_bytes_n_0 [simp]: "to_be_bytes_n 0 x = []"
  by (simp add: to_be_bytes_n_def)

lemma to_be_bytes_n_Suc [simp]:
  "to_be_bytes_n (Suc n) x = of_nat (x div 256 ^ n) # to_be_bytes_n n x"
  by (simp add: to_be_bytes_n_def)

lemma length_to_be_bytes_n [simp]: "length (to_be_bytes_n n x) = n"
  by (induction n) auto

lemma unat_byte_of_nat: "unat (of_nat x :: u8) = x mod 256"
  by (simp add: unat_of_nat)

lemma div_mod_256: "x div 256 ^ n mod 256 * 256 ^ n + x mod 256 ^ n = x mod (256 ^ Suc n :: nat)"
  by (metis mod_mult2_eq mult.commute power_Suc)

lemma from_be_bytes_n_foldl:
  "foldl (\<lambda>acc b. acc * 256 + unat b) a (to_be_bytes_n n x) = a * 256 ^ n + x mod 256 ^ n"
proof (induction n arbitrary: a)
  case (Suc n)
  have "(a * 256 + x div 256 ^ n mod 256) * 256 ^ n + x mod 256 ^ n = a * 256 ^ Suc n + x mod 256 ^ Suc n"
    using div_mod_256[of x n] by (simp add: algebra_simps)
  with Suc show ?case by (simp add: unat_byte_of_nat)
qed simp

lemma from_to_be_bytes_n [simp]: "from_be_bytes_n (to_be_bytes_n n x) = x mod 256 ^ n"
  by (simp add: from_be_bytes_n_def from_be_bytes_n_foldl)

lemma unat_u64_less: "unat (x :: u64) < 2 ^ 64"
  using unsigned_less[of x, where ?'a = nat] by simp

lemma length_u64_to_be_bytes [simp]: "length (u64_to_be_bytes x) = 8"
  by (simp add: u64_to_be_bytes_def)

lemma u64_from_to_be_bytes [simp]: "u64_from_be_bytes (u64_to_be_bytes x) = x"
proof -
  have "unat x < 256 ^ 8" using unat_u64_less[of x] by simp
  then show ?thesis by (simp add: u64_from_be_bytes_def u64_to_be_bytes_def del: power.simps)
qed

lemma to_be_bytes_n_order:
  "to_be_bytes_n n x < to_be_bytes_n n y \<longleftrightarrow> x mod 256 ^ n < y mod (256 ^ n :: nat)"
proof (induction n)
  case (Suc n)
  let ?hx = "x div 256 ^ n mod 256" and ?hy = "y div 256 ^ n mod 256"
  have lx: "x mod 256 ^ n < 256 ^ n" and ly: "y mod 256 ^ n < 256 ^ n" by simp_all
  have head: "(of_nat (x div 256 ^ n) < (of_nat (y div 256 ^ n) :: u8)) = (?hx < ?hy)"
    "(of_nat (x div 256 ^ n) = (of_nat (y div 256 ^ n) :: u8)) = (?hx = ?hy)"
    by (simp_all add: word_less_nat_alt word_unat_eq_iff unat_byte_of_nat)
  have "x mod 256 ^ Suc n < y mod 256 ^ Suc n \<longleftrightarrow>
      ?hx * 256 ^ n + x mod 256 ^ n < ?hy * 256 ^ n + y mod 256 ^ n"
    by (simp only: div_mod_256)
  also have "\<dots> \<longleftrightarrow> ?hx < ?hy \<or> ?hx = ?hy \<and> x mod 256 ^ n < y mod 256 ^ n"
  proof -
    { fix p q a b :: nat
      assume "p < q" "a < 256 ^ n" "b < 256 ^ n"
      then have "Suc p * 256 ^ n \<le> q * 256 ^ n" by (intro mult_le_mono1) simp
      then have "p * 256 ^ n + a < q * 256 ^ n + b" using \<open>a < 256 ^ n\<close> by simp }
    from this[of ?hx ?hy, OF _ lx ly] this[of ?hy ?hx, OF _ ly lx] show ?thesis
      by (cases ?hx ?hy rule: linorder_cases) auto
  qed
  finally show ?case using Suc head by simp
qed simp

lemma u64_to_be_bytes_order: "u64_to_be_bytes x < u64_to_be_bytes y \<longleftrightarrow> x < y"
proof -
  have "unat x < 256 ^ 8" "unat y < 256 ^ 8" using unat_u64_less[of x] unat_u64_less[of y] by simp_all
  then show ?thesis
    unfolding u64_to_be_bytes_def to_be_bytes_n_order by (simp add: word_less_nat_alt del: power.simps)
qed

lemma u64_to_be_bytes_inject [simp]: "u64_to_be_bytes x = u64_to_be_bytes y \<longleftrightarrow> x = y"
  by (metis u64_from_to_be_bytes)

section \<open>Sign-flipped keys\<close>

lemma and_sign_bit: "(x::u64) AND sign_bit = 0 \<longleftrightarrow> \<not> bit x 63"
  using and_exp_eq_0_iff_not_bit[of x 63] by (simp add: sign_bit_def)

lemma bit_sign_bit: "bit sign_bit m \<longleftrightarrow> m = 63"
  unfolding sign_bit_def bit_push_bit_iff bit_1_iff by auto

lemma bit_flip_sign: "bit (x XOR sign_bit) m \<longleftrightarrow> (bit x m \<noteq> (m = 63))"
  unfolding bit_xor_iff bit_sign_bit by blast

lemma flip_sign_twice [simp]: "(x XOR sign_bit) XOR sign_bit = x"
  by (simp add: xor.assoc)

lemma sint_eq_uint: "sint (v::u64) = uint v - (if bit v 63 then 2 ^ 64 else 0)"
proof -
  have "take_bit 64 (uint v) = uint v"
    using take_bit_word_eq_self[of 64 v] by (simp flip: unsigned_take_bit_eq)
  then show ?thesis
    by (simp add: sint_uint signed_take_bit_eq_take_bit_minus bit_unsigned_iff)
qed

lemma uint_flip_sign: "uint ((v::u64) XOR sign_bit) = sint v + 2 ^ 63"
proof -
  have "uint (v XOR sign_bit) = uint v XOR 2 ^ 63"
    by (simp add: uint_xor sign_bit_def)
  also have "\<dots> = flip_bit 63 (uint v)"
    by (simp add: flip_bit_def push_bit_eq_mult)
  also have "\<dots> = (if bit v 63 then uint v - 2 ^ 63 else uint v + 2 ^ 63)"
    by (simp add: flip_bit_eq_if set_bit_eq unset_bit_eq bit_unsigned_iff)
  finally show ?thesis by (simp add: sint_eq_uint)
qed

lemma flip_sign_order: "a XOR sign_bit < b XOR sign_bit \<longleftrightarrow> sint a < sint b"
  by (simp add: word_less_def uint_flip_sign)

lemma decode_encode_i64_key [simp]: "decode_i64_key (encode_i64_key v) = v"
  by (simp add: decode_i64_key_def encode_i64_key_def)

lemma decode_encode_f64_key [simp]: "decode_f64_key (encode_f64_key bits) = bits"
  by (simp add: decode_f64_key_def encode_f64_key_def and_sign_bit bit_flip_sign bit_not_iff)

text \<open>
  The order of \<^verbatim>\<open>f64::total_cmp\<close>: the bits are compared as signed integers after all bits but the
  sign of a negative float have been flipped.
\<close>

definition f64_total_key :: "u64 \<Rightarrow> i64" where
  "f64_total_key bits = bits XOR drop_bit 1 (signed_drop_bit 63 bits)"

definition f64_total_less :: "u64 \<Rightarrow> u64 \<Rightarrow> bool" where
  "f64_total_less a b = (sint (f64_total_key a) < sint (f64_total_key b))"

lemma bit_f64_total_key:
  "m < 64 \<Longrightarrow> bit (f64_total_key bits) m \<longleftrightarrow> (bit bits m \<noteq> (m < 63 \<and> bit bits 63))"
  unfolding f64_total_key_def bit_xor_iff bit_drop_bit_eq comp_def bit_signed_drop_bit_iff
  by (auto dest: bit_imp_le_length)

lemma encode_f64_key_total: "encode_f64_key bits = f64_total_key bits XOR sign_bit"
proof (rule bit_word_eqI)
  fix n assume "n < LENGTH(64)"
  then show "bit (encode_f64_key bits) n \<longleftrightarrow> bit (f64_total_key bits XOR sign_bit) n"
    unfolding encode_f64_key_def and_sign_bit bit_flip_sign
    by (cases "n = 63") (auto simp: bit_f64_total_key bit_flip_sign bit_not_iff)
qed

lemma encode_i64_key_order: "encode_i64_key a < encode_i64_key b \<longleftrightarrow> sint a < sint b"
  by (simp add: encode_i64_key_def flip_sign_order)

lemma encode_f64_key_order: "encode_f64_key a < encode_f64_key b \<longleftrightarrow> f64_total_less a b"
  by (simp add: encode_f64_key_total flip_sign_order f64_total_less_def)

section \<open>Escaped byte strings\<close>

lemma encode_bytes_loop_eq: "encode_bytes_loop v i out = out @ esc_all (drop i v)"
proof (induction v i out rule: encode_bytes_loop.induct)
  case (1 v i out)
  then show ?case
    by (cases "i < length v")
      (auto simp: encode_bytes_loop.simps[of v i out] Let_def Cons_nth_drop_Suc[symmetric])
qed

lemma encode_bytes_eq: "encode_bytes v = bytes_enc v"
  by (simp add: encode_bytes_def bytes_enc_def encode_bytes_loop_eq)

lemma decode_bytes_loop_enc:
  "decode_bytes_loop (ds @ esc_all v @ [0, 0] @ rest) decoded (length ds) =
   Decoded (decoded @ v) (length ds + length (esc_all v) + 2)"
proof (induction v arbitrary: ds decoded)
  case Nil
  then show ?case by (simp add: decode_bytes_loop.simps nth_append)
next
  case (Cons b v)
  show ?case
  proof (cases "b = 0")
    case True
    with Cons[of "ds @ [0, 255]" "decoded @ [0]"] show ?thesis
      by (subst decode_bytes_loop.simps) (simp add: nth_append)
  next
    case False
    with Cons[of "ds @ [b]" "decoded @ [b]"] show ?thesis
      by (subst decode_bytes_loop.simps) (simp add: nth_append)
  qed
qed

lemma decode_bytes_enc:
  "decode_bytes_exec (bytes_enc v @ rest) = Decoded v (length (bytes_enc v))"
  using decode_bytes_loop_enc[of "[]" v rest "[]"] by (simp add: decode_bytes_exec_def bytes_enc_def)

lemma decode_bytes_loop_sound:
  "decode_bytes_loop s decoded pos = Decoded d n \<Longrightarrow>
   \<exists>v. d = decoded @ v \<and> n \<le> length s \<and> drop pos s = bytes_enc v @ drop n s"
proof (induction s decoded pos rule: decode_bytes_loop.induct)
  case (1 s decoded pos)
  note unf = decode_bytes_loop.simps[of s decoded pos]
  have ge: "\<not> length s - pos < 2"
    using "1.prems" unfolding unf by (auto split: if_splits)
  then have len: "pos + 1 < length s" by simp
  then have split: "drop pos s = s ! pos # s ! (pos + 1) # drop (pos + 2) s"
    by (metis Cons_nth_drop_Suc Suc_eq_plus1 Suc_lessD add_2_eq_Suc')
  consider "s ! pos = 0" "s ! (pos + 1) = 0" | "s ! pos = 0" "s ! (pos + 1) = 255" | "s ! pos \<noteq> 0"
    using "1.prems" len unfolding unf by (auto simp: Let_def split: if_splits)
  then show ?case
  proof cases
    case 1
    with "1.prems" ge have "d = decoded" "n = pos + 2"
      unfolding unf by (simp_all add: Let_def)
    with 1 len split show ?thesis
      by (intro exI[of _ "[]"]) (simp add: bytes_enc_def)
  next
    case 2
    with "1.prems" ge have "decode_bytes_loop s (decoded @ [0]) (pos + 2) = Decoded d n"
      unfolding unf by (simp add: Let_def)
    with "1.IH"(1)[OF ge refl refl] 2 obtain v where
      "d = decoded @ 0 # v" "n \<le> length s" "drop (pos + 2) s = bytes_enc v @ drop n s"
      by auto
    with 2 split show ?thesis
      by (intro exI[of _ "0 # v"]) (simp add: bytes_enc_def)
  next
    case 3
    with "1.prems" ge have "decode_bytes_loop s (decoded @ [s ! pos]) (pos + 1) = Decoded d n"
      unfolding unf by (simp add: Let_def)
    with "1.IH"(2)[OF ge refl refl] 3 obtain v where
      "d = decoded @ s ! pos # v" "n \<le> length s" "drop (pos + 1) s = bytes_enc v @ drop n s"
      by auto
    moreover have "drop (pos + 1) s = s ! (pos + 1) # drop (pos + 2) s"
      using len by (simp add: Cons_nth_drop_Suc)
    ultimately show ?thesis
      using 3 split by (intro exI[of _ "s ! pos # v"]) (simp add: bytes_enc_def)
  qed
qed

lemma decode_bytes_sound:
  "decode_bytes_exec s = Decoded d n \<Longrightarrow> n \<le> length s \<and> s = bytes_enc d @ drop n s"
  using decode_bytes_loop_sound[of s "[]" 0 d n] by (auto simp: decode_bytes_exec_def)

lemma bytes_dec_enc: "bytes_dec (bytes_enc v @ rest) = (v, rest)"
proof (induction v)
  case (Cons b v)
  obtain c cs where cs: "bytes_enc v @ rest = c # cs"
    by (cases "bytes_enc v @ rest") (auto simp: bytes_enc_def)
  show ?case
  proof (cases "b = 0")
    case False
    then have "bytes_enc (b # v) @ rest = b # c # cs"
      using cs by (simp add: bytes_enc_def)
    with False Cons cs show ?thesis by simp
  qed (use Cons in \<open>simp add: bytes_enc_def\<close>)
qed (simp add: bytes_enc_def)

lemma bytes_enc_order:
  "bytes_enc v @ r < bytes_enc w @ r' \<longleftrightarrow> v < w \<or> v = w \<and> r < r'"
proof (induction v arbitrary: w)
  case Nil
  show ?case by (cases w) (auto simp: bytes_enc_def word_neq_0_conv)
next
  case (Cons b v)
  show ?case
  proof (cases w)
    case (Cons c w')
    with Cons.IH[of w'] show ?thesis
      by (cases "b = 0"; cases "c = 0") (auto simp: bytes_enc_def word_neq_0_conv)
  qed (auto simp: bytes_enc_def)
qed

lemma bytes_enc_append_inject: "bytes_enc v @ r = bytes_enc w @ r' \<longleftrightarrow> v = w \<and> r = r'"
  by (metis bytes_dec_enc prod.inject)

section \<open>Typed values: round trip and order\<close>

text \<open>\<open>key_bytes\<close> is the output the serializer appends, as a function of the value.\<close>

fun key_bytes :: "sval \<Rightarrow> bytes" and keys_bytes :: "sval list \<Rightarrow> bytes" where
  "key_bytes (SBool v) = [if v then 1 else 0]"
| "key_bytes (SI64 v) = u64_to_be_bytes (encode_i64_key v)"
| "key_bytes (SU64 v) = u64_to_be_bytes v"
| "key_bytes (SF64 v) = u64_to_be_bytes (encode_f64_key v)"
| "key_bytes (SStr v) = bytes_enc v"
| "key_bytes (SBytes v) = bytes_enc v"
| "key_bytes (SUnitVariant index) = [of_nat index]"
| "key_bytes (SNewtypeVariant index v) = of_nat index # key_bytes v"
| "key_bytes (STupleVariant index vs) = of_nat index # keys_bytes vs"
| "key_bytes (SSeq vs) = keys_bytes vs"
| "key_bytes (STuple vs) = keys_bytes vs"
| "key_bytes SOther = []"
| "keys_bytes [] = []"
| "keys_bytes (v # vs) = key_bytes v @ keys_bytes vs"

text \<open>A value of a self-delimiting type: no \<^verbatim>\<open>Vec\<close> (which is read to the end of the input) and no
  unsupported type.\<close>

fun typed :: "sval \<Rightarrow> sty \<Rightarrow> bool" and typed_list :: "sval list \<Rightarrow> sty list \<Rightarrow> bool" where
  "typed (SBool v) t = (t = TBool)"
| "typed (SI64 v) t = (t = TI64)"
| "typed (SU64 v) t = (t = TU64)"
| "typed (SF64 v) t = (t = TF64)"
| "typed (SStr v) t = (t = TStr \<and> utf8_valid v)"
| "typed (SBytes v) t = (t = TBytes)"
| "typed (SUnitVariant i) t = (case t of TEnum vts \<Rightarrow>
     i < 256 \<and> i < length vts \<and> vts ! i = VUnit | _ \<Rightarrow> False)"
| "typed (SNewtypeVariant i v) t = (case t of TEnum vts \<Rightarrow>
     i < 256 \<and> i < length vts \<and> (case vts ! i of VNewtype t \<Rightarrow> typed v t | _ \<Rightarrow> False)
   | _ \<Rightarrow> False)"
| "typed (STupleVariant i vs) t = (case t of TEnum vts \<Rightarrow>
     i < 256 \<and> i < length vts \<and> (case vts ! i of VTuple ts \<Rightarrow> typed_list vs ts | _ \<Rightarrow> False)
   | _ \<Rightarrow> False)"
| "typed (STuple vs) t = (case t of TTuple ts \<Rightarrow> vs \<noteq> [] \<and> typed_list vs ts | _ \<Rightarrow> False)"
| "typed (SSeq vs) t = False"
| "typed SOther t = False"
| "typed_list [] ts = (ts = [])"
| "typed_list (v # vs) ts = (case ts of t # ts' \<Rightarrow> typed v t \<and> typed_list vs ts' | [] \<Rightarrow> False)"

lemmas typed_splits = sty.splits vty.splits list.splits

lemma push_apply [simp]: "push bs out = (Ok (), out @ bs)"
  by (simp add: push_def)

lemma serialize_unit_variant_apply [simp]:
  "i < 256 \<Longrightarrow> serialize_unit_variant i out = (Ok (), out @ [of_nat i])"
  by (simp add: serialize_unit_variant_def)

lemma serialize_val_typed:
  "typed v t \<Longrightarrow> serialize_val v out = (Ok (), out @ key_bytes v)"
  "typed_list vs ts \<Longrightarrow> serialize_elements vs out = (Ok (), out @ keys_bytes vs)"
  by (induction v and vs arbitrary: t out and ts out rule: key_bytes_keys_bytes.induct)
    (auto simp: sbind_def sret_def encode_bytes_eq split: typed_splits)

lemma serialize_typed: "typed v t \<Longrightarrow> serialize v = Ok (key_bytes v)"
  by (simp add: serialize_def serialize_val_typed)

lemma bytes_nonempty [simp]: "u64_to_be_bytes x \<noteq> []" "bytes_enc v \<noteq> []"
  using length_u64_to_be_bytes[of x] by (auto simp: bytes_enc_def simp del: length_u64_to_be_bytes)

lemma key_bytes_nonempty:
  "typed v t \<Longrightarrow> key_bytes v \<noteq> []"
  "typed_list vs ts \<Longrightarrow> vs \<noteq> [] \<Longrightarrow> keys_bytes vs \<noteq> []"
  by (induction v and vs arbitrary: t and ts rule: key_bytes_keys_bytes.induct)
    (auto split: typed_splits)

lemma take_bytes_append [simp]: "length bs = n \<Longrightarrow> take_bytes n (bs @ rest) = (Ok bs, rest)"
  by (auto simp: take_bytes_def)

lemma take_bytes_1_Cons [simp]: "take_bytes (Suc 0) (b # rest) = (Ok [b], rest)"
  by (simp add: take_bytes_def)

lemma decode_next_bytes_enc [simp]: "decode_next_bytes (bytes_enc v @ rest) = (Ok v, rest)"
  by (simp add: decode_next_bytes_def decode_bytes_enc)

lemma unat_variant_index: "i < 256 \<Longrightarrow> unat (of_nat i :: u8) = i"
  by (simp add: unat_byte_of_nat)

lemmas deserialize_defs = deserialize_bool_def deserialize_u64_def deserialize_i64_def
  deserialize_f64_def deserialize_string_def

lemma deserialize_val_typed:
  "typed v t \<Longrightarrow> deserialize_val t (key_bytes v @ rest) = (Ok v, rest)"
  "typed_list vs ts \<Longrightarrow> deserialize_elements ts (keys_bytes vs @ rest) = (Ok vs, rest)"
proof (induction v and vs arbitrary: t rest and ts rest rule: key_bytes_keys_bytes.induct)
  case (14 v vs)
  then show ?case
    by (auto simp: monad_simps dest: key_bytes_nonempty(1) split: typed_splits)
qed (auto simp: monad_simps unat_variant_index deserialize_defs split: typed_splits)

lemma deserialize_typed: "typed v t \<Longrightarrow> deserialize t (key_bytes v) = Ok v"
  using deserialize_val_typed(1)[of v t "[]"] by (simp add: deserialize_def)

text \<open>The order on values of one type: scalars by value, enums by variant index and then by content,
  tuples lexicographically.\<close>

fun variant_index :: "sval \<Rightarrow> nat option" where
  "variant_index (SUnitVariant i) = Some i"
| "variant_index (SNewtypeVariant i v) = Some i"
| "variant_index (STupleVariant i vs) = Some i"
| "variant_index v = None"

definition index_less :: "nat \<Rightarrow> sval \<Rightarrow> bool" where
  "index_less i w = (case variant_index w of Some j \<Rightarrow> i < j | None \<Rightarrow> False)"

fun sval_less :: "sval \<Rightarrow> sval \<Rightarrow> bool" and svals_less :: "sval list \<Rightarrow> sval list \<Rightarrow> bool" where
  "sval_less (SBool a) w = (case w of SBool b \<Rightarrow> \<not> a \<and> b | _ \<Rightarrow> False)"
| "sval_less (SI64 a) w = (case w of SI64 b \<Rightarrow> sint a < sint b | _ \<Rightarrow> False)"
| "sval_less (SU64 a) w = (case w of SU64 b \<Rightarrow> a < b | _ \<Rightarrow> False)"
| "sval_less (SF64 a) w = (case w of SF64 b \<Rightarrow> f64_total_less a b | _ \<Rightarrow> False)"
| "sval_less (SStr a) w = (case w of SStr b \<Rightarrow> a < b | _ \<Rightarrow> False)"
| "sval_less (SBytes a) w = (case w of SBytes b \<Rightarrow> a < b | _ \<Rightarrow> False)"
| "sval_less (STuple vs) w = (case w of STuple ws \<Rightarrow> svals_less vs ws | _ \<Rightarrow> False)"
| "sval_less (SUnitVariant i) w = index_less i w"
| "sval_less (SNewtypeVariant i v) w =
     (index_less i w \<or> (case w of SNewtypeVariant j w' \<Rightarrow> i = j \<and> sval_less v w' | _ \<Rightarrow> False))"
| "sval_less (STupleVariant i vs) w =
     (index_less i w \<or> (case w of STupleVariant j ws \<Rightarrow> i = j \<and> svals_less vs ws | _ \<Rightarrow> False))"
| "sval_less (SSeq vs) w = False"
| "sval_less SOther w = False"
| "svals_less [] ws = False"
| "svals_less (v # vs) ws =
     (case ws of w # ws' \<Rightarrow> sval_less v w \<or> v = w \<and> svals_less vs ws' | [] \<Rightarrow> False)"

lemma append_less_same_length:
  "length xs = length ys \<Longrightarrow> xs @ r < ys @ r' \<longleftrightarrow> xs < ys \<or> xs = ys \<and> r < (r' :: 'a::linorder list)"
  by (induction xs ys rule: list_induct2) auto

lemma u64_bytes_append_order:
  "u64_to_be_bytes x @ r < u64_to_be_bytes y @ r' \<longleftrightarrow> x < y \<or> x = y \<and> r < r'"
  by (simp add: append_less_same_length u64_to_be_bytes_order)

lemma encode_i64_key_inject [simp]: "encode_i64_key a = encode_i64_key b \<longleftrightarrow> a = b"
  by (metis decode_encode_i64_key)

lemma encode_f64_key_inject [simp]: "encode_f64_key a = encode_f64_key b \<longleftrightarrow> a = b"
  by (metis decode_encode_f64_key)

lemma byte_of_nat_order:
  "i < 256 \<Longrightarrow> j < 256 \<Longrightarrow> (of_nat i :: u8) < of_nat j \<longleftrightarrow> i < j"
  by (simp add: word_less_nat_alt unat_byte_of_nat)

lemma byte_of_nat_inject:
  "i < 256 \<Longrightarrow> j < 256 \<Longrightarrow> (of_nat i :: u8) = of_nat j \<longleftrightarrow> i = j"
  by (simp add: word_unat_eq_iff unat_byte_of_nat)

lemmas byte_of_nat = byte_of_nat_order byte_of_nat_inject

lemma key_bytes_order:
  "typed v t \<Longrightarrow> typed w t \<Longrightarrow>
     key_bytes v @ r < key_bytes w @ r' \<longleftrightarrow> sval_less v w \<or> v = w \<and> r < r'"
  "typed_list vs ts \<Longrightarrow> typed_list ws ts \<Longrightarrow>
     keys_bytes vs @ r < keys_bytes ws @ r' \<longleftrightarrow> svals_less vs ws \<or> vs = ws \<and> r < r'"
proof (induction v and vs arbitrary: t w r r' and ts ws r r' rule: key_bytes_keys_bytes.induct)
  case (7 i)
  then show ?case by (cases w) (auto simp: byte_of_nat index_less_def split: typed_splits)
next
  case (8 i v)
  then show ?case by (cases w) (auto simp: byte_of_nat index_less_def split: typed_splits)
next
  case (9 i vs)
  then show ?case by (cases w) (auto simp: byte_of_nat index_less_def split: typed_splits)
next
  case (11 vs)
  then show ?case by (cases w) (auto split: typed_splits)
next
  case (13)
  then show ?case by (cases ws) (auto split: typed_splits)
next
  case (14 v vs)
  then show ?case by (cases ws) (auto split: typed_splits)
next
  case (1 v) then show ?case by (cases w) auto
next
  case (2 v) then show ?case by (cases w) (auto simp: u64_bytes_append_order encode_i64_key_order)
next
  case (3 v) then show ?case by (cases w) (auto simp: u64_bytes_append_order)
next
  case (4 v) then show ?case by (cases w) (auto simp: u64_bytes_append_order encode_f64_key_order)
next
  case (5 v) then show ?case by (cases w) (auto simp: bytes_enc_order)
next
  case (6 v) then show ?case by (cases w) (auto simp: bytes_enc_order)
qed auto

lemma key_bytes_less:
  "typed v t \<Longrightarrow> typed w t \<Longrightarrow> key_bytes v < key_bytes w \<longleftrightarrow> sval_less v w"
  by (metis key_bytes_order(1) append_Nil2 less_irrefl)

lemma key_bytes_append_inject:
  assumes "typed v t" "typed w t" "key_bytes v @ r = key_bytes w @ r'"
  shows "v = w \<and> r = r'"
proof -
  have "(Ok v, r) = deserialize_val t (key_bytes v @ r)"
    by (rule deserialize_val_typed(1)[OF assms(1), symmetric])
  also have "\<dots> = deserialize_val t (key_bytes w @ r')"
    by (rule arg_cong[OF assms(3)])
  also have "\<dots> = (Ok w, r')"
    by (rule deserialize_val_typed(1)[OF assms(2)])
  finally show ?thesis by simp
qed

lemma key_bytes_inject: "typed v t \<Longrightarrow> typed w t \<Longrightarrow> key_bytes v = key_bytes w \<longleftrightarrow> v = w"
  by (metis key_bytes_append_inject)

subsection \<open>Byte strings in order, prefixes and prefix ranges\<close>

lemma lex_lt_less: "lex_lt a b \<longleftrightarrow> a < b"
proof (induction a b rule: lex_lt.induct)
  case (1 b)
  then show ?case by (cases b) auto
qed auto

lemma lex_le_less_eq: "lex_le a b \<longleftrightarrow> a \<le> b"
  by (auto simp: lex_le_def lex_lt_less)

lemma is_prefix_prefix: "is_prefix p k \<longleftrightarrow> prefix p k"
  by (metis append_eq_conv_conj is_prefix_def prefix_def take_is_prefix prefix_length_le)

lemma max_word_numeral_u8: "(- 1 :: u8) = 255"
  by simp

lemma byte_max: "c \<le> (255 :: u8)"
  using word_order.extremum[of c] by (metis max_word_numeral_u8)

lemma byte_succ: "b \<noteq> (255::u8) \<Longrightarrow> c < b + 1 \<longleftrightarrow> c \<le> b"
proof -
  assume "b \<noteq> 255"
  then have "unat b < 255" using byte_max[of b] by (simp add: word_le_nat_alt word_unat_eq_iff)
  then have "unat (b + 1) = unat b + 1" by (simp add: unat_word_ariths)
  then show ?thesis by (simp add: word_less_nat_alt word_le_nat_alt less_Suc_eq_le)
qed

lemma take_map_nth: "i < length p \<Longrightarrow> map ((!) p) [0..<i] = take i p"
  by (simp add: list_eq_iff_nth_eq)

lemma prefix_end_loop_Suc:
  "i < length p \<Longrightarrow> prefix_end_loop p (Suc i) =
    (if p ! i \<noteq> 255 then Some (take i p @ [p ! i + 1]) else prefix_end_loop p i)"
  by (subst prefix_end_loop.simps) (simp add: take_map_nth)

lemma prefix_end_loop_0: "prefix_end_loop p 0 = None"
  by (subst prefix_end_loop.simps) simp

lemma prefix_end_loop_cases:
  assumes "i \<le> length p"
  shows "case prefix_end_loop p i of
      None \<Rightarrow> \<forall>b\<in>set (take i p). b = 255
    | Some e \<Rightarrow> \<exists>q b s. take i p = q @ b # s \<and> b \<noteq> 255 \<and> (\<forall>x\<in>set s. x = 255) \<and> e = q @ [b + 1]"
  using assms
proof (induction i)
  case (Suc i)
  then show ?case
    by (auto simp: prefix_end_loop_Suc take_Suc_conv_app_nth split: option.splits)
qed (simp add: prefix_end_loop_0)

lemma all_255_prefix:
  "\<forall>b\<in>set p. b = 255 \<Longrightarrow> prefix p k \<longleftrightarrow> p \<le> (k :: bytes)"
proof (induction p arbitrary: k)
  case (Cons b p)
  have "\<not> (255 :: u8) < c" for c using byte_max[of c] by auto
  with Cons show ?case by (cases k) auto
qed simp

lemma prefix_end_exact:
  assumes "p = q @ b # s" "b \<noteq> 255" "\<forall>x\<in>set s. x = 255"
  shows "prefix p k \<longleftrightarrow> p \<le> k \<and> k < q @ [b + 1 :: u8]"
  using assms
proof (induction q arbitrary: p k)
  case Nil
  then show ?case by (cases k) (auto simp: byte_succ all_255_prefix)
next
  case (Cons a q)
  then show ?case by (cases k) auto
qed

lemma in_prefix_range: "in_range (prefix_range p) k \<longleftrightarrow> prefix p k"
proof (cases "prefix_end p")
  case None
  then show ?thesis
    using prefix_end_loop_cases[of "length p" p] all_255_prefix[of p k]
    by (simp add: prefix_range_def in_range_def prefix_end_def)
next
  case (Some e)
  then obtain q b s where "p = q @ b # s" "b \<noteq> 255" "\<forall>x\<in>set s. x = 255" "e = q @ [b + 1]"
    using prefix_end_loop_cases[of "length p" p] by (auto simp: prefix_end_def)
  with Some show ?thesis
    using prefix_end_exact[of p q b s k] by (simp add: prefix_range_def in_range_def)
qed

subsection \<open>Properties\<close>

text \<open>C18 Every value of a schema type serializes, and deserializing the bytes at that type returns
  exactly the value, with nothing left over.\<close>
theorem keycode_roundtrip:
  assumes "typed v t"
  shows "\<exists>bs. serialize v = Ok bs \<and> deserialize t bs = Ok v"
  using assms by (simp add: serialize_typed deserialize_typed)

theorem keycode_roundtrip_witness:
  "\<exists>bs. serialize (STuple [SStr [0x61, 0], SI64 (- 5)]) = Ok bs
     \<and> deserialize (TTuple [TStr, TI64]) bs = Ok (STuple [SStr [0x61, 0], SI64 (- 5)])"
  by (rule keycode_roundtrip) code_simp



text \<open>C20 The range that \<^verbatim>\<open>prefix_range\<close> computes for a prefix holds exactly the keys that
  begin with the prefix, also when the prefix ends in bytes \<^verbatim>\<open>0xff\<close> and when all of it does.\<close>
theorem prefix_range_exact: "in_range (prefix_range p) k \<longleftrightarrow> is_prefix p k"
  by (simp add: in_prefix_range is_prefix_prefix)

end
