(* ===== verification/Storage_Engine.thy ===== *)
theory Storage_Engine
  imports Keycode
begin

text \<open>
  The storage engine interface of \<^verbatim>\<open>src/storage/engine.rs\<close>. The Rust trait \<^verbatim>\<open>Engine\<close> is a record
  of its methods, each an action on the engine's state; code that is generic in the engine takes
  that record as an argument. A scan borrows the engine until the iterator is dropped, so nothing
  can change the engine while it runs, and the iterator is modelled by the list of the items it
  would yield; the reverse iteration of \<^verbatim>\<open>DoubleEndedIterator\<close> is the reversed list.

  The contract of the trait's documentation (an ordered map of byte strings) is the locale
  \<open>engine\<close>: an invariant, an abstraction to a strictly ordered association list and one law per
  method. Its main consequence is a simulation: code that only uses the engine's methods runs on
  any engine exactly as it runs on the ordered map itself.
\<close>

section \<open>The interface\<close>

record status =
  status_name :: string
  status_keys :: u64
  status_size :: u64
  disk_size :: u64
  live_disk_size :: u64

text \<open>The subtraction is unsigned: a live size above the disk size is an overflow panic.\<close>

definition garbage_disk_size :: "status \<Rightarrow> u64 result" where
  "garbage_disk_size st =
     (if live_disk_size st \<le> disk_size st then Ok (disk_size st - live_disk_size st)
      else Panic ''attempt to subtract with overflow'')"

type_synonym key_range = "bytes bound \<times> bytes bound"

record 'e engine_ops =
  eng_delete :: "bytes \<Rightarrow> ('e, unit) action"
  eng_flush :: "('e, unit) action"
  eng_get :: "bytes \<Rightarrow> ('e, bytes option) action"
  eng_scan :: "key_range \<Rightarrow> ('e, (bytes \<times> bytes) result list) action"
  eng_set :: "bytes \<Rightarrow> bytes \<Rightarrow> ('e, unit) action"
  eng_status :: "('e, status) action"

definition eng_scan_prefix :: "'e engine_ops \<Rightarrow> bytes \<Rightarrow> ('e, (bytes \<times> bytes) result list) action" where
  "eng_scan_prefix ops pre = eng_scan ops (prefix_range pre)"

section \<open>Ranges of a BTreeMap\<close>

text \<open>\<^verbatim>\<open>BTreeMap::range\<close> panics when the start lies after the end and when the bounds are equal
  and both excluded.\<close>

fun range_valid :: "'a::linorder bound \<times> 'a bound \<Rightarrow> bool" where
  "range_valid (Excluded s, Excluded e) = (s < e)"
| "range_valid (Excluded s, Included e) = (s \<le> e)"
| "range_valid (Included s, Excluded e) = (s \<le> e)"
| "range_valid (Included s, Included e) = (s \<le> e)"
| "range_valid _ = True"

definition btree_range :: "'k::linorder bound \<times> 'k bound \<Rightarrow> ('k \<times> 'v) list \<Rightarrow> ('k \<times> 'v) list result" where
  "btree_range r m =
     (if range_valid r then Ok (filter (\<lambda>p. in_range r (fst p)) m)
      else Panic ''range start is greater than range end in BTreeMap'')"

lemma prefix_less_end: "prefix_end p = Some e \<Longrightarrow> p \<le> e"
proof -
  assume "prefix_end p = Some e"
  then have "in_range (Included p, Excluded e) p"
    using in_prefix_range[of p p] by (simp add: prefix_range_def)
  then show ?thesis by (simp add: in_range_def)
qed

lemma range_valid_prefix [simp]: "range_valid (prefix_range p)"
  by (auto simp: prefix_range_def prefix_less_end split: option.splits)

lemma btree_range_prefix:
  "btree_range (prefix_range p) m = Ok (filter (\<lambda>x. prefix p (fst x)) m)"
  by (simp add: btree_range_def in_prefix_range)

section \<open>Simulation of actions\<close>

text \<open>\<open>sim inv abst m m'\<close>: from related states the two actions return the same result, and end in
  related states.\<close>

definition sim :: "('c \<Rightarrow> bool) \<Rightarrow> ('c \<Rightarrow> 'a) \<Rightarrow> ('c, 'r) action \<Rightarrow> ('a, 'r) action \<Rightarrow> bool" where
  "sim invar abst m m' = (\<forall>c. invar c \<longrightarrow>
     fst (m c) = fst (m' (abst c)) \<and> invar (snd (m c)) \<and> abst (snd (m c)) = snd (m' (abst c)))"

named_theorems sim_intros \<open>simulation rules for the state-result monad and the engine operations\<close>

lemma simD:
  assumes "sim invar abst m m'" "invar c"
  shows "fst (m c) = fst (m' (abst c))" "invar (snd (m c))" "abst (snd (m c)) = snd (m' (abst c))"
  using assms by (auto simp: sim_def)

lemma simE:
  assumes "sim invar abst m m'" "invar c" "m' (abst c) = (r, a)"
  obtains c' where "m c = (r, c')" "invar c'" "abst c' = a"
  using simD[OF assms(1,2)] assms(3) by (metis fst_conv prod.collapse snd_conv)

lemma sim_sret [sim_intros]: "sim invar abst (sret a) (sret a)"
  by (simp add: sim_def sret_def)

lemma sim_slift [sim_intros]: "sim invar abst (slift r) (slift r)"
  by (simp add: sim_def slift_def)

lemma sim_sassert [sim_intros]: "sim invar abst (sassert b msg) (sassert b msg)"
  by (simp add: sim_def sassert_def)

lemma sim_sbind [sim_intros]:
  assumes "sim invar abst m m'" "\<And>a. sim invar abst (f a) (f' a)"
  shows "sim invar abst (sbind m f) (sbind m' f')"
  unfolding sim_def
proof (intro allI impI)
  fix c assume c: "invar c"
  obtain r c' where m: "m c = (r, c')" by fastforce
  have m': "m' (abst c) = (r, abst c')" "invar c'"
    using simD[OF assms(1) c] m by (simp_all add: prod_eq_iff)
  show "fst (sbind m f c) = fst (sbind m' f' (abst c)) \<and> invar (snd (sbind m f c)) \<and>
      abst (snd (sbind m f c)) = snd (sbind m' f' (abst c))"
    using m m' simD[OF assms(2) m'(2)] by (cases r) (simp_all add: sbind_def)
qed

lemma sim_sfor [sim_intros]:
  assumes "\<And>x. sim invar abst (f x) (f' x)"
  shows "sim invar abst (sfor f xs) (sfor f' xs)"
  by (induction xs) (auto intro!: sim_intros assms)

lemma sim_if [sim_intros]:
  "(b \<Longrightarrow> sim invar abst m m') \<Longrightarrow> (\<not> b \<Longrightarrow> sim invar abst n n') \<Longrightarrow>
     sim invar abst (if b then m else n) (if b then m' else n')"
  by simp

lemma sim_case_option [sim_intros]:
  "sim invar abst n n' \<Longrightarrow> (\<And>a. sim invar abst (f a) (f' a)) \<Longrightarrow>
     sim invar abst (case x of None \<Rightarrow> n | Some a \<Rightarrow> f a) (case x of None \<Rightarrow> n' | Some a \<Rightarrow> f' a)"
  by (cases x) auto

lemma sim_case_list [sim_intros]:
  "sim invar abst n n' \<Longrightarrow> (\<And>a as. sim invar abst (f a as) (f' a as)) \<Longrightarrow>
     sim invar abst (case x of [] \<Rightarrow> n | a # as \<Rightarrow> f a as) (case x of [] \<Rightarrow> n' | a # as \<Rightarrow> f' a as)"
  by (cases x) auto

lemma sim_case_prod [sim_intros]:
  "(\<And>a b. sim invar abst (f a b) (f' a b)) \<Longrightarrow>
     sim invar abst (case x of (a, b) \<Rightarrow> f a b) (case x of (a, b) \<Rightarrow> f' a b)"
  by (cases x) auto

end
