(* ===== verification/Memory.thy ===== *)
theory Memory
  imports Storage_Engine
begin

text \<open>
  The in-memory engine of \<^verbatim>\<open>src/storage/memory.rs\<close>: a \<^verbatim>\<open>BTreeMap\<close> from keys to values. It is also
  the ordered map that the engine contract speaks about, so the contract is stated here.
\<close>

section \<open>Operations\<close>

type_synonym memory = "(bytes \<times> bytes) list"

definition memory_new :: memory where
  "memory_new = []"

definition memory_delete :: "bytes \<Rightarrow> (memory, unit) action" where
  "memory_delete key m = (Ok (), btree_remove key m)"

definition memory_flush :: "(memory, unit) action" where
  "memory_flush m = (Ok (), m)"

definition memory_get :: "bytes \<Rightarrow> (memory, bytes option) action" where
  "memory_get key m = (Ok (map_of m key), m)"

definition memory_scan :: "key_range \<Rightarrow> (memory, (bytes \<times> bytes) result list) action" where
  "memory_scan r m = (rmap (map Ok) (btree_range r m), m)"

definition memory_set :: "bytes \<Rightarrow> bytes \<Rightarrow> (memory, unit) action" where
  "memory_set key val m = (Ok (), btree_insert key val m)"

definition memory_status :: "(memory, status) action" where
  "memory_status m = (Ok \<lparr>status_name = ''memory'', status_keys = of_nat (length m),
     status_size = (\<Sum>(k, v)\<leftarrow>m. of_nat (length k + length v)), disk_size = 0, live_disk_size = 0\<rparr>, m)"

definition memory_ops :: "memory engine_ops" where
  "memory_ops = \<lparr>eng_delete = memory_delete, eng_flush = memory_flush, eng_get = memory_get,
     eng_scan = memory_scan, eng_set = memory_set, eng_status = memory_status\<rparr>"

section \<open>The engine contract\<close>

text \<open>The laws: the engine holds a strictly ordered map; reads return what the map holds and leave
  it as it is; a write replaces or removes one key; an invalid range panics.\<close>

locale engine =
  fixes ops :: "'e engine_ops" and invar :: "'e \<Rightarrow> bool" and abst :: "'e \<Rightarrow> memory"
  assumes ordered_abs: "invar e \<Longrightarrow> ordered (abst e)"
    and get_law: "invar e \<Longrightarrow> eng_get ops k e = (Ok (map_of (abst e) k), e)"
    and scan_law: "invar e \<Longrightarrow> eng_scan ops r e = (rmap (map Ok) (btree_range r (abst e)), e)"
    and set_law: "invar e \<Longrightarrow> \<exists>e'. eng_set ops k v e = (Ok (), e') \<and> invar e' \<and>
      abst e' = btree_insert k v (abst e)"
    and delete_law: "invar e \<Longrightarrow> \<exists>e'. eng_delete ops k e = (Ok (), e') \<and> invar e' \<and>
      abst e' = btree_remove k (abst e)"
    and flush_law: "invar e \<Longrightarrow> \<exists>e'. eng_flush ops e = (Ok (), e') \<and> invar e' \<and> abst e' = abst e"
    and status_law: "invar e \<Longrightarrow> \<exists>st. eng_status ops e = (Ok st, e)"
begin

lemma sim_get [sim_intros]: "sim invar abst (eng_get ops k) (eng_get memory_ops k)"
  by (simp add: sim_def get_law memory_ops_def memory_get_def)

lemma sim_scan [sim_intros]: "sim invar abst (eng_scan ops r) (eng_scan memory_ops r)"
  by (simp add: sim_def scan_law memory_ops_def memory_scan_def)

lemma sim_scan_prefix [sim_intros]:
  "sim invar abst (eng_scan_prefix ops p) (eng_scan_prefix memory_ops p)"
  unfolding eng_scan_prefix_def by (rule sim_scan)

lemma sim_set [sim_intros]: "sim invar abst (eng_set ops k v) (eng_set memory_ops k v)"
  unfolding sim_def using set_law[of _ k v] by (fastforce simp: memory_ops_def memory_set_def)

lemma sim_delete [sim_intros]: "sim invar abst (eng_delete ops k) (eng_delete memory_ops k)"
  unfolding sim_def using delete_law[of _ k] by (fastforce simp: memory_ops_def memory_delete_def)

lemma sim_flush [sim_intros]: "sim invar abst (eng_flush ops) (eng_flush memory_ops)"
  unfolding sim_def using flush_law by (fastforce simp: memory_ops_def memory_flush_def)

end

lemmas memory_defs = memory_ops_def memory_get_def memory_set_def memory_delete_def
  memory_scan_def memory_flush_def

interpretation mem: engine memory_ops "\<lambda>m. ordered m" "\<lambda>m. m"
  by unfold_locales (auto simp: memory_defs memory_status_def)

named_theorems mem_simps \<open>the operations of the in-memory engine, evaluated\<close>

lemma mem_ops_simps [mem_simps]:
  "eng_get memory_ops k m = (Ok (map_of m k), m)"
  "eng_set memory_ops k v m = (Ok (), btree_insert k v m)"
  "eng_delete memory_ops k m = (Ok (), btree_remove k m)"
  "eng_scan memory_ops r m = (rmap (map Ok) (btree_range r m), m)"
  "eng_flush memory_ops m = (Ok (), m)"
  by (simp_all add: memory_defs)

lemma mem_scan_prefix [mem_simps]:
  "eng_scan_prefix memory_ops p m = (Ok (map Ok (filter (\<lambda>x. prefix p (fst x)) m)), m)"
  by (simp add: eng_scan_prefix_def mem_simps btree_range_prefix)

end
