(* ===== verification/BitCask.thy ===== *)
theory BitCask
  imports Memory
begin

text \<open>
  The log-structured engine of \<^verbatim>\<open>src/storage/bitcask.rs\<close>: an append-only file of key/value entries
  and an in-memory directory from keys to value locations. The file is the list of its bytes; every
  read and write of the source seeks to an absolute position first, so the file cursor is not part of
  the state. File offsets and lengths are natural numbers (a file is far shorter than
  \<^verbatim>\<open>u64::MAX\<close>), while the two length fields of an entry have their 32 bits and wrap as the casts
  in the source do. Failing file operations, file locks and the path are not modelled.
\<close>

section \<open>The log file\<close>

record value_location =
  loc_offset :: nat
  loc_length :: nat

definition loc_end :: "value_location \<Rightarrow> nat" where
  "loc_end loc = loc_offset loc + loc_length loc"

type_synonym keydir = "(bytes \<times> value_location) list"

definition u32_to_be_bytes :: "u32 \<Rightarrow> bytes" where
  "u32_to_be_bytes x = to_be_bytes_n 4 (unat x)"

definition u32_from_be_bytes :: "bytes \<Rightarrow> u32" where
  "u32_from_be_bytes bs = of_nat (from_be_bytes_n bs)"

text \<open>\<^verbatim>\<open>read_exact\<close> at a position: \<open>None\<close> is an error of kind \<^verbatim>\<open>UnexpectedEof\<close>.\<close>

definition read_exact :: "bytes \<Rightarrow> nat \<Rightarrow> nat \<Rightarrow> bytes option" where
  "read_exact file pos n = (if pos + n \<le> length file then Some (take n (drop pos file)) else None)"

definition write_entry :: "bytes \<Rightarrow> bytes option \<Rightarrow> (bytes, value_location) action" where
  "write_entry key val file =
     (let offset = length file;
          value_len = (case val of Some v \<Rightarrow> of_nat (length v) | None \<Rightarrow> - 1) :: u32
      in (Ok \<lparr>loc_offset = offset + 8 + length key,
              loc_length = (case val of Some v \<Rightarrow> length v | None \<Rightarrow> 0)\<rparr>,
          file @ u32_to_be_bytes (of_nat (length key)) @ u32_to_be_bytes value_len @ key @
            (case val of Some v \<Rightarrow> v | None \<Rightarrow> [])))"

definition read_value :: "value_location \<Rightarrow> (bytes, bytes) action" where
  "read_value loc file =
     (case read_exact file (loc_offset loc) (loc_length loc) of
        Some v \<Rightarrow> Ok v
      | None \<Rightarrow> Err (IO ''failed to fill whole buffer''), file)"

text \<open>One iteration of the scan in \<^verbatim>\<open>build_keydir\<close>: the entry at an offset, with the location of
  its value (none for a tombstone) and the offset after it, or \<open>None\<close> when the file ends early.\<close>

definition read_entry :: "bytes \<Rightarrow> nat \<Rightarrow> (bytes \<times> value_location option \<times> nat) option" where
  "read_entry file offset =
     Option.bind (read_exact file offset 4) (\<lambda>len_buf.
       let key_len = unat (u32_from_be_bytes len_buf)
       in Option.bind (read_exact file (offset + 4) 4) (\<lambda>len_buf.
         let value_len = sint (u32_from_be_bytes len_buf);
             value_loc = (if value_len < 0 then None
               else Some \<lparr>loc_offset = offset + 8 + key_len, loc_length = nat value_len\<rparr>)
         in Option.bind (read_exact file (offset + 8) key_len) (\<lambda>key.
           if (case value_loc of Some loc \<Rightarrow> loc_end loc > length file | None \<Rightarrow> False) then None
           else Some (key, value_loc,
             offset + 8 + key_len + (case value_loc of Some loc \<Rightarrow> loc_length loc | None \<Rightarrow> 0)))))"

lemma read_entry_progress: "read_entry file offset = Some (k, loc, offset') \<Longrightarrow> offset < offset'"
  by (auto simp: read_entry_def Let_def bind_eq_Some_conv split: if_splits)

function build_keydir_loop :: "bytes \<Rightarrow> nat \<Rightarrow> keydir \<Rightarrow> keydir \<times> bytes" where
  "build_keydir_loop file offset kd =
     (if offset < length file then
        case read_entry file offset of
          Some (key, Some loc, offset') \<Rightarrow> build_keydir_loop file offset' (btree_insert key loc kd)
        | Some (key, None, offset') \<Rightarrow> build_keydir_loop file offset' (btree_remove key kd)
        | None \<Rightarrow> (kd, take offset file)
      else (kd, file))"
  by pat_completeness auto
termination
  by (relation "measure (\<lambda>(file, offset, kd). length file - offset)")
    (auto dest: read_entry_progress)

declare build_keydir_loop.simps [simp del]

definition build_keydir :: "(bytes, keydir) action" where
  "build_keydir file = (let (kd, file') = build_keydir_loop file 0 [] in (Ok kd, file'))"

section \<open>The engine\<close>

record bitcask =
  bc_log :: bytes
  bc_keydir :: keydir

definition bitcask_new :: "bytes \<Rightarrow> bitcask result" where
  "bitcask_new file =
     (case build_keydir file of
        (r, file') \<Rightarrow> rmap (\<lambda>kd. \<lparr>bc_log = file', bc_keydir = kd\<rparr>) r)"

text \<open>An action on the log file, run on the engine that owns it.\<close>

definition on_log :: "(bytes, 'a) action \<Rightarrow> (bitcask, 'a) action" where
  "on_log m bc = (case m (bc_log bc) of (r, file) \<Rightarrow> (r, bc\<lparr>bc_log := file\<rparr>))"

definition on_keydir :: "(keydir \<Rightarrow> keydir) \<Rightarrow> (bitcask, unit) action" where
  "on_keydir f bc = (Ok (), bc\<lparr>bc_keydir := f (bc_keydir bc)\<rparr>)"

definition bitcask_delete :: "bytes \<Rightarrow> (bitcask, unit) action" where
  "bitcask_delete key =
     sbind (on_log (write_entry key None)) (\<lambda>_.
     on_keydir (btree_remove key))"

definition bitcask_flush :: "(bitcask, unit) action" where
  "bitcask_flush bc = (Ok (), bc)"

definition bitcask_get :: "bytes \<Rightarrow> (bitcask, bytes option) action" where
  "bitcask_get key bc =
     (case map_of (bc_keydir bc) key of
        None \<Rightarrow> (Ok None, bc)
      | Some location \<Rightarrow> sbind (on_log (read_value location)) (\<lambda>v. sret (Some v)) bc)"

definition bitcask_scan :: "key_range \<Rightarrow> (bitcask, (bytes \<times> bytes) result list) action" where
  "bitcask_scan r bc =
     (rmap (map (\<lambda>(key, value_loc). rmap (\<lambda>v. (key, v)) (fst (read_value value_loc (bc_log bc)))))
        (btree_range r (bc_keydir bc)), bc)"

definition bitcask_set :: "bytes \<Rightarrow> bytes \<Rightarrow> (bitcask, unit) action" where
  "bitcask_set key val =
     sbind (on_log (write_entry key (Some val))) (\<lambda>value_location.
     on_keydir (btree_insert key value_location))"

definition bitcask_status :: "(bitcask, status) action" where
  "bitcask_status bc =
     (let n = of_nat (length (bc_keydir bc));
          sz = (\<Sum>(key, loc)\<leftarrow>bc_keydir bc. of_nat (length key + loc_length loc))
      in (Ok \<lparr>status_name = ''bitcask'', status_keys = n, status_size = sz,
              disk_size = of_nat (length (bc_log bc)), live_disk_size = sz + 8 * n\<rparr>, bc))"

definition bitcask_ops :: "bitcask engine_ops" where
  "bitcask_ops = \<lparr>eng_delete = bitcask_delete, eng_flush = bitcask_flush, eng_get = bitcask_get,
     eng_scan = bitcask_scan, eng_set = bitcask_set, eng_status = bitcask_status\<rparr>"

text \<open>Compaction writes the live entries to a new, emptied log, one after the other, and then
  replaces the log and the directory; an error leaves the engine as it was.\<close>

fun compact_loop :: "bytes \<Rightarrow> keydir \<Rightarrow> keydir \<Rightarrow> (bytes, keydir) action" where
  "compact_loop old [] new_kd = sret new_kd"
| "compact_loop old ((key, loc) # kd) new_kd =
     sbind (slift (fst (read_value loc old))) (\<lambda>val.
     sbind (write_entry key (Some val)) (\<lambda>loc'.
     compact_loop old kd (btree_insert key loc' new_kd)))"

definition bitcask_compact :: "(bitcask, unit) action" where
  "bitcask_compact bc =
     (case compact_loop (bc_log bc) (bc_keydir bc) [] [] of
        (Ok new_keydir, new_log) \<Rightarrow> (Ok (), bc\<lparr>bc_log := new_log, bc_keydir := new_keydir\<rparr>)
      | (Err e, _) \<Rightarrow> (Err e, bc)
      | (Panic msg, _) \<Rightarrow> (Panic msg, bc))"

section \<open>The engine contract holds\<close>

definition value_at :: "bytes \<Rightarrow> value_location \<Rightarrow> bytes" where
  "value_at file loc = take (loc_length loc) (drop (loc_offset loc) file)"

text \<open>The content of an engine: the live keys with the values their locations hold.\<close>

definition live :: "bytes \<Rightarrow> keydir \<Rightarrow> memory" where
  "live file kd = map (\<lambda>(k, loc). (k, value_at file loc)) kd"

definition bc_abs :: "bitcask \<Rightarrow> memory" where
  "bc_abs bc = live (bc_log bc) (bc_keydir bc)"

definition locs_in :: "nat \<Rightarrow> keydir \<Rightarrow> bool" where
  "locs_in n kd = (\<forall>(k, loc)\<in>set kd. loc_end loc \<le> n)"

definition bc_invar :: "bitcask \<Rightarrow> bool" where
  "bc_invar bc = (ordered (bc_keydir bc) \<and> locs_in (length (bc_log bc)) (bc_keydir bc))"

definition encode_entry :: "bytes \<Rightarrow> bytes option \<Rightarrow> bytes" where
  "encode_entry key val =
     u32_to_be_bytes (of_nat (length key)) @
     u32_to_be_bytes (case val of Some v \<Rightarrow> of_nat (length v) | None \<Rightarrow> - 1) @ key @
     (case val of Some v \<Rightarrow> v | None \<Rightarrow> [])"

lemma live_btree_insert: "live f (btree_insert k loc kd) = btree_insert k (value_at f loc) (live f kd)"
  unfolding live_def by (induction k loc kd rule: btree_insert.induct) auto

lemma live_btree_remove: "live f (btree_remove k kd) = btree_remove k (live f kd)"
  unfolding live_def by (induction kd) (auto simp: btree_remove_def)

lemma live_ordered [simp]: "ordered (live f kd) = ordered kd"
  by (simp add: live_def case_prod_unfold comp_def)

lemma map_of_live: "map_of (live f kd) k = map_option (value_at f) (map_of kd k)"
  by (induction kd) (auto simp: live_def)

lemma btree_range_live:
  "btree_range r (live f kd) = rmap (live f) (btree_range r kd)"
  by (auto simp: btree_range_def live_def filter_map comp_def case_prod_unfold)

lemmas live_simps = live_btree_insert live_btree_remove map_of_live btree_range_live

lemma set_btree_insert_subset: "set (btree_insert k v m) \<subseteq> insert (k, v) (set m)"
  by (induction k v m rule: btree_insert.induct) auto

lemma write_entry_eq:
  "write_entry key val file =
     (Ok \<lparr>loc_offset = length file + 8 + length key,
          loc_length = (case val of Some v \<Rightarrow> length v | None \<Rightarrow> 0)\<rparr>, file @ encode_entry key val)"
  by (simp add: write_entry_def encode_entry_def)

lemma length_u32_to_be_bytes [simp]: "length (u32_to_be_bytes x) = 4"
  by (simp add: u32_to_be_bytes_def)

lemma length_encode_entry:
  "length (encode_entry k v) = 8 + length k + (case v of Some v \<Rightarrow> length v | None \<Rightarrow> 0)"
  by (simp add: encode_entry_def split: option.split)

lemma value_at_append: "loc_end loc \<le> length f \<Longrightarrow> value_at (f @ g) loc = value_at f loc"
  by (simp add: value_at_def loc_end_def)

lemma value_at_written:
  "value_at (f @ encode_entry k (Some v)) \<lparr>loc_offset = length f + 8 + length k, loc_length = length v\<rparr> = v"
  by (simp add: value_at_def encode_entry_def)

lemma locs_in_insert: "locs_in n kd \<Longrightarrow> loc_end loc \<le> n \<Longrightarrow> locs_in n (btree_insert k loc kd)"
  using set_btree_insert_subset[of k loc kd] by (auto simp: locs_in_def)

lemma locs_in_remove: "locs_in n kd \<Longrightarrow> locs_in n (btree_remove k kd)"
  by (auto simp: locs_in_def btree_remove_def)

lemma locs_in_mono: "locs_in n kd \<Longrightarrow> n \<le> n' \<Longrightarrow> locs_in n' kd"
  by (force simp: locs_in_def)

lemma locs_in_lookup: "locs_in n kd \<Longrightarrow> map_of kd k = Some loc \<Longrightarrow> loc_end loc \<le> n"
  by (auto simp: locs_in_def dest: map_of_SomeD)

lemma live_append: "locs_in (length f) kd \<Longrightarrow> live (f @ g) kd = live f kd"
  by (auto simp: live_def locs_in_def value_at_append)

lemma read_value_at:
  "loc_end loc \<le> length file \<Longrightarrow> read_value loc file = (Ok (value_at file loc), file)"
  by (simp add: read_value_def read_exact_def loc_end_def value_at_def)

lemma bitcask_set_law:
  assumes "bc_invar bc"
  shows "\<exists>bc'. bitcask_set k v bc = (Ok (), bc') \<and> bc_invar bc' \<and>
    bc_abs bc' = btree_insert k v (bc_abs bc)"
proof -
  let ?f = "bc_log bc" and ?e = "encode_entry k (Some v)"
  let ?loc = "\<lparr>loc_offset = length ?f + 8 + length k, loc_length = length v\<rparr>"
  let ?bc = "\<lparr>bc_log = ?f @ ?e, bc_keydir = btree_insert k ?loc (bc_keydir bc)\<rparr>"
  have "bitcask_set k v bc = (Ok (), ?bc)"
    by (simp add: bitcask_set_def sbind_def on_log_def on_keydir_def write_entry_eq)
  moreover have "bc_invar ?bc"
    using assms by (auto simp: bc_invar_def length_encode_entry loc_end_def
        intro!: locs_in_insert intro: locs_in_mono)
  moreover have "bc_abs ?bc = btree_insert k v (bc_abs bc)"
    using assms by (simp add: bc_abs_def live_simps value_at_written bc_invar_def live_append)
  ultimately show ?thesis by blast
qed

lemma bitcask_delete_law:
  assumes "bc_invar bc"
  shows "\<exists>bc'. bitcask_delete k bc = (Ok (), bc') \<and> bc_invar bc' \<and>
    bc_abs bc' = btree_remove k (bc_abs bc)"
proof -
  let ?f = "bc_log bc" and ?e = "encode_entry k None"
  let ?bc = "\<lparr>bc_log = ?f @ ?e, bc_keydir = btree_remove k (bc_keydir bc)\<rparr>"
  have "bitcask_delete k bc = (Ok (), ?bc)"
    by (simp add: bitcask_delete_def sbind_def on_log_def on_keydir_def write_entry_eq)
  moreover have "bc_invar ?bc"
    using assms by (auto simp: bc_invar_def intro!: locs_in_remove intro: locs_in_mono)
  moreover have "bc_abs ?bc = btree_remove k (bc_abs bc)"
    using assms by (simp add: bc_abs_def live_simps bc_invar_def live_append)
  ultimately show ?thesis by blast
qed

lemma bitcask_get_law: "bc_invar bc \<Longrightarrow> bitcask_get k bc = (Ok (map_of (bc_abs bc) k), bc)"
  by (auto simp: bitcask_get_def bc_abs_def map_of_live bc_invar_def sbind_def on_log_def
      sret_def read_value_at locs_in_lookup split: option.splits)

lemma bitcask_scan_law:
  assumes "bc_invar bc"
  shows "bitcask_scan r bc = (rmap (map Ok) (btree_range r (bc_abs bc)), bc)"
proof -
  have "fst (read_value loc (bc_log bc)) = Ok (value_at (bc_log bc) loc)" if "(k, loc) \<in> set (bc_keydir bc)" for k loc
    using that assms read_value_at[of loc "bc_log bc"] by (force simp: bc_invar_def locs_in_def)
  then show ?thesis
    unfolding bitcask_scan_def bc_abs_def btree_range_live
    by (auto simp: btree_range_def live_def)
qed

lemmas bitcask_ops_simps = bitcask_ops_def engine_ops.simps

interpretation bc: engine bitcask_ops bc_invar bc_abs
proof unfold_locales
  fix bc k v r assume bc: "bc_invar bc"
  show "ordered (bc_abs bc)"
    using bc by (simp add: bc_abs_def bc_invar_def)
  show "eng_get bitcask_ops k bc = (Ok (map_of (bc_abs bc) k), bc)"
    using bc by (simp add: bitcask_ops_def bitcask_get_law)
  show "eng_scan bitcask_ops r bc = (rmap (map Ok) (btree_range r (bc_abs bc)), bc)"
    using bc by (simp add: bitcask_ops_def bitcask_scan_law)
  show "\<exists>bc'. eng_set bitcask_ops k v bc = (Ok (), bc') \<and> bc_invar bc' \<and>
      bc_abs bc' = btree_insert k v (bc_abs bc)"
    using bc by (simp add: bitcask_ops_def bitcask_set_law)
  show "\<exists>bc'. eng_delete bitcask_ops k bc = (Ok (), bc') \<and> bc_invar bc' \<and>
      bc_abs bc' = btree_remove k (bc_abs bc)"
    using bc by (simp add: bitcask_ops_def bitcask_delete_law)
  show "\<exists>bc'. eng_flush bitcask_ops bc = (Ok (), bc') \<and> bc_invar bc' \<and> bc_abs bc' = bc_abs bc"
    using bc by (simp add: bitcask_ops_def bitcask_flush_def)
  show "\<exists>st. eng_status bitcask_ops bc = (Ok st, bc)"
    by (simp add: bitcask_ops_def bitcask_status_def Let_def)
qed

section \<open>Recovery\<close>

text \<open>An entry whose lengths fit the length fields of the log format.\<close>

definition entry_fits :: "bytes \<Rightarrow> bytes option \<Rightarrow> bool" where
  "entry_fits key val = (length key < 2 ^ 32 \<and> (case val of Some v \<Rightarrow> length v < 2 ^ 31 | None \<Rightarrow> True))"

lemma u32_from_to_be_bytes [simp]: "u32_from_be_bytes (u32_to_be_bytes x) = x"
proof -
  have "unat x < 2 ^ 32" using unsigned_less[of x, where 'a = nat] by simp
  then show ?thesis by (simp add: u32_from_be_bytes_def u32_to_be_bytes_def)
qed

lemma read_exact_eq_Some:
  "read_exact f pos n = Some x \<longleftrightarrow> pos + n \<le> length f \<and> x = take n (drop pos f)"
  by (auto simp: read_exact_def)

lemma sint_u32_of_nat: "n < 2 ^ 31 \<Longrightarrow> sint (of_nat n :: u32) = int n"
  by (simp add: signed_of_nat signed_take_bit_int_eq_self)

text \<open>The fields of an entry that is read, in terms of the two length words.\<close>

definition entry_loc :: "nat \<Rightarrow> u32 \<Rightarrow> u32 \<Rightarrow> value_location option" where
  "entry_loc offset kl vl = (if sint vl < 0 then None
     else Some \<lparr>loc_offset = offset + 8 + unat kl, loc_length = nat (sint vl)\<rparr>)"

definition entry_end :: "nat \<Rightarrow> u32 \<Rightarrow> u32 \<Rightarrow> nat" where
  "entry_end offset kl vl = offset + 8 + unat kl + nat (sint vl)"

definition len_word :: "bytes \<Rightarrow> nat \<Rightarrow> u32" where
  "len_word f pos = u32_from_be_bytes (take 4 (drop pos f))"

lemma read_entry_eq_Some:
  "read_entry f offset = Some (k, loc, offset') \<longleftrightarrow>
     offset' = entry_end offset (len_word f offset) (len_word f (offset + 4)) \<and>
     offset' \<le> length f \<and> k = take (unat (len_word f offset)) (drop (offset + 8) f) \<and>
     loc = entry_loc offset (len_word f offset) (len_word f (offset + 4))"
  by (auto simp: read_entry_def Let_def bind_eq_Some_conv read_exact_eq_Some entry_loc_def
      entry_end_def loc_end_def len_word_def)

lemma entry_end_ge: "offset + 8 + unat kl \<le> entry_end offset kl vl"
  by (simp add: entry_end_def)

lemma read_entry_append:
  assumes "offset' \<le> length f"
  shows "read_entry (f @ g) offset = Some (k, loc, offset') \<longleftrightarrow>
    read_entry f offset = Some (k, loc, offset')"
proof (cases "offset + 8 \<le> length f")
  case True
  then have "len_word (f @ g) offset = len_word f offset"
    "len_word (f @ g) (offset + 4) = len_word f (offset + 4)"
    by (simp_all add: len_word_def)
  then show ?thesis
    using assms entry_end_ge[of offset "len_word f offset" "len_word f (offset + 4)"]
    unfolding read_entry_eq_Some by auto
next
  case False
  then have "offset' \<noteq> entry_end offset kl vl" for kl vl
    using assms entry_end_ge[of offset kl vl] by linarith
  then show ?thesis by (simp add: read_entry_eq_Some)
qed

lemma read_entry_bounds:
  "read_entry f offset = Some (k, loc, offset') \<Longrightarrow> offset < offset' \<and> offset' \<le> length f \<and>
     (case loc of Some l \<Rightarrow> loc_end l = offset' | None \<Rightarrow> True)"
  by (auto simp: read_entry_eq_Some entry_end_def entry_loc_def loc_end_def split: if_splits)

lemma read_entry_encoded:
  assumes "entry_fits k v"
  shows "read_entry (f @ encode_entry k v) (length f) =
    Some (k, map_option (\<lambda>v. \<lparr>loc_offset = length f + 8 + length k, loc_length = length v\<rparr>) v,
      length f + length (encode_entry k v))"
  using assms unfolding read_entry_eq_Some
  by (cases v) (auto simp: encode_entry_def entry_fits_def entry_loc_def entry_end_def
      len_word_def sint_u32_of_nat unat_of_nat)

lemma read_entry_torn:
  assumes "entry_fits k v" "n < length (encode_entry k v)"
  shows "read_entry (f @ take n (encode_entry k v)) (length f) = None"
proof (rule ccontr)
  let ?e = "encode_entry k v"
  assume "read_entry (f @ take n ?e) (length f) \<noteq> None"
  then obtain k' loc off where r: "read_entry (f @ take n ?e) (length f) = Some (k', loc, off)"
    by auto
  note b = read_entry_bounds[OF r]
  have "read_entry ((f @ take n ?e) @ drop n ?e) (length f) = Some (k', loc, off)"
    using r b by (subst read_entry_append) auto
  then have "off = length f + length ?e"
    using read_entry_encoded[OF assms(1), of f] by (metis append.assoc append_take_drop_id option.inject prod.inject)
  then show False
    using b assms(2) by simp
qed

subsection \<open>The directory rebuilt from a log\<close>

definition keydir_update :: "bytes \<Rightarrow> value_location option \<Rightarrow> keydir \<Rightarrow> keydir" where
  "keydir_update k loc kd = (case loc of Some l \<Rightarrow> btree_insert k l kd | None \<Rightarrow> btree_remove k kd)"

lemma keydir_loop_end: "length f \<le> offset \<Longrightarrow> build_keydir_loop f offset kd = (kd, f)"
  by (simp add: build_keydir_loop.simps[of f])

lemma keydir_loop_None:
  "read_entry f offset = None \<Longrightarrow> build_keydir_loop f offset kd = (kd, take offset f)"
  by (simp add: build_keydir_loop.simps[of f])

lemma keydir_loop_Some:
  assumes "read_entry f offset = Some (k, loc, offset')"
  shows "build_keydir_loop f offset kd = build_keydir_loop f offset' (keydir_update k loc kd)"
  using assms read_entry_bounds[OF assms]
  by (simp add: build_keydir_loop.simps[of f offset] keydir_update_def split: option.splits)

lemma keydir_loop_append:
  assumes "build_keydir_loop f offset kd = (kd', f)" "offset \<le> length f"
  shows "build_keydir_loop (f @ g) offset kd = build_keydir_loop (f @ g) (length f) kd'"
  using assms
proof (induction "length f - offset" arbitrary: offset kd rule: less_induct)
  case less
  show ?case
  proof (cases "read_entry f offset")
    case None
    with less(2,3) have "kd' = kd" "offset = length f"
      by (auto simp: keydir_loop_None dest: arg_cong[of _ _ length])
    then show ?thesis by simp
  next
    case (Some e)
    then obtain k loc off where r: "read_entry f offset = Some (k, loc, off)" by (cases e) auto
    note b = read_entry_bounds[OF r]
    then have "read_entry (f @ g) offset = Some (k, loc, off)"
      using r by (simp add: read_entry_append)
    then show ?thesis
      using less(1)[of off "keydir_update k loc kd"] less(2) b r
      by (simp add: keydir_loop_Some diff_less_mono2)
  qed
qed

lemma keydir_loop_result:
  assumes "build_keydir_loop f offset kd = (kd', f')" "offset \<le> length f"
    and "ordered kd" "locs_in offset kd"
  shows "prefix f' f \<and> offset \<le> length f' \<and> build_keydir_loop f' offset kd = (kd', f') \<and>
    ordered kd' \<and> locs_in (length f') kd'"
  using assms
proof (induction "length f - offset" arbitrary: offset kd rule: less_induct)
  case less
  show ?case
  proof (cases "read_entry f offset")
    case None
    with less show ?thesis
      by (auto simp: keydir_loop_None keydir_loop_end take_is_prefix)
  next
    case (Some e)
    then obtain k loc off where r: "read_entry f offset = Some (k, loc, off)" by (cases e) auto
    note b = read_entry_bounds[OF r]
    let ?kd = "keydir_update k loc kd"
    have kd: "ordered ?kd" "locs_in off ?kd"
      using less(4,5) b by (auto simp: keydir_update_def split: option.splits
          intro!: locs_in_insert locs_in_remove intro: locs_in_mono)
    have "build_keydir_loop f off ?kd = (kd', f')"
      using less(2) keydir_loop_Some[OF r] by simp
    then have IH: "prefix f' f \<and> off \<le> length f' \<and> build_keydir_loop f' off ?kd = (kd', f') \<and>
        ordered kd' \<and> locs_in (length f') kd'"
      using less(1)[of off ?kd] b kd by (simp add: diff_less_mono2)
    then obtain g where "f = f' @ g" by (auto simp: prefix_def)
    then have "read_entry f' offset = Some (k, loc, off)"
      using r IH read_entry_append[of off f' g] by simp
    then show ?thesis using IH b by (simp add: keydir_loop_Some)
  qed
qed

subsection \<open>Reopening a log\<close>

lemma bitcask_new_eq:
  "bitcask_new file = Ok bc \<longleftrightarrow> build_keydir_loop file 0 [] = (bc_keydir bc, bc_log bc)"
  by (cases bc) (auto simp: bitcask_new_def build_keydir_def split: prod.splits)

text \<open>The two writes of the engine as one: a value sets the key, none deletes it.\<close>

definition bitcask_write :: "bytes \<Rightarrow> bytes option \<Rightarrow> (bitcask, unit) action" where
  "bitcask_write k v = (case v of Some v \<Rightarrow> bitcask_set k v | None \<Rightarrow> bitcask_delete k)"

definition written_loc :: "nat \<Rightarrow> bytes \<Rightarrow> bytes option \<Rightarrow> value_location option" where
  "written_loc n k v =
     map_option (\<lambda>v. \<lparr>loc_offset = n + 8 + length k, loc_length = length v\<rparr>) v"

lemma bitcask_write_eq:
  "bitcask_write k v bc = (Ok (), \<lparr>bc_log = bc_log bc @ encode_entry k v,
     bc_keydir = keydir_update k (written_loc (length (bc_log bc)) k v) (bc_keydir bc)\<rparr>)"
  by (cases v) (simp_all add: bitcask_write_def bitcask_set_def bitcask_delete_def sbind_def
      on_log_def on_keydir_def write_entry_eq keydir_update_def written_loc_def)

lemma reopen_written:
  assumes "build_keydir_loop f 0 [] = (kd, f)" "entry_fits k v"
  shows "build_keydir_loop (f @ encode_entry k v) 0 [] =
    (keydir_update k (written_loc (length f) k v) kd, f @ encode_entry k v)"
  using keydir_loop_append[OF assms(1)] keydir_loop_Some[OF read_entry_encoded[OF assms(2), of f]]
  by (simp add: keydir_loop_end written_loc_def)

lemma reopen_torn:
  assumes "build_keydir_loop f 0 [] = (kd, f)" "entry_fits k v" "n < length (encode_entry k v)"
  shows "build_keydir_loop (f @ take n (encode_entry k v)) 0 [] = (kd, f)"
  using keydir_loop_append[OF assms(1)] keydir_loop_None[OF read_entry_torn[OF assms(2,3), of f]]
  by simp

lemma reopen_invar:
  assumes "build_keydir_loop f 0 [] = (kd, f')"
  shows "prefix f' f" "build_keydir_loop f' 0 [] = (kd, f')" "bc_invar \<lparr>bc_log = f', bc_keydir = kd\<rparr>"
  using keydir_loop_result[OF assms] by (simp_all add: bc_invar_def locs_in_def)

subsection \<open>Compaction\<close>

lemma btree_insert_last:
  "\<forall>x\<in>fst ` set m. x < k \<Longrightarrow> btree_insert k v m = m @ [(k, v)]"
  by (induction k v m rule: btree_insert.induct) auto

lemma live_append_keydir: "live f (kd @ kd') = live f kd @ live f kd'"
  by (simp add: live_def)

lemma compact_loop_result:
  assumes "locs_in (length old) kd" "ordered (new @ kd)" "locs_in (length f) new"
  shows "\<exists>kd' f'. compact_loop old kd new f = (Ok kd', f') \<and> ordered kd' \<and> locs_in (length f') kd' \<and>
    live f' kd' = live f new @ live old kd \<and>
    length f' = length f + (\<Sum>(k, v)\<leftarrow>live old kd. 8 + length k + length v) \<and>
    (build_keydir_loop f 0 [] = (new, f) \<longrightarrow> (\<forall>(k, v)\<in>set (live old kd). entry_fits k (Some v)) \<longrightarrow>
       build_keydir_loop f' 0 [] = (kd', f'))"
  using assms
proof (induction old kd new arbitrary: f rule: compact_loop.induct)
  case (1 old new)
  then show ?case by (simp add: sret_def live_def)
next
  case (2 old k loc kd new)
  let ?v = "value_at old loc"
  let ?f = "f @ encode_entry k (Some ?v)"
  let ?loc = "\<lparr>loc_offset = length f + 8 + length k, loc_length = length ?v\<rparr>"
  have loc: "loc_end loc \<le> length old" "locs_in (length old) kd"
    using 2(2) by (auto simp: locs_in_def)
  have new: "btree_insert k ?loc new = new @ [(k, ?loc)]"
    using 2(3) by (intro btree_insert_last) (auto simp: sorted_wrt_append)
  have step: "compact_loop old ((k, loc) # kd) new f = compact_loop old kd (new @ [(k, ?loc)]) ?f"
    using loc new by (simp add: sbind_def slift_def read_value_at write_entry_eq)
  have locs: "locs_in (length ?f) (new @ [(k, ?loc)])"
    using 2(4) by (auto simp: locs_in_def loc_end_def length_encode_entry)
  have live: "live ?f (new @ [(k, ?loc)]) = live f new @ [(k, ?v)]"
    using 2(4) value_at_written[of f k ?v] by (simp add: live_append_keydir live_append) (simp add: live_def)
  have reopen: "build_keydir_loop ?f 0 [] = (new @ [(k, ?loc)], ?f)"
    if "build_keydir_loop f 0 [] = (new, f)" "entry_fits k (Some ?v)"
    using reopen_written[OF that] new by (simp add: keydir_update_def written_loc_def)
  have old: "live old ((k, loc) # kd) = (k, ?v) # live old kd"
    by (simp add: live_def)
  have "ordered ((new @ [(k, ?loc)]) @ kd)"
    using 2(3) by (simp add: sorted_wrt_append)
  from 2(1)[of ?loc ?f, unfolded new, OF loc(2) this locs] obtain kd' f' where IH:
    "compact_loop old kd (new @ [(k, ?loc)]) ?f = (Ok kd', f')" "ordered kd'" "locs_in (length f') kd'"
    "live f' kd' = live ?f (new @ [(k, ?loc)]) @ live old kd"
    "length f' = length ?f + (\<Sum>(k, v)\<leftarrow>live old kd. 8 + length k + length v)"
    "build_keydir_loop ?f 0 [] = (new @ [(k, ?loc)], ?f) \<longrightarrow>
      (\<forall>(k, v)\<in>set (live old kd). entry_fits k (Some v)) \<longrightarrow> build_keydir_loop f' 0 [] = (kd', f')"
    by blast
  show ?case
    unfolding step old
    by (intro exI[of _ kd'] exI[of _ f']) (use IH live reopen in \<open>auto simp: length_encode_entry\<close>)
qed

section \<open>Properties\<close>



text \<open>C4 Crash safety of one write: when the log on disk is the engine's and the process stops
  anywhere inside the next set or delete, reopening the file gives exactly the engine before the
  write, or after it if all its bytes were written. Keys must be shorter than $2^{32}$ bytes and
  values shorter than $2^{31}$, the widths of the length fields.\<close>
theorem bitcask_crash_recovery:
  assumes "bitcask_new (bc_log bc) = Ok bc" and "entry_fits k v"
    and "bitcask_write k v bc = (Ok (), bc')"
    and "length (bc_log bc) \<le> n" and "n \<le> length (bc_log bc')"
  shows "bitcask_new (take n (bc_log bc')) = Ok (if n = length (bc_log bc') then bc' else bc)"
proof -
  let ?e = "encode_entry k v"
  have open': "build_keydir_loop (bc_log bc) 0 [] = (bc_keydir bc, bc_log bc)"
    using assms(1) by (simp add: bitcask_new_eq)
  have bc': "bc_log bc' = bc_log bc @ ?e"
    "bc_keydir bc' = keydir_update k (written_loc (length (bc_log bc)) k v) (bc_keydir bc)"
    using assms(3) by (auto simp: bitcask_write_eq)
  show ?thesis
  proof (cases "n = length (bc_log bc')")
    case True
    then show ?thesis
      using reopen_written[OF open' assms(2)] bc' by (simp add: bitcask_new_eq)
  next
    case False
    then have "n - length (bc_log bc) < length ?e"
      using assms(4,5) bc' by auto
    from reopen_torn[OF open' assms(2) this] False show ?thesis
      using assms(4) bc' by (simp add: bitcask_new_eq)
  qed
qed

theorem bitcask_crash_recovery_witness:
  "bitcask_new (take 9 (bc_log \<lparr>bc_log = encode_entry [1] (Some [2, 3]),
       bc_keydir = [([1], \<lparr>loc_offset = 9, loc_length = 2\<rparr>)]\<rparr>)) =
     Ok (if 9 = length (bc_log \<lparr>bc_log = encode_entry [1] (Some [2, 3]),
       bc_keydir = [([1], \<lparr>loc_offset = 9, loc_length = 2\<rparr>)]\<rparr>)
     then \<lparr>bc_log = encode_entry [1] (Some [2, 3]),
       bc_keydir = [([1], \<lparr>loc_offset = 9, loc_length = 2\<rparr>)]\<rparr>
     else \<lparr>bc_log = [], bc_keydir = []\<rparr>)"
  by (rule bitcask_crash_recovery[of _ "[1]" "Some [2, 3]"])
    (simp_all add: bitcask_new_eq keydir_loop_end entry_fits_def bitcask_write_eq keydir_update_def
      written_loc_def length_encode_entry)

text \<open>C16 Compaction succeeds on every engine that satisfies the invariant and keeps its content; the
  new log holds the live entries and nothing else, so that no garbage is left, and it reopens to
  exactly the compacted engine.\<close>
theorem bitcask_compact_correct:
  assumes "bc_invar bc" and "\<forall>(k, v)\<in>set (bc_abs bc). entry_fits k (Some v)"
  shows "\<exists>bc'. bitcask_compact bc = (Ok (), bc') \<and> bc_invar bc' \<and> bc_abs bc' = bc_abs bc \<and>
    length (bc_log bc') = (\<Sum>(k, v)\<leftarrow>bc_abs bc. 8 + length k + length v) \<and>
    bitcask_new (bc_log bc') = Ok bc'"
proof -
  have "locs_in (length (bc_log bc)) (bc_keydir bc)" "ordered ([] @ bc_keydir bc)" "locs_in (length []) []"
    using assms(1) by (simp_all add: bc_invar_def locs_in_def)
  from compact_loop_result[OF this] obtain kd f where
    "compact_loop (bc_log bc) (bc_keydir bc) [] [] = (Ok kd, f)" "ordered kd" "locs_in (length f) kd"
    "live f kd = bc_abs bc" "length f = (\<Sum>(k, v)\<leftarrow>bc_abs bc. 8 + length k + length v)"
    "build_keydir_loop f 0 [] = (kd, f)"
    using assms(2) by (auto simp: bc_abs_def keydir_loop_end live_def)
  then show ?thesis
    by (intro exI[of _ "\<lparr>bc_log = f, bc_keydir = kd\<rparr>"])
      (simp add: bitcask_compact_def bc_invar_def bc_abs_def bitcask_new_eq)
qed

theorem bitcask_compact_correct_witness:
  "\<exists>bc'. bitcask_compact (snd (bitcask_set [1] [2, 3] (snd (bitcask_set [1] [7] \<lparr>bc_log = [], bc_keydir = []\<rparr>)))) =
       (Ok (), bc') \<and> bc_invar bc' \<and>
     bc_abs bc' = bc_abs (snd (bitcask_set [1] [2, 3] (snd (bitcask_set [1] [7] \<lparr>bc_log = [], bc_keydir = []\<rparr>)))) \<and>
     length (bc_log bc') = (\<Sum>(k, v)\<leftarrow>bc_abs (snd (bitcask_set [1] [2, 3]
       (snd (bitcask_set [1] [7] \<lparr>bc_log = [], bc_keydir = []\<rparr>)))). 8 + length k + length v) \<and>
     bitcask_new (bc_log bc') = Ok bc'"
  by (rule bitcask_compact_correct) code_simp+

end
