(* ===== verification/Bincode.thy ===== *)
theory Bincode
  imports Errors
begin

text \<open>
  The interface to the Bincode crate, behind \<^verbatim>\<open>src/encoding/bincode.rs\<close> and the trait \<^verbatim>\<open>Value\<close> of
  \<^verbatim>\<open>src/encoding/mod.rs\<close>. The crate is not part of the sources: an encoder and decoder for a type is
  a parameter, and what the code relies on is that decoding an encoded value gives the value back.
\<close>

record 'a codec =
  encode :: "'a \<Rightarrow> bytes"
  decode :: "bytes \<Rightarrow> 'a result"

definition codec_ok :: "'a codec \<Rightarrow> bool" where
  "codec_ok c = (\<forall>x. decode c (encode c x) = Ok x)"

lemma codec_okD: "codec_ok c \<Longrightarrow> decode c (encode c x) = Ok x"
  by (simp add: codec_ok_def)

end
