(* ===== verification/Mvcc.thy ===== *)
theory Mvcc
  imports Memory Bincode
begin

text \<open>
  The MVCC layer of \<^verbatim>\<open>src/storage/mvcc.rs\<close>: transactions over any storage engine. The engine is the
  shared state, and each method of \<^verbatim>\<open>MVCC\<close> and \<^verbatim>\<open>Transaction\<close> is an action on it that takes the
  engine's operations and the Bincode codecs as arguments; a transaction is its
  \<^verbatim>\<open>TransactionState\<close>. The mutex around the engine makes every method atomic, and so is each action.
  A \<^verbatim>\<open>BTreeSet\<close> of versions is a finite set. The additions on versions are checked: an overflow
  panics, as it does when overflow checks are on.
\<close>

section \<open>Keys\<close>

datatype mvcc_key =
  NextVersion
| TxnActive u64
| TxnActiveSnapshot u64
| TxnWrite u64 bytes
| Version bytes u64
| Unversioned bytes

text \<open>The derived \<^verbatim>\<open>Serialize\<close> and \<^verbatim>\<open>Deserialize\<close> of the enum: the variant index in declaration
  order, then the fields.\<close>

fun mvcc_key_sval :: "mvcc_key \<Rightarrow> sval" where
  "mvcc_key_sval NextVersion = SUnitVariant 0"
| "mvcc_key_sval (TxnActive v) = SNewtypeVariant 1 (SU64 v)"
| "mvcc_key_sval (TxnActiveSnapshot v) = SNewtypeVariant 2 (SU64 v)"
| "mvcc_key_sval (TxnWrite v k) = STupleVariant 3 [SU64 v, SBytes k]"
| "mvcc_key_sval (Version k v) = STupleVariant 4 [SBytes k, SU64 v]"
| "mvcc_key_sval (Unversioned k) = SNewtypeVariant 5 (SBytes k)"

definition mvcc_key_ty :: sty where
  "mvcc_key_ty = TEnum [VUnit, VNewtype TU64, VNewtype TU64, VTuple [TU64, TBytes],
     VTuple [TBytes, TU64], VNewtype TBytes]"

definition mvcc_key_of_sval :: "sval \<Rightarrow> mvcc_key result" where
  "mvcc_key_of_sval s = (case s of
     SUnitVariant i \<Rightarrow> Ok NextVersion
   | SNewtypeVariant i (SU64 v) \<Rightarrow> Ok (if i = 1 then TxnActive v else TxnActiveSnapshot v)
   | STupleVariant i [SU64 v, SBytes k] \<Rightarrow> Ok (TxnWrite v k)
   | STupleVariant i [SBytes k, SU64 v] \<Rightarrow> Ok (Version k v)
   | SNewtypeVariant i (SBytes k) \<Rightarrow> Ok (Unversioned k)
   | _ \<Rightarrow> Panic ''unreachable'')"

text \<open>\<^verbatim>\<open>Key::encode\<close> and \<^verbatim>\<open>Key::decode\<close> (\<^verbatim>\<open>src/encoding/mod.rs\<close>). Serializing a key never fails
  (lemma \<open>serialize_mvcc_key\<close> below).\<close>

definition encode_sval :: "sval \<Rightarrow> bytes" where
  "encode_sval s = (case serialize s of Ok bs \<Rightarrow> bs | _ \<Rightarrow> [])"

definition encode_key :: "mvcc_key \<Rightarrow> bytes" where
  "encode_key k = encode_sval (mvcc_key_sval k)"

definition decode_key :: "bytes \<Rightarrow> mvcc_key result" where
  "decode_key bs = rbind (deserialize mvcc_key_ty bs) mvcc_key_of_sval"

datatype key_prefix =
  PNextVersion
| PTxnActive
| PTxnActiveSnapshot
| PTxnWrite u64
| PVersion bytes
| PUnversioned

fun key_prefix_sval :: "key_prefix \<Rightarrow> sval" where
  "key_prefix_sval PNextVersion = SUnitVariant 0"
| "key_prefix_sval PTxnActive = SUnitVariant 1"
| "key_prefix_sval PTxnActiveSnapshot = SUnitVariant 2"
| "key_prefix_sval (PTxnWrite v) = SNewtypeVariant 3 (SU64 v)"
| "key_prefix_sval (PVersion k) = SNewtypeVariant 4 (SBytes k)"
| "key_prefix_sval PUnversioned = SUnitVariant 5"

definition encode_prefix :: "key_prefix \<Rightarrow> bytes" where
  "encode_prefix p = encode_sval (key_prefix_sval p)"

section \<open>Transactions\<close>

record transaction_state =
  txn_version :: u64
  read_only :: bool
  active :: "u64 set"

definition is_visible :: "transaction_state \<Rightarrow> u64 \<Rightarrow> bool" where
  "is_visible st version =
     (if version \<in> active st then False
      else if read_only st then version < txn_version st
      else version \<le> txn_version st)"

text \<open>The value types the layer stores with Bincode: versions, sets of versions and optional values
  (\<open>None\<close> is a tombstone).\<close>

record mvcc_codec =
  version_codec :: "u64 codec"
  active_codec :: "u64 set codec"
  value_codec :: "bytes option codec"

definition u64_inc :: "u64 \<Rightarrow> u64 result" where
  "u64_inc v = (if v = u64_max then Panic ''attempt to add with overflow'' else Ok (v + 1))"

fun scan_active_loop :: "(bytes \<times> bytes) result list \<Rightarrow> u64 set \<Rightarrow> u64 set result" where
  "scan_active_loop [] act = Ok act"
| "scan_active_loop (item # scan) act =
     rbind item (\<lambda>(key, _).
     rbind (decode_key key) (\<lambda>k. case k of
       TxnActive version \<Rightarrow> scan_active_loop scan (insert version act)
     | _ \<Rightarrow> errdata ''expected TxnActive key, got ''))"

definition scan_active :: "'e engine_ops \<Rightarrow> ('e, u64 set) action" where
  "scan_active ops =
     sbind (eng_scan_prefix ops (encode_prefix PTxnActive)) (\<lambda>scan.
     slift (scan_active_loop scan {}))"

definition get_next_version :: "'e engine_ops \<Rightarrow> mvcc_codec \<Rightarrow> ('e, u64) action" where
  "get_next_version ops bc =
     sbind (eng_get ops (encode_key NextVersion)) (\<lambda>v.
     slift (case v of Some v \<Rightarrow> decode (version_codec bc) v | None \<Rightarrow> Ok 1))"

definition txn_begin :: "'e engine_ops \<Rightarrow> mvcc_codec \<Rightarrow> ('e, transaction_state) action" where
  "txn_begin ops bc =
     sbind (get_next_version ops bc) (\<lambda>version.
     sbind (slift (u64_inc version)) (\<lambda>version_1.
     sbind (eng_set ops (encode_key NextVersion) (encode (version_codec bc) version_1)) (\<lambda>_.
     sbind (scan_active ops) (\<lambda>act.
     sbind (if act \<noteq> {} then
         eng_set ops (encode_key (TxnActiveSnapshot version)) (encode (active_codec bc) act)
       else sret ()) (\<lambda>_.
     sbind (eng_set ops (encode_key (TxnActive version)) []) (\<lambda>_.
     sret \<lparr>txn_version = version, read_only = False, active = act\<rparr>))))))"

definition txn_begin_read_only ::
    "'e engine_ops \<Rightarrow> mvcc_codec \<Rightarrow> u64 option \<Rightarrow> ('e, transaction_state) action" where
  "txn_begin_read_only ops bc as_of =
     sbind (get_next_version ops bc) (\<lambda>version.
     case as_of of
       Some as_of \<Rightarrow>
         if as_of \<ge> version then slift (errinput ''version does not exist'')
         else
           sbind (eng_get ops (encode_key (TxnActiveSnapshot as_of))) (\<lambda>val.
           sbind (slift (case val of
               Some val \<Rightarrow> decode (active_codec bc) val
             | None \<Rightarrow> Ok {})) (\<lambda>act.
           sret \<lparr>txn_version = as_of, read_only = True, active = act\<rparr>))
     | None \<Rightarrow>
         sbind (scan_active ops) (\<lambda>act.
         sret \<lparr>txn_version = version, read_only = True, active = act\<rparr>))"

definition txn_resume :: "'e engine_ops \<Rightarrow> transaction_state \<Rightarrow> ('e, transaction_state) action" where
  "txn_resume ops s =
     (if \<not> read_only s then
        sbind (eng_get ops (encode_key (TxnActive (txn_version s)))) (\<lambda>val.
        if val = None then slift (errinput ''no active transaction at version '') else sret s)
      else sret s)"

text \<open>Commit removes the write records of the transaction and then its active record.\<close>

definition txn_commit :: "'e engine_ops \<Rightarrow> transaction_state \<Rightarrow> ('e, unit) action" where
  "txn_commit ops st =
     (if read_only st then sret ()
      else
        sbind (eng_scan_prefix ops (encode_prefix (PTxnWrite (txn_version st)))) (\<lambda>scan.
        sbind (slift (try_collect (map (rmap fst) scan))) (\<lambda>remove.
        sbind (sfor (eng_delete ops) remove) (\<lambda>_.
        eng_delete ops (encode_key (TxnActive (txn_version st)))))))"

text \<open>Rollback also removes the versions the transaction wrote; it collects the keys to remove
  first.\<close>

fun rollback_loop :: "u64 \<Rightarrow> (bytes \<times> bytes) result list \<Rightarrow> bytes list \<Rightarrow> bytes list result" where
  "rollback_loop version [] rollback = Ok rollback"
| "rollback_loop version (item # scan) rollback =
     rbind item (\<lambda>(key, _).
     rbind (decode_key key) (\<lambda>k. case k of
       TxnWrite _ user_key \<Rightarrow>
         rollback_loop version scan (rollback @ [encode_key (Version user_key version)] @ [key])
     | _ \<Rightarrow> errdata ''expected TxnWrite, got ''))"

definition txn_rollback :: "'e engine_ops \<Rightarrow> transaction_state \<Rightarrow> ('e, unit) action" where
  "txn_rollback ops st =
     (if read_only st then sret ()
      else
        sbind (eng_scan_prefix ops (encode_prefix (PTxnWrite (txn_version st)))) (\<lambda>scan.
        sbind (slift (rollback_loop (txn_version st) scan [])) (\<lambda>rollback.
        sbind (sfor (eng_delete ops) rollback) (\<lambda>_.
        eng_delete ops (encode_key (TxnActive (txn_version st)))))))"

definition check_conflict :: "transaction_state \<Rightarrow> (bytes \<times> bytes) result list \<Rightarrow> unit result" where
  "check_conflict st scan =
     (if scan = [] then Ok ()
      else rbind (last scan) (\<lambda>(key, _).
        rbind (decode_key key) (\<lambda>k. case k of
          Version _ version \<Rightarrow> if \<not> is_visible st version then Err Serialization else Ok ()
        | _ \<Rightarrow> errdata ''expected Key::Version got '')))"

definition write_version ::
    "'e engine_ops \<Rightarrow> mvcc_codec \<Rightarrow> transaction_state \<Rightarrow> bytes \<Rightarrow> bytes option \<Rightarrow> ('e, unit) action" where
  "write_version ops bc st key val =
     (if read_only st then slift (Err ReadOnly)
      else
        sbind (slift (u64_inc (txn_version st))) (\<lambda>version_1.
        let from = encode_key (Version key (if active st = {} then version_1 else Min (active st)));
            to = encode_key (Version key u64_max)
        in sbind (eng_scan ops (Included from, Included to)) (\<lambda>scan.
        sbind (slift (check_conflict st scan)) (\<lambda>_.
        sbind (eng_set ops (encode_key (TxnWrite (txn_version st) key)) []) (\<lambda>_.
        eng_set ops (encode_key (Version key (txn_version st))) (encode (value_codec bc) val))))))"

definition txn_delete ::
    "'e engine_ops \<Rightarrow> mvcc_codec \<Rightarrow> transaction_state \<Rightarrow> bytes \<Rightarrow> ('e, unit) action" where
  "txn_delete ops bc st key = write_version ops bc st key None"

definition txn_set ::
    "'e engine_ops \<Rightarrow> mvcc_codec \<Rightarrow> transaction_state \<Rightarrow> bytes \<Rightarrow> bytes \<Rightarrow> ('e, unit) action" where
  "txn_set ops bc st key val = write_version ops bc st key (Some val)"

fun get_loop ::
    "mvcc_codec \<Rightarrow> transaction_state \<Rightarrow> (bytes \<times> bytes) result list \<Rightarrow> bytes option result" where
  "get_loop bc st [] = Ok None"
| "get_loop bc st (item # scan) =
     rbind item (\<lambda>(key, val).
     rbind (decode_key key) (\<lambda>k. case k of
       Version _ version \<Rightarrow>
         if is_visible st version then decode (value_codec bc) val else get_loop bc st scan
     | _ \<Rightarrow> errdata ''expected Key::Version got ''))"

definition txn_get ::
    "'e engine_ops \<Rightarrow> mvcc_codec \<Rightarrow> transaction_state \<Rightarrow> bytes \<Rightarrow> ('e, bytes option) action" where
  "txn_get ops bc st key =
     (let from = encode_key (Version key 0); to = encode_key (Version key (txn_version st))
      in sbind (eng_scan ops (Included from, Included to)) (\<lambda>scan.
         slift (get_loop bc st (rev scan))))"

section \<open>Scans\<close>

text \<open>The items of \<^verbatim>\<open>VersionIterator\<close>: the visible versions among the items of an engine scan.\<close>

fun version_iterator ::
    "transaction_state \<Rightarrow> (bytes \<times> bytes) result list \<Rightarrow> (bytes \<times> u64 \<times> bytes) result list" where
  "version_iterator txn [] = []"
| "version_iterator txn (item # inner) =
     (case rbind item (\<lambda>(key, val). rmap (\<lambda>k. (k, val)) (decode_key key)) of
        Ok (Version key version, val) \<Rightarrow>
          if \<not> is_visible txn version then version_iterator txn inner
          else Ok (key, version, val) # version_iterator txn inner
      | Ok _ \<Rightarrow> errdata ''expected Key::Version got '' # version_iterator txn inner
      | Err e \<Rightarrow> Err e # version_iterator txn inner
      | Panic msg \<Rightarrow> Panic msg # version_iterator txn inner)"

record scan_iterator =
  scan_txn :: transaction_state
  buffer :: "(bytes \<times> bytes) list"
  remainder :: "key_range option"

definition scan_iterator_new :: "transaction_state \<Rightarrow> key_range \<Rightarrow> scan_iterator" where
  "scan_iterator_new txn r = \<lparr>scan_txn = txn, buffer = [], remainder = Some r\<rparr>"

definition txn_scan :: "transaction_state \<Rightarrow> key_range \<Rightarrow> scan_iterator" where
  "txn_scan st r =
     (let start = (case fst r of
            Excluded k \<Rightarrow> Excluded (encode_key (Version k u64_max))
          | Included k \<Rightarrow> Included (encode_key (Version k 0))
          | Unbounded \<Rightarrow> Included (encode_key (Version [] 0)));
          end_bound = (case snd r of
            Excluded k \<Rightarrow> Excluded (encode_key (Version k 0))
          | Included k \<Rightarrow> Included (encode_key (Version k u64_max))
          | Unbounded \<Rightarrow> Excluded (encode_prefix PUnversioned))
      in scan_iterator_new st (start, end_bound))"

definition txn_scan_prefix :: "transaction_state \<Rightarrow> bytes \<Rightarrow> scan_iterator" where
  "txn_scan_prefix st pre =
     (let p = encode_prefix (PVersion pre); p = take (length p - 2) p
      in scan_iterator_new st (prefix_range p))"

text \<open>The loop of \<^verbatim>\<open>fill_buffer\<close> over the peekable version iterator: the error or the remaining
  range (none when the iterator is exhausted), and the buffer it leaves. The buffer size is an argument:
  the source uses 2 in tests and 32 otherwise.\<close>

definition BUFFER_SIZE :: nat where
  "BUFFER_SIZE = 32"

text \<open>Whether the peeked item is a later version of the same key, and the range that remains from
  the peeked item on.\<close>

definition peek_same_key :: "bytes \<Rightarrow> (bytes \<times> u64 \<times> bytes) result list \<Rightarrow> bool result" where
  "peek_same_key key iter = (case iter of [] \<Rightarrow> Ok False | item # _ \<Rightarrow> rmap (\<lambda>(next, _, _). next = key) item)"

definition peek_remainder ::
    "bytes bound \<Rightarrow> (bytes \<times> u64 \<times> bytes) result list \<Rightarrow> key_range option result" where
  "peek_remainder range_end iter = (case iter of
     [] \<Rightarrow> Ok None
   | item # _ \<Rightarrow>
       rmap (\<lambda>(next, version, _). Some (Included (encode_key (Version next version)), range_end)) item)"

fun fill_buffer_loop ::
    "nat \<Rightarrow> mvcc_codec \<Rightarrow> bytes bound \<Rightarrow> (bytes \<times> u64 \<times> bytes) result list \<Rightarrow>
     (bytes \<times> bytes) list \<Rightarrow> key_range option result \<times> (bytes \<times> bytes) list" where
  "fill_buffer_loop bufsize bc range_end [] buf = (Ok None, buf)"
| "fill_buffer_loop bufsize bc range_end (item # iter) buf =
     (case rbind item (\<lambda>(key, _, val). rmap (\<lambda>same. (key, val, same)) (peek_same_key key iter)) of
        Err e \<Rightarrow> (Err e, buf)
      | Panic msg \<Rightarrow> (Panic msg, buf)
      | Ok (key, val, same) \<Rightarrow>
          if same then fill_buffer_loop bufsize bc range_end iter buf
          else case decode (value_codec bc) val of
            Err e \<Rightarrow> (Err e, buf)
          | Panic msg \<Rightarrow> (Panic msg, buf)
          | Ok None \<Rightarrow> fill_buffer_loop bufsize bc range_end iter buf
          | Ok (Some v) \<Rightarrow>
              if length (buf @ [(key, v)]) = bufsize
              then (peek_remainder range_end iter, buf @ [(key, v)])
              else fill_buffer_loop bufsize bc range_end iter (buf @ [(key, v)]))"

definition fill_buffer ::
    "'e engine_ops \<Rightarrow> nat \<Rightarrow> mvcc_codec \<Rightarrow> scan_iterator \<Rightarrow> ('e, unit result \<times> scan_iterator) action" where
  "fill_buffer ops bufsize bc it =
     (if length (buffer it) \<ge> bufsize then sret (Ok (), it)
      else case remainder it of
        None \<Rightarrow> sret (Ok (), it)
      | Some r \<Rightarrow>
          sbind (eng_scan ops r) (\<lambda>scan.
          sret (case fill_buffer_loop bufsize bc (snd r) (version_iterator (scan_txn it) scan)
              (buffer it) of
            (Ok rem, buf) \<Rightarrow> (Ok (), it\<lparr>buffer := buf, remainder := rem\<rparr>)
          | (Err e, buf) \<Rightarrow> (Err e, it\<lparr>buffer := buf, remainder := None\<rparr>)
          | (Panic msg, buf) \<Rightarrow> (Panic msg, it\<lparr>buffer := buf, remainder := None\<rparr>))))"

text \<open>\<^verbatim>\<open>next\<close>: the item it yields (\<open>None\<close> at the end) and the iterator after it. The iterator is
  returned also when the call fails.\<close>

definition scan_iterator_next ::
    "'e engine_ops \<Rightarrow> nat \<Rightarrow> mvcc_codec \<Rightarrow> scan_iterator \<Rightarrow>
     ('e, (bytes \<times> bytes) result option \<times> scan_iterator) action" where
  "scan_iterator_next ops bufsize bc it =
     sbind (if buffer it = [] then fill_buffer ops bufsize bc it else sret (Ok (), it)) (\<lambda>(res, it).
     sret (case res of
        Err e \<Rightarrow> (Some (Err e), it)
      | Panic msg \<Rightarrow> (Some (Panic msg), it)
      | Ok _ \<Rightarrow> (case buffer it of
          [] \<Rightarrow> (None, it)
        | x # buf \<Rightarrow> (Some (Ok x), it\<lparr>buffer := buf\<rparr>))))"

section \<open>Unversioned keys and status\<close>

definition get_unversioned :: "'e engine_ops \<Rightarrow> bytes \<Rightarrow> ('e, bytes option) action" where
  "get_unversioned ops key = eng_get ops (encode_key (Unversioned key))"

definition set_unversioned :: "'e engine_ops \<Rightarrow> bytes \<Rightarrow> bytes \<Rightarrow> ('e, unit) action" where
  "set_unversioned ops key val = eng_set ops (encode_key (Unversioned key)) val"

record mvcc_status =
  versions :: u64
  active_txns :: u64
  storage_status :: status

definition mvcc_get_status :: "'e engine_ops \<Rightarrow> mvcc_codec \<Rightarrow> ('e, mvcc_status) action" where
  "mvcc_get_status ops bc =
     sbind (eng_get ops (encode_key NextVersion)) (\<lambda>v.
     sbind (slift (case v of
         Some v \<Rightarrow> rbind (decode (version_codec bc) v) (\<lambda>n.
           if n = 0 then Panic ''attempt to subtract with overflow'' else Ok (n - 1))
       | None \<Rightarrow> Ok 0)) (\<lambda>vers.
     sbind (eng_scan_prefix ops (encode_prefix PTxnActive)) (\<lambda>scan.
     sbind (eng_status ops) (\<lambda>st.
     sret \<lparr>versions = vers, active_txns = of_nat (length scan), storage_status = st\<rparr>))))"

end
