(* ===== verification/Mvcc_Store.thy ===== *)
theory Mvcc_Store
  imports Mvcc
begin

text \<open>
  How the MVCC layer lies in the engine: the encoding of its keys, a store as a map from MVCC keys
  to bytes, and what each of the layer's engine scans finds in a store.
\<close>

section \<open>Keys\<close>

lemma typed_mvcc_key [simp]: "typed (mvcc_key_sval k) mvcc_key_ty"
  by (cases k) (simp_all add: mvcc_key_ty_def)

lemma serialize_mvcc_key: "serialize (mvcc_key_sval k) = Ok (encode_key k)"
  by (simp add: encode_key_def encode_sval_def serialize_typed[OF typed_mvcc_key])

lemma encode_key_bytes: "encode_key k = key_bytes (mvcc_key_sval k)"
  by (simp add: encode_key_def encode_sval_def serialize_typed[OF typed_mvcc_key])

lemma encode_prefix_simps:
  "encode_prefix PTxnActive = [1]"
  "encode_prefix (PTxnWrite v) = 3 # u64_to_be_bytes v"
  "encode_prefix (PVersion k) = 4 # bytes_enc k"
  "encode_prefix PUnversioned = [5]"
  by (simp_all add: encode_prefix_def encode_sval_def serialize_def encode_bytes_eq monad_simps push_def)

lemma mvcc_key_of_sval [simp]: "mvcc_key_of_sval (mvcc_key_sval k) = Ok k"
  by (cases k) (simp_all add: mvcc_key_of_sval_def)

lemma decode_encode_key [simp]: "decode_key (encode_key k) = Ok k"
  by (simp add: decode_key_def encode_key_bytes deserialize_typed[OF typed_mvcc_key])

lemma encode_key_inject [simp]: "encode_key k = encode_key k' \<longleftrightarrow> k = k'"
  by (metis decode_encode_key result.inject(1))

lemma encode_key_less: "encode_key k < encode_key k' \<longleftrightarrow> sval_less (mvcc_key_sval k) (mvcc_key_sval k')"
  unfolding encode_key_bytes by (rule key_bytes_less[OF typed_mvcc_key typed_mvcc_key])

lemma encode_key_le: "encode_key k \<le> encode_key k' \<longleftrightarrow> \<not> encode_key k' < encode_key k"
  by auto

lemma version_key_less:
  "encode_key (Version k v) < encode_key (Version k' v') \<longleftrightarrow> k < k' \<or> k = k' \<and> v < v'"
  by (auto simp: encode_key_less index_less_def)

lemma prefix_txn_active: "prefix (encode_prefix PTxnActive) (encode_key k) \<longleftrightarrow> (\<exists>v. k = TxnActive v)"
  by (cases k) (simp_all add: encode_prefix_simps encode_key_bytes)

lemma prefix_same_length: "length xs = length ys \<Longrightarrow> prefix xs (ys @ zs) \<longleftrightarrow> xs = ys"
  by (metis append_eq_append_conv prefix_def)

lemma prefix_txn_write:
  "prefix (encode_prefix (PTxnWrite v)) (encode_key k) \<longleftrightarrow> (\<exists>key. k = TxnWrite v key)"
  by (cases k) (auto simp: encode_prefix_simps encode_key_bytes prefix_same_length)

text \<open>The engine keys between two versions of a user key are the versions in between.\<close>

lemma range_version:
  "encode_key (Version k a) \<le> encode_key K \<and> encode_key K \<le> encode_key (Version k b) \<longleftrightarrow>
     (\<exists>w. K = Version k w \<and> a \<le> w \<and> w \<le> b)"
  by (cases K) (auto simp: encode_key_le encode_key_less index_less_def not_less)

section \<open>Stores\<close>

definition encode_store :: "(mvcc_key \<times> bytes) list \<Rightarrow> memory" where
  "encode_store L = map (\<lambda>(k, v). (encode_key k, v)) L"

text \<open>A store is an ordered map all of whose keys are encoded MVCC keys; \<open>kv\<close> looks one up.\<close>

definition mvcc_store :: "memory \<Rightarrow> bool" where
  "mvcc_store m = (ordered m \<and> (\<forall>k\<in>fst ` set m. \<exists>K. k = encode_key K))"

definition kv :: "memory \<Rightarrow> mvcc_key \<Rightarrow> bytes option" where
  "kv m K = map_of m (encode_key K)"

lemma mvcc_store_empty [simp]: "mvcc_store []"
  by (simp add: mvcc_store_def)

lemma mvcc_store_insert [simp]: "mvcc_store m \<Longrightarrow> mvcc_store (btree_insert (encode_key K) v m)"
  by (auto simp: mvcc_store_def)

lemma mvcc_store_remove [simp]: "mvcc_store m \<Longrightarrow> mvcc_store (btree_remove k m)"
  by (auto simp: mvcc_store_def btree_remove_def)

lemma mvcc_store_filter [simp]: "mvcc_store m \<Longrightarrow> mvcc_store (filter P m)"
  by (auto simp: mvcc_store_def)

lemma kv_empty [simp]: "kv [] K = None"
  by (simp add: kv_def)

lemma kv_insert [simp]: "kv (btree_insert (encode_key K) v m) = (kv m)(K \<mapsto> v)"
  by (auto simp: kv_def fun_eq_iff)

lemma kv_remove [simp]: "kv (btree_remove (encode_key K) m) = (kv m)(K := None)"
  by (auto simp: kv_def fun_eq_iff)

lemma encode_store_Nil [simp]: "encode_store [] = []"
  by (simp add: encode_store_def)

lemma encode_store_Cons [simp]: "encode_store ((K, v) # L) = (encode_key K, v) # encode_store L"
  by (simp add: encode_store_def)

lemma kv_encode_store [simp]: "kv (encode_store L) K = map_of L K"
  by (induction L) (auto simp: kv_def encode_store_def)

lemma mvcc_storeE:
  assumes "mvcc_store m"
  obtains L where "m = encode_store L" "ordered (encode_store L)" "distinct (map fst L)"
proof -
  have "\<exists>L. m = encode_store L" if "\<forall>k\<in>fst ` set m. \<exists>K. k = encode_key K" for m
    using that
  proof (induction m)
    case (Cons p m)
    then obtain K L where "fst p = encode_key K" "m = encode_store L" by auto
    then have "p # m = encode_store ((K, snd p) # L)" by (cases p) simp
    then show ?case by blast
  qed (auto simp: encode_store_def)
  then obtain L where L: "m = encode_store L" using assms by (auto simp: mvcc_store_def)
  have "map fst (encode_store L) = map encode_key (map fst L)"
    by (simp add: encode_store_def case_prod_unfold comp_def)
  then have "distinct (map fst L)"
    using assms L ordered_distinct[of m] by (metis distinct_map mvcc_store_def)
  then show thesis using that L assms by (auto simp: mvcc_store_def)
qed

lemma filter_encode_store:
  "filter (\<lambda>x. P (fst x)) (encode_store L) = encode_store (filter (\<lambda>x. P (encode_key (fst x))) L)"
  by (induction L) (auto simp: encode_store_def)

lemma dom_kv: "mvcc_store m \<Longrightarrow> dom (kv m) = {K. encode_key K \<in> fst ` set m}"
  by (auto simp: kv_def dom_def map_of_eq_None_iff)

lemma finite_dom_kv: "finite (dom (kv m))"
proof -
  have "encode_key ` dom (kv m) \<subseteq> dom (map_of m)" by (auto simp: kv_def)
  then have "finite (encode_key ` dom (kv m))" using finite_dom_map_of finite_subset by blast
  then show ?thesis by (rule finite_imageD) (simp add: inj_on_def)
qed

lemma store_eqI:
  assumes "mvcc_store m" "mvcc_store m'" "kv m = kv m'"
  shows "m = m'"
proof -
  have "map_of m k = map_of m' k" for k
  proof (cases "\<exists>K. k = encode_key K")
    case True
    then show ?thesis using assms(3) by (auto simp: kv_def fun_eq_iff)
  next
    case False
    then have "k \<notin> fst ` set m" "k \<notin> fst ` set m'"
      using assms(1,2) by (auto simp: mvcc_store_def)
    then show ?thesis by (metis map_of_eq_None_iff)
  qed
  then show ?thesis
    using assms(1,2) by (intro ordered_unique) (auto simp: mvcc_store_def)
qed

section \<open>The engine scans\<close>

definition active_set :: "memory \<Rightarrow> u64 set" where
  "active_set m = {v. kv m (TxnActive v) \<noteq> None}"

lemma scan_active_loop_store:
  "\<forall>x\<in>set L. \<exists>v. fst x = TxnActive v \<Longrightarrow>
     scan_active_loop (map Ok (encode_store L)) act = Ok (act \<union> {v. TxnActive v \<in> fst ` set L})"
  by (induction L arbitrary: act) auto

lemma scan_active_mem:
  assumes "mvcc_store m"
  shows "scan_active memory_ops m = (Ok (active_set m), m)"
proof -
  obtain L where L: "m = encode_store L" "distinct (map fst L)"
    using assms by (elim mvcc_storeE)
  let ?L = "filter (\<lambda>x. prefix (encode_prefix PTxnActive) (encode_key (fst x))) L"
  have "active_set m = {v. TxnActive v \<in> fst ` set ?L}"
    unfolding active_set_def L(1) by (auto simp: prefix_txn_active map_of_eq_None_iff) force
  moreover have "scan_active_loop (map Ok (encode_store ?L)) {} = Ok ({} \<union> {v. TxnActive v \<in> fst ` set ?L})"
    by (rule scan_active_loop_store) (auto simp: prefix_txn_active)
  ultimately show ?thesis
    by (simp add: scan_active_def sbind_def slift_def mem_simps L(1) filter_encode_store)
qed

text \<open>The write records of a transaction, as a scan finds them.\<close>

lemma scan_writes_mem:
  assumes "mvcc_store m"
  obtains ks where "filter (\<lambda>x. prefix (encode_prefix (PTxnWrite v)) (fst x)) m =
      map (\<lambda>(k, b). (encode_key (TxnWrite v k), b)) ks"
    "fst ` set ks = {k. kv m (TxnWrite v k) \<noteq> None}"
proof -
  obtain L where L: "m = encode_store L" "distinct (map fst L)"
    using assms by (elim mvcc_storeE)
  let ?L = "filter (\<lambda>x. prefix (encode_prefix (PTxnWrite v)) (encode_key (fst x))) L"
  have "\<exists>ks. M = map (\<lambda>(k, b). (TxnWrite v k, b)) ks" if "\<forall>x\<in>set M. \<exists>k. fst x = TxnWrite v k"
    for M :: "(mvcc_key \<times> bytes) list"
    using that
  proof (induction M)
    case (Cons x M)
    then obtain k ks where "x # M = map (\<lambda>(k, b). (TxnWrite v k, b)) ((k, snd x) # ks)"
      by (cases x) auto
    then show ?case by (rule exI)
  qed simp
  then obtain ks where ks: "?L = map (\<lambda>(k, b). (TxnWrite v k, b)) ks"
    by (metis (no_types, lifting) mem_Collect_eq prefix_txn_write set_filter)
  have "k \<in> fst ` set ks \<longleftrightarrow> TxnWrite v k \<in> fst ` set ?L" for k
    unfolding ks by force
  also have "\<dots> k \<longleftrightarrow> kv m (TxnWrite v k) \<noteq> None" for k
    unfolding L(1) by (auto simp: prefix_txn_write map_of_eq_None_iff) force
  finally have "fst ` set ks = {k. kv m (TxnWrite v k) \<noteq> None}" by blast
  moreover have "filter (\<lambda>x. prefix (encode_prefix (PTxnWrite v)) (fst x)) m =
      map (\<lambda>(k, b). (encode_key (TxnWrite v k), b)) ks"
    unfolding L(1) filter_encode_store ks by (simp add: encode_store_def case_prod_unfold comp_def)
  ultimately show thesis using that by blast
qed

text \<open>The versions of one user key, in order.\<close>

definition version_items :: "bytes \<Rightarrow> (u64 \<times> bytes) list \<Rightarrow> memory" where
  "version_items k vs = map (\<lambda>(w, b). (encode_key (Version k w), b)) vs"

lemma map_of_version_items: "map_of (version_items k vs) (encode_key (Version k w)) = map_of vs w"
  by (induction vs) (auto simp: version_items_def)

lemma ordered_version_items: "ordered (version_items k vs) \<longleftrightarrow> ordered vs"
  by (induction vs) (auto simp: version_items_def version_key_less)

lemma scan_versions_mem:
  assumes "mvcc_store m"
  obtains vs where
    "filter (\<lambda>x. in_range (Included (encode_key (Version k a)), Included (encode_key (Version k b))) (fst x)) m =
      version_items k vs"
    "ordered vs" "\<And>w. map_of vs w = (if a \<le> w \<and> w \<le> b then kv m (Version k w) else None)"
proof -
  let ?P = "in_range (Included (encode_key (Version k a)), Included (encode_key (Version k b)))"
  have P: "?P (encode_key K) \<longleftrightarrow> (\<exists>w. K = Version k w \<and> a \<le> w \<and> w \<le> b)" for K
    unfolding in_range_def by (simp add: range_version)
  let ?F = "filter (\<lambda>x. ?P (fst x)) m"
  have "\<exists>vs. M = version_items k vs" if "\<forall>x\<in>set M. \<exists>w. fst x = encode_key (Version k w)" for M
    using that
  proof (induction M)
    case (Cons x M)
    then obtain w vs where "x # M = version_items k ((w, snd x) # vs)"
      by (cases x) (auto simp: version_items_def)
    then show ?case by blast
  qed (simp add: version_items_def)
  moreover have "\<forall>x\<in>set ?F. \<exists>w. fst x = encode_key (Version k w)"
    using assms P by (fastforce simp: mvcc_store_def)
  ultimately obtain vs where vs: "?F = version_items k vs" by blast
  have "ordered vs"
    using assms ordered_filter[of m] by (metis mvcc_store_def ordered_version_items vs)
  moreover have "map_of vs w = (if a \<le> w \<and> w \<le> b then kv m (Version k w) else None)" for w
    using map_of_version_items[of k vs w] map_of_filter_key[of ?P m "encode_key (Version k w)"] P
    by (simp add: vs kv_def)
  ultimately show thesis using that vs by blast
qed

end
