(* ===== verification/Mvcc_Txn.thy ===== *)
theory Mvcc_Txn
  imports Mvcc_Store
begin

text \<open>
  The operations of an MVCC transaction on the logical content of a store: versions of keys, active
  transactions and snapshots. Holds the invariant of the layer and, for every operation, its result
  and its effect on a store that satisfies the invariant.
\<close>

section \<open>The logical content of a store\<close>

definition codecs_ok :: "mvcc_codec \<Rightarrow> bool" where
  "codecs_ok bc = (codec_ok (version_codec bc) \<and> codec_ok (active_codec bc) \<and> codec_ok (value_codec bc))"

lemma codecs_okD [simp]:
  assumes "codecs_ok bc"
  shows "decode (version_codec bc) (encode (version_codec bc) v) = Ok v"
    "decode (active_codec bc) (encode (active_codec bc) s) = Ok s"
    "decode (value_codec bc) (encode (value_codec bc) x) = Ok x"
  using assms by (simp_all add: codecs_ok_def codec_ok_def)

text \<open>A stored value, decoded.\<close>

definition stored :: "'a codec \<Rightarrow> memory \<Rightarrow> mvcc_key \<Rightarrow> 'a option" where
  "stored c m K = (case kv m K of
     Some b \<Rightarrow> (case decode c b of Ok x \<Rightarrow> Some x | _ \<Rightarrow> None) | None \<Rightarrow> None)"

definition next_version :: "mvcc_codec \<Rightarrow> memory \<Rightarrow> u64" where
  "next_version bc m = (case stored (version_codec bc) m NextVersion of Some v \<Rightarrow> v | None \<Rightarrow> 1)"

definition snapshot :: "mvcc_codec \<Rightarrow> memory \<Rightarrow> u64 \<Rightarrow> u64 set" where
  "snapshot bc m v =
     (case stored (active_codec bc) m (TxnActiveSnapshot v) of Some s \<Rightarrow> s | None \<Rightarrow> {})"

definition written :: "mvcc_codec \<Rightarrow> memory \<Rightarrow> bytes \<Rightarrow> u64 \<Rightarrow> bytes option option" where
  "written bc m k w = stored (value_codec bc) m (Version k w)"

text \<open>What a transaction reads at a key: the value at the latest visible version.\<close>

definition visible_versions :: "transaction_state \<Rightarrow> (u64 \<Rightarrow> 'a option) \<Rightarrow> u64 set" where
  "visible_versions st vs = {w. vs w \<noteq> None \<and> is_visible st w}"

definition latest_visible :: "transaction_state \<Rightarrow> (u64 \<Rightarrow> bytes option option) \<Rightarrow> bytes option" where
  "latest_visible st vs =
     (if visible_versions st vs = {} then None else the (vs (Max (visible_versions st vs))))"

definition txn_reads :: "mvcc_codec \<Rightarrow> transaction_state \<Rightarrow> memory \<Rightarrow> bytes \<Rightarrow> bytes option" where
  "txn_reads bc st m k = latest_visible st (written bc m k)"

section \<open>The invariant\<close>

text \<open>Every stored value decodes; every version, active record and snapshot is below the next
  version; write records are kept exactly for the uncommitted versions; the snapshots record who was
  active (a transaction that is still active, or was at a later snapshot, is in every snapshot in
  between); and no version of a key was active when a later version of it was written.\<close>

definition decodable :: "mvcc_codec \<Rightarrow> memory \<Rightarrow> bool" where
  "decodable bc m \<longleftrightarrow>
     (kv m NextVersion \<noteq> None \<longrightarrow> stored (version_codec bc) m NextVersion \<noteq> None) \<and>
     (\<forall>v. kv m (TxnActiveSnapshot v) \<noteq> None \<longrightarrow> stored (active_codec bc) m (TxnActiveSnapshot v) \<noteq> None) \<and>
     (\<forall>k w. kv m (Version k w) \<noteq> None \<longrightarrow> written bc m k w \<noteq> None)"

definition versions_below :: "mvcc_codec \<Rightarrow> memory \<Rightarrow> bool" where
  "versions_below bc m \<longleftrightarrow> 1 \<le> next_version bc m \<and>
     (\<forall>v\<in>active_set m. 1 \<le> v \<and> v < next_version bc m) \<and>
     (\<forall>k w. written bc m k w \<noteq> None \<longrightarrow> 1 \<le> w \<and> w < next_version bc m) \<and>
     (\<forall>v a. a \<in> snapshot bc m v \<longrightarrow> a < v \<and> v < next_version bc m)"

definition write_records :: "mvcc_codec \<Rightarrow> memory \<Rightarrow> bool" where
  "write_records bc m \<longleftrightarrow> (\<forall>v k. kv m (TxnWrite v k) \<noteq> None \<longleftrightarrow> v \<in> active_set m \<and> written bc m k v \<noteq> None)"

definition snapshots_ok :: "mvcc_codec \<Rightarrow> memory \<Rightarrow> bool" where
  "snapshots_ok bc m \<longleftrightarrow>
     (\<forall>a b. a \<in> active_set m \<and> a < b \<and> b < next_version bc m \<longrightarrow> a \<in> snapshot bc m b) \<and>
     (\<forall>a b c. a \<in> snapshot bc m c \<and> a < b \<and> b < c \<longrightarrow> a \<in> snapshot bc m b)"

definition no_conflict :: "mvcc_codec \<Rightarrow> memory \<Rightarrow> bool" where
  "no_conflict bc m \<longleftrightarrow>
     (\<forall>k a b. written bc m k a \<noteq> None \<and> written bc m k b \<noteq> None \<and> a < b \<longrightarrow> a \<notin> snapshot bc m b)"

definition mvcc_inv :: "mvcc_codec \<Rightarrow> memory \<Rightarrow> bool" where
  "mvcc_inv bc m \<longleftrightarrow> mvcc_store m \<and> decodable bc m \<and> versions_below bc m \<and> write_records bc m \<and>
     snapshots_ok bc m \<and> no_conflict bc m"

lemmas mvcc_inv_defs = mvcc_inv_def decodable_def versions_below_def write_records_def
  snapshots_ok_def no_conflict_def

lemma mvcc_invD:
  assumes "mvcc_inv bc m"
  shows "mvcc_store m" "decodable bc m" "versions_below bc m" "write_records bc m"
    "snapshots_ok bc m" "no_conflict bc m"
  using assms by (simp_all add: mvcc_inv_def)

text \<open>An open transaction: it began at or before the next version, everything active below it is in
  its active set, and a read-write transaction is active and its active set is its snapshot.\<close>

definition txn_ok :: "mvcc_codec \<Rightarrow> memory \<Rightarrow> transaction_state \<Rightarrow> bool" where
  "txn_ok bc m st \<longleftrightarrow> txn_version st \<le> next_version bc m \<and> active st \<subseteq> {..<txn_version st} \<and>
     (\<forall>a\<in>active_set m. a < txn_version st \<longrightarrow> a \<in> active st) \<and>
     (\<not> read_only st \<longrightarrow> txn_version st \<in> active_set m \<and> active st = snapshot bc m (txn_version st))"

lemma stored_insert [simp]:
  "stored c (btree_insert (encode_key K) b m) K' =
     (if K' = K then (case decode c b of Ok x \<Rightarrow> Some x | _ \<Rightarrow> None) else stored c m K')"
  by (simp add: stored_def)

lemma stored_remove [simp]:
  "stored c (btree_remove (encode_key K) m) K' = (if K' = K then None else stored c m K')"
  by (simp add: stored_def)

lemma active_set_insert [simp]:
  "active_set (btree_insert (encode_key K) b m) = (case K of TxnActive v \<Rightarrow> insert v (active_set m) | _ \<Rightarrow> active_set m)"
  by (auto simp: active_set_def split: mvcc_key.split)

lemma active_set_remove [simp]:
  "active_set (btree_remove (encode_key K) m) = (case K of TxnActive v \<Rightarrow> active_set m - {v} | _ \<Rightarrow> active_set m)"
  by (auto simp: active_set_def split: mvcc_key.split)

lemma mvcc_inv_empty: "mvcc_inv bc []"
  by (simp add: mvcc_inv_defs stored_def next_version_def snapshot_def written_def active_set_def)

section \<open>Beginning a transaction\<close>

lemma map_of_kv [mem_simps]: "map_of m (encode_key K) = kv m K"
  by (simp add: kv_def)

lemma stored_Some: "kv m K = Some b \<Longrightarrow> stored c m K = Some x \<longleftrightarrow> decode c b = Ok x"
  by (auto simp: stored_def split: result.splits)

lemma stored_None [simp]: "kv m K = None \<Longrightarrow> stored c m K = None"
  by (simp add: stored_def)

lemma get_next_version_mem:
  assumes "decodable bc m"
  shows "get_next_version memory_ops bc m = (Ok (next_version bc m), m)"
proof (cases "kv m NextVersion")
  case (Some b)
  then obtain v where "stored (version_codec bc) m NextVersion = Some v"
    using assms by (auto simp: decodable_def)
  moreover from this Some have "decode (version_codec bc) b = Ok v"
    by (simp add: stored_Some)
  ultimately show ?thesis using Some
    by (simp add: get_next_version_def sbind_def slift_def mem_simps next_version_def)
qed (simp add: get_next_version_def sbind_def slift_def mem_simps next_version_def)

lemma u64_inc_Ok: "u64_inc v = Ok w \<longleftrightarrow> v \<noteq> u64_max \<and> w = v + 1"
  by (auto simp: u64_inc_def)

definition begin_store :: "mvcc_codec \<Rightarrow> memory \<Rightarrow> memory" where
  "begin_store bc m =
     (let v = next_version bc m; act = active_set m;
          m1 = btree_insert (encode_key NextVersion) (encode (version_codec bc) (v + 1)) m;
          m2 = (if act \<noteq> {} then btree_insert (encode_key (TxnActiveSnapshot v)) (encode (active_codec bc) act) m1
                else m1)
      in btree_insert (encode_key (TxnActive v)) [] m2)"

lemma begin_mem:
  assumes "mvcc_inv bc m" "next_version bc m \<noteq> u64_max"
  shows "txn_begin memory_ops bc m =
    (Ok \<lparr>txn_version = next_version bc m, read_only = False, active = active_set m\<rparr>, begin_store bc m)"
  using assms mvcc_invD[OF assms(1)]
  by (simp add: txn_begin_def sbind_def sret_def slift_def get_next_version_mem u64_inc_def mem_simps
      scan_active_mem begin_store_def Let_def)

lemma begin_store_simps:
  assumes "codecs_ok bc"
  shows "next_version bc (begin_store bc m) = next_version bc m + 1"
    "active_set (begin_store bc m) = insert (next_version bc m) (active_set m)"
    "written bc (begin_store bc m) = written bc m"
    "kv (begin_store bc m) (TxnWrite v k) = kv m (TxnWrite v k)"
    "active_set m \<noteq> {} \<or> snapshot bc m (next_version bc m) = {} \<Longrightarrow>
      snapshot bc (begin_store bc m) = (snapshot bc m)(next_version bc m := active_set m)"
  using assms
  by (auto simp: begin_store_def Let_def next_version_def written_def snapshot_def fun_eq_iff)

lemma unat_u64_succ: "v \<noteq> u64_max \<Longrightarrow> unat (v + 1) = unat v + 1"
proof -
  assume "v \<noteq> u64_max"
  then have "unat v \<noteq> unat u64_max" by (simp add: word_unat_eq_iff)
  moreover have "unat u64_max = 2 ^ 64 - 1" by (simp add: unsigned_minus_1_eq_mask mask_eq_exp_minus_1)
  ultimately have "unat v + 1 < 2 ^ 64" using unat_u64_less[of v] by linarith
  then show ?thesis by (simp add: unat_word_ariths)
qed

lemma u64_less_succ: "v \<noteq> u64_max \<Longrightarrow> (a :: u64) < v + 1 \<longleftrightarrow> a \<le> v"
  by (simp add: word_less_nat_alt word_le_nat_alt unat_u64_succ less_Suc_eq_le)

lemma begin_decodable: "codecs_ok bc \<Longrightarrow> decodable bc m \<Longrightarrow> decodable bc (begin_store bc m)"
  by (simp add: decodable_def begin_store_def Let_def written_def)

lemma begin_versions_below:
  assumes "codecs_ok bc" "versions_below bc m" "next_version bc m \<noteq> u64_max"
  shows "versions_below bc (begin_store bc m)"
proof -
  let ?n = "next_version bc m"
  have snap: "snapshot bc (begin_store bc m) = (snapshot bc m)(?n := active_set m)"
    using assms(2) by (intro begin_store_simps(5)[OF assms(1)]) (auto simp: versions_below_def)
  have "1 \<le> ?n + 1"
    using assms(2) u64_less_succ[OF assms(3), of ?n] by (auto simp: versions_below_def)
  then show ?thesis
    using assms(2)
    by (simp add: versions_below_def begin_store_simps[OF assms(1)] snap u64_less_succ[OF assms(3)])
      (metis less_imp_le)
qed

lemma begin_inv:
  assumes "codecs_ok bc" "mvcc_inv bc m" "next_version bc m \<noteq> u64_max"
  shows "mvcc_inv bc (begin_store bc m)"
proof -
  let ?n = "next_version bc m" and ?m = "begin_store bc m"
  note inv = mvcc_invD[OF assms(2)]
  have snap: "snapshot bc ?m = (snapshot bc m)(?n := active_set m)"
    using inv(3) by (intro begin_store_simps(5)[OF assms(1)]) (auto simp: versions_below_def)
  note s = begin_store_simps(1-4)[OF assms(1)] snap u64_less_succ[OF assms(3)]
  have none: "written bc m k ?n = None" for k
    using inv(3) by (metis less_irrefl versions_below_def)
  have snap_below: "c < ?n" if "a \<in> snapshot bc m c" for a c
    using inv(3) that by (simp add: versions_below_def)
  have "mvcc_store ?m" using inv(1) by (simp add: begin_store_def Let_def)
  moreover have "decodable bc ?m" using inv(2) assms(1) by (rule begin_decodable[rotated])
  moreover have "versions_below bc ?m" using assms inv(3) by (intro begin_versions_below)
  moreover have "write_records bc ?m"
    using inv(4) none unfolding write_records_def s by auto
  moreover have "snapshots_ok bc ?m"
    unfolding snapshots_ok_def s
  proof (intro conjI allI impI)
    fix a b assume "a \<in> insert ?n (active_set m) \<and> a < b \<and> b \<le> ?n"
    then show "a \<in> ((snapshot bc m)(?n := active_set m)) b"
      using inv(5) by (cases "b = ?n") (auto simp: snapshots_ok_def)
  next
    fix a b c assume *: "a \<in> ((snapshot bc m)(?n := active_set m)) c \<and> a < b \<and> b < c"
    then have "b \<noteq> ?n" using snap_below[of a c] by (cases "c = ?n") auto
    then show "a \<in> ((snapshot bc m)(?n := active_set m)) b"
      using * inv(5) by (cases "c = ?n") (simp_all add: snapshots_ok_def, blast+)
  qed
  moreover have "no_conflict bc ?m"
    using inv(6) none unfolding no_conflict_def s by auto
  ultimately show ?thesis by (simp add: mvcc_inv_def)
qed

lemma begin_txn_ok:
  assumes "codecs_ok bc" "mvcc_inv bc m" "next_version bc m \<noteq> u64_max"
  shows "txn_ok bc (begin_store bc m)
    \<lparr>txn_version = next_version bc m, read_only = False, active = active_set m\<rparr>"
proof -
  note inv = mvcc_invD[OF assms(2)]
  have "snapshot bc (begin_store bc m) = (snapshot bc m)(next_version bc m := active_set m)"
    using inv(3) by (intro begin_store_simps(5)[OF assms(1)]) (auto simp: versions_below_def)
  then show ?thesis
    using inv(3) u64_less_succ[OF assms(3), of "next_version bc m"]
    by (auto simp: txn_ok_def begin_store_simps[OF assms(1)] versions_below_def)
qed

lemma snapshot_get:
  assumes "decodable bc m"
  shows "(case kv m (TxnActiveSnapshot v) of Some val \<Rightarrow> decode (active_codec bc) val | None \<Rightarrow> Ok {}) =
    Ok (snapshot bc m v)"
proof (cases "kv m (TxnActiveSnapshot v)")
  case (Some b)
  then obtain s where "stored (active_codec bc) m (TxnActiveSnapshot v) = Some s"
    using assms by (fastforce simp: decodable_def)
  moreover from this Some have "decode (active_codec bc) b = Ok s"
    by (simp add: stored_Some)
  ultimately show ?thesis using Some by (simp add: snapshot_def)
qed (simp add: snapshot_def)

lemma begin_read_only_mem:
  assumes "mvcc_inv bc m"
  shows "txn_begin_read_only memory_ops bc None m =
      (Ok \<lparr>txn_version = next_version bc m, read_only = True, active = active_set m\<rparr>, m)"
    "txn_begin_read_only memory_ops bc (Some v) m =
      (if v < next_version bc m
       then Ok \<lparr>txn_version = v, read_only = True, active = snapshot bc m v\<rparr>
       else errinput ''version does not exist'', m)"
  using mvcc_invD[OF assms]
  by (simp_all add: txn_begin_read_only_def sbind_def sret_def slift_def get_next_version_mem mem_simps
      scan_active_mem snapshot_get not_less not_le)

lemma begin_read_only_txn_ok:
  assumes "mvcc_inv bc m"
  shows "txn_ok bc m \<lparr>txn_version = next_version bc m, read_only = True, active = active_set m\<rparr>"
    "v < next_version bc m \<Longrightarrow> txn_ok bc m \<lparr>txn_version = v, read_only = True, active = snapshot bc m v\<rparr>"
proof -
  note inv = mvcc_invD(3,5)[OF assms]
  show "txn_ok bc m \<lparr>txn_version = next_version bc m, read_only = True, active = active_set m\<rparr>"
    using inv(1) by (auto simp: txn_ok_def versions_below_def)
  assume v: "v < next_version bc m"
  have "snapshot bc m v \<subseteq> {..<v}"
    using inv(1) by (auto simp: versions_below_def)
  moreover have "\<forall>a\<in>active_set m. a < v \<longrightarrow> a \<in> snapshot bc m v"
    using inv(2) v unfolding snapshots_ok_def by blast
  ultimately show "txn_ok bc m \<lparr>txn_version = v, read_only = True, active = snapshot bc m v\<rparr>"
    using v by (simp add: txn_ok_def)
qed

section \<open>Reading\<close>

lemma latest_visible_max:
  assumes "vs w = Some x" "is_visible st w" "\<And>w'. vs w' \<noteq> None \<Longrightarrow> is_visible st w' \<Longrightarrow> w' \<le> w"
  shows "latest_visible st vs = x"
proof -
  have w: "w \<in> visible_versions st vs" using assms(1,2) by (simp add: visible_versions_def)
  moreover have "Max (visible_versions st vs) = w"
    using w assms(3) by (intro Max_eqI) (simp_all add: visible_versions_def)
  ultimately show ?thesis using assms(1) by (auto simp: latest_visible_def)
qed

lemma latest_visible_None:
  "(\<And>w. vs w \<noteq> None \<Longrightarrow> \<not> is_visible st w) \<Longrightarrow> latest_visible st vs = None"
  by (auto simp: latest_visible_def visible_versions_def)

lemma latest_visible_cong:
  assumes "\<And>w. is_visible st w \<Longrightarrow> vs w = vs' w"
  shows "latest_visible st vs = latest_visible st vs'"
proof -
  have eq: "visible_versions st vs = visible_versions st vs'"
    using assms by (auto simp: visible_versions_def)
  have "vs (Max (visible_versions st vs')) = vs' (Max (visible_versions st vs'))"
    if "visible_versions st vs' \<noteq> {}"
    using Max_in[of "visible_versions st vs'"] that by (intro assms) (simp add: visible_versions_def)
  then show ?thesis using eq by (simp add: latest_visible_def)
qed

definition decoded :: "mvcc_codec \<Rightarrow> (u64 \<times> bytes) list \<Rightarrow> u64 \<Rightarrow> bytes option option" where
  "decoded bc vs w = (case map_of vs w of
     Some b \<Rightarrow> (case decode (value_codec bc) b of Ok x \<Rightarrow> Some x | _ \<Rightarrow> None) | None \<Rightarrow> None)"

lemma get_loop_latest:
  assumes "ordered vs" "\<forall>b\<in>snd ` set vs. \<exists>x. decode (value_codec bc) b = Ok x"
  shows "get_loop bc st (rev (map Ok (version_items k vs))) = Ok (latest_visible st (decoded bc vs))"
  using assms
proof (induction vs rule: rev_induct)
  case Nil
  have "latest_visible st (decoded bc []) = None" by (rule latest_visible_None) (simp add: decoded_def)
  then show ?case by (simp add: version_items_def)
next
  case (snoc p vs)
  obtain w b where p: "p = (w, b)" by fastforce
  obtain x where x: "decode (value_codec bc) b = Ok x" using snoc(3) p by auto
  have below: "w' < w" if "map_of vs w' = Some b'" for w' b'
    using that snoc(2) p by (force simp: sorted_wrt_append dest: map_of_SomeD)
  then have notin: "map_of vs w = None" by fastforce
  have dec: "decoded bc (vs @ [p]) = (decoded bc vs)(w \<mapsto> x)"
    using notin by (auto simp: decoded_def p x fun_eq_iff map_add_def split: option.splits)
  show ?case
  proof (cases "is_visible st w")
    case True
    have "latest_visible st (decoded bc (vs @ [p])) = x"
      unfolding dec by (rule latest_visible_max[OF _ True])
        (auto simp: decoded_def below less_imp_le split: option.splits if_splits)
    then show ?thesis using True by (simp add: version_items_def p x)
  next
    case False
    have "latest_visible st (decoded bc (vs @ [p])) = latest_visible st (decoded bc vs)"
      unfolding dec using False by (intro latest_visible_cong) auto
    then show ?thesis
      using False snoc by (simp add: version_items_def p sorted_wrt_append)
  qed
qed

lemma is_visible_le: "is_visible st w \<Longrightarrow> w \<le> txn_version st"
  by (auto simp: is_visible_def split: if_splits)

lemma version_key_le [simp]: "encode_key (Version k a) \<le> encode_key (Version k b) \<longleftrightarrow> a \<le> b"
  by (auto simp: encode_key_le version_key_less)

lemma get_mem:
  assumes "mvcc_store m" "decodable bc m"
  shows "txn_get memory_ops bc st k m = (Ok (txn_reads bc st m k), m)"
proof -
  obtain vs where vs:
    "filter (\<lambda>x. in_range (Included (encode_key (Version k 0)), Included (encode_key (Version k (txn_version st)))) (fst x)) m =
      version_items k vs" "ordered vs"
    "\<And>w. map_of vs w = (if 0 \<le> w \<and> w \<le> txn_version st then kv m (Version k w) else None)"
    using scan_versions_mem[OF assms(1)] by metis
  have "\<forall>b\<in>snd ` set vs. \<exists>x. decode (value_codec bc) b = Ok x"
  proof (intro ballI)
    fix b assume "b \<in> snd ` set vs"
    then obtain w where "map_of vs w = Some b"
      using ordered_map_of_iff[OF vs(2)] by fastforce
    then have "kv m (Version k w) = Some b" by (simp add: vs(3) split: if_splits)
    moreover from this assms(2) obtain x where "stored (value_codec bc) m (Version k w) = Some x"
      unfolding decodable_def written_def by blast
    ultimately show "\<exists>x. decode (value_codec bc) b = Ok x" by (auto simp: stored_Some)
  qed
  note loop = get_loop_latest[OF vs(2) this, where st = st and k = k]
  have "latest_visible st (decoded bc vs) = txn_reads bc st m k"
    unfolding txn_reads_def using is_visible_le[of st]
    by (intro latest_visible_cong) (simp add: decoded_def vs(3) written_def stored_def)
  then show ?thesis
    using loop by (simp add: txn_get_def Let_def sbind_def slift_def mem_simps btree_range_def vs(1))
qed

section \<open>Writing\<close>

definition conflicts :: "mvcc_codec \<Rightarrow> memory \<Rightarrow> transaction_state \<Rightarrow> bytes \<Rightarrow> bool" where
  "conflicts bc m st k \<longleftrightarrow> (\<exists>w. written bc m k w \<noteq> None \<and> \<not> is_visible st w)"

definition write_store :: "mvcc_codec \<Rightarrow> transaction_state \<Rightarrow> bytes \<Rightarrow> bytes option \<Rightarrow> memory \<Rightarrow> memory" where
  "write_store bc st k val m =
     btree_insert (encode_key (Version k (txn_version st))) (encode (value_codec bc) val)
       (btree_insert (encode_key (TxnWrite (txn_version st) k)) [] m)"

lemma written_kv: "decodable bc m \<Longrightarrow> written bc m k w \<noteq> None \<longleftrightarrow> kv m (Version k w) \<noteq> None"
  by (metis decodable_def stored_None written_def)

text \<open>Looking at the latest version is enough: an older invisible version would have been active
  when the latest was written.\<close>

lemma latest_decides_conflict:
  assumes inv: "mvcc_inv bc m" and ok: "txn_ok bc m st" and rw: "\<not> read_only st"
    and l: "written bc m k l \<noteq> None" "is_visible st l"
    and max: "\<And>w. written bc m k w \<noteq> None \<Longrightarrow> \<not> is_visible st w \<Longrightarrow> w \<le> l"
  shows "\<not> conflicts bc m st k"
proof
  assume "conflicts bc m st k"
  then obtain w where w: "written bc m k w \<noteq> None" "\<not> is_visible st w"
    by (auto simp: conflicts_def)
  have "w < l" using max[OF w] w(2) l(2) by (auto simp: less_le)
  moreover have "l \<le> txn_version st" using l(2) by (rule is_visible_le)
  ultimately have "w \<in> snapshot bc m (txn_version st)"
    using w(2) ok rw by (auto simp: is_visible_def txn_ok_def split: if_splits)
  moreover from this \<open>w < l\<close> \<open>l \<le> txn_version st\<close> have "w \<in> snapshot bc m l"
    using mvcc_invD(5)[OF inv] by (metis order_le_imp_less_or_eq snapshots_ok_def)
  ultimately show False
    using mvcc_invD(6)[OF inv] w(1) l(1) \<open>w < l\<close> by (auto simp: no_conflict_def)
qed

definition conflict_from :: "transaction_state \<Rightarrow> u64" where
  "conflict_from st = (if active st = {} then txn_version st + 1 else Min (active st))"

lemma invisible_from:
  assumes "\<not> is_visible st w" "\<not> read_only st" "txn_version st \<noteq> u64_max" "active st \<subseteq> {..<txn_version st}"
  shows "conflict_from st \<le> w"
proof (cases "w \<in> active st")
  case True
  then show ?thesis by (auto simp: conflict_from_def)
next
  case False
  then have w: "txn_version st < w" using assms(1,2) by (simp add: is_visible_def split: if_splits)
  show ?thesis
  proof (cases "active st = {}")
    case True
    then show ?thesis
      using w u64_less_succ[OF assms(3), of w] by (auto simp: conflict_from_def)
  next
    case False
    then have "Min (active st) < txn_version st" using assms(4) Min_in[of "active st"] by (simp add: subset_iff)
    then show ?thesis using w False by (simp add: conflict_from_def)
  qed
qed

lemma check_conflict_last:
  "check_conflict st (map Ok (version_items k vs)) =
     (if vs = [] \<or> is_visible st (fst (last vs)) then Ok () else Err Serialization)"
  by (cases vs rule: rev_cases) (auto simp: check_conflict_def version_items_def)

lemma ordered_last: "ordered vs \<Longrightarrow> (w, b) \<in> set vs \<Longrightarrow> w \<le> fst (last vs)"
  by (cases vs rule: rev_cases) (auto simp: sorted_wrt_append intro: less_imp_le)

lemma txn_version_bound:
  "mvcc_inv bc m \<Longrightarrow> txn_ok bc m st \<Longrightarrow> \<not> read_only st \<Longrightarrow> txn_version st < next_version bc m"
  using mvcc_invD(3)[of bc m] by (auto simp: txn_ok_def versions_below_def)

lemma write_mem:
  assumes inv: "mvcc_inv bc m" and ok: "txn_ok bc m st" and rw: "\<not> read_only st"
  shows "write_version memory_ops bc st k val m =
    (if conflicts bc m st k then (Err Serialization, m) else (Ok (), write_store bc st k val m))"
proof -
  have v: "txn_version st \<noteq> u64_max" "active st \<subseteq> {..<txn_version st}"
    using txn_version_bound[OF assms] ok by (auto simp: txn_ok_def)
  obtain vs where vs:
    "filter (\<lambda>x. in_range (Included (encode_key (Version k (conflict_from st))), Included (encode_key (Version k u64_max))) (fst x)) m =
      version_items k vs" "ordered vs"
    "\<And>w. map_of vs w = (if conflict_from st \<le> w \<and> w \<le> u64_max then kv m (Version k w) else None)"
    using scan_versions_mem[OF mvcc_invD(1)[OF inv]] by metis
  have mem: "(\<exists>b. (w, b) \<in> set vs) \<longleftrightarrow> conflict_from st \<le> w \<and> written bc m k w \<noteq> None" for w
  proof -
    have "(\<exists>b. (w, b) \<in> set vs) \<longleftrightarrow> map_of vs w \<noteq> None"
      by (metis ordered_map_of_iff[OF vs(2)] not_Some_eq)
    then show ?thesis using vs(3)[of w] written_kv[OF mvcc_invD(2)[OF inv], of k w] by simp
  qed
  have below: "w \<le> fst (last vs)" "vs \<noteq> []" if "written bc m k w \<noteq> None" "\<not> is_visible st w" for w
    using mem[of w] invisible_from[OF that(2) rw v] that ordered_last[OF vs(2)] by auto
  have "conflicts bc m st k \<longleftrightarrow> \<not> (vs = [] \<or> is_visible st (fst (last vs)))"
  proof (cases "vs = []")
    case True
    then show ?thesis using below(2) unfolding conflicts_def by blast
  next
    case False
    then have l: "written bc m k (fst (last vs)) \<noteq> None"
      using mem[of "fst (last vs)"] last_in_set[OF False] by (metis prod.collapse)
    show ?thesis
    proof (cases "is_visible st (fst (last vs))")
      case True
      then show ?thesis using latest_decides_conflict[OF assms l True] below(1) by blast
    next
      case invisible: False
      then show ?thesis using l False unfolding conflicts_def by blast
    qed
  qed
  moreover have "write_version memory_ops bc st k val m =
      (case check_conflict st (map Ok (version_items k vs)) of
         Ok _ \<Rightarrow> (Ok (), write_store bc st k val m) | Err e \<Rightarrow> (Err e, m) | Panic msg \<Rightarrow> (Panic msg, m))"
    using rw v(1) by (simp add: write_version_def Let_def sbind_def slift_def u64_inc_def mem_simps
        btree_range_def vs(1)[unfolded conflict_from_def] write_store_def split: result.splits)
  ultimately show ?thesis by (simp add: check_conflict_last)
qed

lemma write_store_simps:
  assumes "codecs_ok bc"
  shows "next_version bc (write_store bc st k val m) = next_version bc m"
    "active_set (write_store bc st k val m) = active_set m"
    "snapshot bc (write_store bc st k val m) = snapshot bc m"
    "written bc (write_store bc st k val m) k' w =
      (if k' = k \<and> w = txn_version st then Some val else written bc m k' w)"
    "kv (write_store bc st k val m) (TxnWrite v k') =
      (if v = txn_version st \<and> k' = k then Some [] else kv m (TxnWrite v k'))"
  using assms by (auto simp: write_store_def next_version_def snapshot_def written_def fun_eq_iff)

lemma write_inv:
  assumes bc: "codecs_ok bc" and inv: "mvcc_inv bc m" and ok: "txn_ok bc m st" and rw: "\<not> read_only st"
    and nc: "\<not> conflicts bc m st k"
  shows "mvcc_inv bc (write_store bc st k val m)"
proof -
  let ?m = "write_store bc st k val m" and ?v = "txn_version st"
  note i = mvcc_invD[OF inv] and s = write_store_simps[OF bc]
  have v: "?v \<in> active_set m" "active st = snapshot bc m ?v" using ok rw by (auto simp: txn_ok_def)
  have vis: "w \<notin> snapshot bc m ?v \<and> w \<le> ?v" if "written bc m k w \<noteq> None" for w
  proof -
    have "is_visible st w" using nc that unfolding conflicts_def by blast
    then show ?thesis using rw v(2) by (simp add: is_visible_def split: if_splits)
  qed
  have "mvcc_store ?m" using i(1) by (simp add: write_store_def)
  moreover have "decodable bc ?m"
    using i(2) bc by (auto simp: decodable_def write_store_def written_def)
  moreover have "versions_below bc ?m"
    using i(3) v(1) unfolding versions_below_def s by auto
  moreover have "write_records bc ?m"
    using i(4) v(1) unfolding write_records_def s by auto
  moreover have "snapshots_ok bc ?m"
    using i(5) unfolding snapshots_ok_def s .
  moreover have "no_conflict bc ?m"
    unfolding no_conflict_def s
  proof (intro allI impI, elim conjE)
    fix k' a b
    assume *: "(if k' = k \<and> a = ?v then Some val else written bc m k' a) \<noteq> None"
      "(if k' = k \<and> b = ?v then Some val else written bc m k' b) \<noteq> None" "a < b"
    show "a \<notin> snapshot bc m b"
    proof (cases "k' = k \<and> (a = ?v \<or> b = ?v)")
      case True
      then show ?thesis using * vis[of a] vis[of b] by (auto split: if_splits)
    next
      case False
      then show ?thesis using * i(6) unfolding no_conflict_def by (auto split: if_splits)
    qed
  qed
  ultimately show ?thesis by (simp add: mvcc_inv_def)
qed

section \<open>Commit and rollback\<close>

fun commit_removes :: "u64 \<Rightarrow> mvcc_key \<Rightarrow> bool" where
  "commit_removes v (TxnActive w) = (w = v)"
| "commit_removes v (TxnWrite w _) = (w = v)"
| "commit_removes v _ = False"

fun rollback_removes :: "u64 \<Rightarrow> mvcc_key \<Rightarrow> bool" where
  "rollback_removes v (Version _ w) = (w = v)"
| "rollback_removes v K = commit_removes v K"

lemma delete_all_mem:
  "sfor (eng_delete memory_ops) ks m = (Ok (), fold btree_remove ks m)"
  by (induction ks arbitrary: m) (simp_all add: sret_def sbind_def mem_simps)

lemma mvcc_store_removes: "mvcc_store m \<Longrightarrow> mvcc_store (fold btree_remove ks m)"
  by (induction ks arbitrary: m) simp_all

lemma kv_removes: "kv (fold btree_remove (map encode_key Ks) m) = (\<lambda>K. if K \<in> set Ks then None else kv m K)"
  by (induction Ks arbitrary: m) (auto simp: fun_eq_iff)

lemma commit_mem:
  assumes "mvcc_store m" "\<not> read_only st"
  shows "\<exists>m'. txn_commit memory_ops st m = (Ok (), m') \<and> mvcc_store m' \<and>
    kv m' = (\<lambda>K. if commit_removes (txn_version st) K then None else kv m K)"
proof -
  let ?v = "txn_version st"
  obtain ks where ks: "filter (\<lambda>x. prefix (encode_prefix (PTxnWrite ?v)) (fst x)) m =
      map (\<lambda>(k, b). (encode_key (TxnWrite ?v k), b)) ks"
    "fst ` set ks = {k. kv m (TxnWrite ?v k) \<noteq> None}"
    using assms(1) by (rule scan_writes_mem)
  let ?Ks = "map (TxnWrite ?v \<circ> fst) ks"
  let ?m = "btree_remove (encode_key (TxnActive ?v)) (fold btree_remove (map encode_key ?Ks) m)"
  have "try_collect (map (rmap fst) (map Ok (map (\<lambda>(k, b). (encode_key (TxnWrite ?v k), b)) ks))) = Ok (map encode_key ?Ks)"
    by (induction ks) auto
  then have run: "txn_commit memory_ops st m = (Ok (), ?m)"
    using assms(2) by (simp add: txn_commit_def sbind_def slift_def mem_simps ks(1) delete_all_mem
        del: map_map)
  have "kv ?m K = (if commit_removes ?v K then None else kv m K)" for K
    using ks(2) unfolding kv_remove kv_removes
    by (cases K) (auto simp: image_iff set_eq_iff)
  then show ?thesis using run assms(1) by (auto simp: mvcc_store_removes)
qed

lemma rollback_loop_writes:
  "rollback_loop v (map Ok (map (\<lambda>(k, b). (encode_key (TxnWrite v k), b)) ks)) acc =
     Ok (acc @ map encode_key (concat (map (\<lambda>(k, _). [Version k v, TxnWrite v k]) ks)))"
  by (induction ks arbitrary: acc) auto

lemma rollback_mem:
  assumes "mvcc_inv bc m" "txn_ok bc m st" "\<not> read_only st"
  shows "\<exists>m'. txn_rollback memory_ops st m = (Ok (), m') \<and> mvcc_store m' \<and>
    kv m' = (\<lambda>K. if rollback_removes (txn_version st) K then None else kv m K)"
proof -
  let ?v = "txn_version st"
  note inv = mvcc_invD[OF assms(1)]
  obtain ks where ks: "filter (\<lambda>x. prefix (encode_prefix (PTxnWrite ?v)) (fst x)) m =
      map (\<lambda>(k, b). (encode_key (TxnWrite ?v k), b)) ks"
    "fst ` set ks = {k. kv m (TxnWrite ?v k) \<noteq> None}"
    using inv(1) by (rule scan_writes_mem)
  let ?Ks = "concat (map (\<lambda>(k, _). [Version k ?v, TxnWrite ?v k]) ks)"
  let ?m = "btree_remove (encode_key (TxnActive ?v)) (fold btree_remove (map encode_key ?Ks) m)"
  have run: "txn_rollback memory_ops st m = (Ok (), ?m)"
    using assms(3) by (simp add: txn_rollback_def sbind_def slift_def mem_simps ks(1) delete_all_mem
        rollback_loop_writes del: map_map)
  have "kv m (Version k ?v) \<noteq> None \<longleftrightarrow> kv m (TxnWrite ?v k) \<noteq> None" for k
    using inv(4) assms(2,3) written_kv[OF inv(2)] by (simp add: write_records_def txn_ok_def)
  then have vers: "k \<in> fst ` set ks \<longleftrightarrow> kv m (Version k ?v) \<noteq> None" for k
    using ks(2) by auto
  have Ks: "K \<in> set ?Ks \<longleftrightarrow> (\<exists>k\<in>fst ` set ks. K = Version k ?v \<or> K = TxnWrite ?v k)" for K
    by (auto simp: case_prod_unfold image_iff)
  have none: "kv m (Version k ?v) = None \<and> kv m (TxnWrite ?v k) = None" if "k \<notin> fst ` set ks" for k
    using that vers[of k] ks(2) by blast
  have "kv ?m K = (if rollback_removes ?v K then None else kv m K)" for K
  proof (cases K)
    case (TxnWrite w k)
    then show ?thesis unfolding kv_remove kv_removes Ks using none[of k] by (cases "w = ?v") auto
  next
    case (Version k w)
    then show ?thesis unfolding kv_remove kv_removes Ks using none[of k] by (cases "w = ?v") auto
  qed (auto simp: kv_remove kv_removes Ks)
  then show ?thesis using run inv(1) by (auto simp: mvcc_store_removes)
qed

text \<open>A store from which the keys of one active transaction are removed.\<close>

lemma stored_removed:
  "kv m' = (\<lambda>K. if R K then None else kv m K) \<Longrightarrow> stored c m' K = (if R K then None else stored c m K)"
  by (simp add: stored_def)

lemma removed_simps:
  assumes "kv m' = (\<lambda>K. if R K then None else kv m K)" "R = commit_removes v \<or> R = rollback_removes v"
  shows "next_version bc m' = next_version bc m" "snapshot bc m' = snapshot bc m"
    "active_set m' = active_set m - {v}"
    "written bc m' k w = (if R (Version k w) then None else written bc m k w)"
    "kv m' (TxnWrite w k) = (if w = v then None else kv m (TxnWrite w k))"
  using assms by (auto simp: next_version_def snapshot_def written_def active_set_def
      stored_removed[OF assms(1)] fun_eq_iff)

lemma removed_inv:
  assumes inv: "mvcc_inv bc m" and v: "v \<in> active_set m" and "mvcc_store m'"
    and kv: "kv m' = (\<lambda>K. if R K then None else kv m K)"
    and R: "R = commit_removes v \<or> R = rollback_removes v"
  shows "mvcc_inv bc m'"
proof -
  note i = mvcc_invD[OF inv] and s = removed_simps[OF kv R]
  have RV: "R (Version k w) \<Longrightarrow> w = v" for k w using R by auto
  have "decodable bc m'"
    using i(2) unfolding decodable_def written_def stored_removed[OF kv] kv by auto
  moreover have "versions_below bc m'"
    using i(3) unfolding versions_below_def s by (auto split: if_splits)
  moreover have "write_records bc m'"
    using i(4) RV unfolding write_records_def s by auto
  moreover have "snapshots_ok bc m'"
    using i(5) unfolding snapshots_ok_def s by blast
  moreover have "no_conflict bc m'"
    using i(6) unfolding no_conflict_def s by (auto split: if_splits)
  ultimately show ?thesis using assms(3) by (simp add: mvcc_inv_def)
qed

section \<open>Other transactions are not disturbed\<close>

text \<open>A transaction keeps its view of a store: the versions it sees are the same, and it is still an
  open transaction.\<close>

definition same_view :: "mvcc_codec \<Rightarrow> transaction_state \<Rightarrow> memory \<Rightarrow> memory \<Rightarrow> bool" where
  "same_view bc st m m' \<longleftrightarrow> (\<forall>k w. is_visible st w \<longrightarrow> written bc m' k w = written bc m k w)"

lemma same_view_refl [simp]: "same_view bc st m m"
  by (simp add: same_view_def)

lemma same_view_trans: "same_view bc st m m' \<Longrightarrow> same_view bc st m' m'' \<Longrightarrow> same_view bc st m m''"
  by (simp add: same_view_def)

lemma same_view_reads: "same_view bc st m m' \<Longrightarrow> txn_reads bc st m' = txn_reads bc st m"
  unfolding txn_reads_def fun_eq_iff same_view_def by (intro allI latest_visible_cong) simp

lemma active_invisible:
  "txn_ok bc m st \<Longrightarrow> v \<in> active_set m \<Longrightarrow> (\<not> read_only st \<Longrightarrow> v \<noteq> txn_version st) \<Longrightarrow> \<not> is_visible st v"
  by (auto simp: is_visible_def txn_ok_def split: if_splits)

lemma begin_other:
  assumes "codecs_ok bc" "mvcc_inv bc m" "next_version bc m \<noteq> u64_max" "txn_ok bc m st"
  shows "txn_ok bc (begin_store bc m) st" "same_view bc st m (begin_store bc m)"
proof -
  note inv = mvcc_invD[OF assms(2)]
  have snap: "snapshot bc (begin_store bc m) = (snapshot bc m)(next_version bc m := active_set m)"
    using inv(3) by (intro begin_store_simps(5)[OF assms(1)]) (auto simp: versions_below_def)
  have "txn_version st \<le> next_version bc m + 1"
    using assms(4) u64_less_succ[OF assms(3), of "txn_version st"] by (simp add: txn_ok_def)
  moreover have "txn_version st < next_version bc m" if "\<not> read_only st"
    using txn_version_bound[OF assms(2,4) that] .
  ultimately show "txn_ok bc (begin_store bc m) st"
    using assms(4) by (auto simp: txn_ok_def begin_store_simps[OF assms(1)] snap)
  show "same_view bc st m (begin_store bc m)"
    by (simp add: same_view_def begin_store_simps[OF assms(1)])
qed

lemma write_other:
  assumes "codecs_ok bc" "txn_ok bc m st" "txn_ok bc m st'" "\<not> read_only st'"
    "\<not> read_only st \<Longrightarrow> txn_version st \<noteq> txn_version st'"
  shows "txn_ok bc (write_store bc st' k val m) st" "same_view bc st m (write_store bc st' k val m)"
proof -
  show "txn_ok bc (write_store bc st' k val m) st"
    using assms(2) by (simp add: txn_ok_def write_store_simps[OF assms(1)])
  have "\<not> is_visible st (txn_version st')"
    using assms(3-5) by (intro active_invisible[OF assms(2)]) (auto simp: txn_ok_def)
  then show "same_view bc st m (write_store bc st' k val m)"
    by (auto simp: same_view_def write_store_simps[OF assms(1)])
qed

lemma write_self:
  assumes "codecs_ok bc" "txn_ok bc m st"
  shows "txn_ok bc (write_store bc st k val m) st"
  using assms(2) by (simp add: txn_ok_def write_store_simps[OF assms(1)])

lemma removed_other:
  assumes "txn_ok bc m st" "v \<in> active_set m" "\<not> read_only st \<Longrightarrow> txn_version st \<noteq> v"
    and kv: "kv m' = (\<lambda>K. if R K then None else kv m K)"
    and R: "R = commit_removes v \<or> R = rollback_removes v"
  shows "txn_ok bc m' st" "same_view bc st m m'"
proof -
  show "txn_ok bc m' st"
    using assms(1,3) by (auto simp: txn_ok_def removed_simps[OF kv R])
  have "\<not> is_visible st v"
    using assms(2,3) by (intro active_invisible[OF assms(1)]) auto
  moreover have "R (Version k w) \<Longrightarrow> w = v" for k w using R by auto
  ultimately show "same_view bc st m m'"
    by (auto simp: same_view_def removed_simps[OF kv R])
qed

end
