(* ===== verification/Mvcc_Isolation.thy ===== *)
theory Mvcc_Isolation
  imports Mvcc_Txn
begin

text \<open>
  Transactions interleaved on one shared engine: a step relation over the engine and the set of open
  transactions, the invariant of all its runs, and what a transaction can observe of the others.
\<close>

section \<open>Any engine\<close>

text \<open>Every operation of the layer only uses the engine's methods, so on any engine that satisfies the
  contract it behaves as on the ordered map.\<close>

context engine
begin

lemma sim_scan_active [sim_intros]: "sim invar abst (scan_active ops) (scan_active memory_ops)"
  unfolding scan_active_def by (intro sim_intros)

lemma sim_get_next_version [sim_intros]:
  "sim invar abst (get_next_version ops bc) (get_next_version memory_ops bc)"
  unfolding get_next_version_def by (intro sim_intros)

lemma sim_begin: "sim invar abst (txn_begin ops bc) (txn_begin memory_ops bc)"
  unfolding txn_begin_def by (intro sim_intros)

lemma sim_begin_read_only:
  "sim invar abst (txn_begin_read_only ops bc as_of) (txn_begin_read_only memory_ops bc as_of)"
  unfolding txn_begin_read_only_def by (intro sim_intros)

lemma sim_resume: "sim invar abst (txn_resume ops st) (txn_resume memory_ops st)"
  unfolding txn_resume_def by (intro sim_intros)

lemma sim_commit: "sim invar abst (txn_commit ops st) (txn_commit memory_ops st)"
  unfolding txn_commit_def by (intro sim_intros)

lemma sim_rollback: "sim invar abst (txn_rollback ops st) (txn_rollback memory_ops st)"
  unfolding txn_rollback_def by (intro sim_intros)

lemma sim_write: "sim invar abst (write_version ops bc st k val) (write_version memory_ops bc st k val)"
  unfolding write_version_def Let_def by (intro sim_intros)

lemma sim_txn_get: "sim invar abst (txn_get ops bc st k) (txn_get memory_ops bc st k)"
  unfolding txn_get_def Let_def by (intro sim_intros)

lemma sim_fill_buffer [sim_intros]:
  "sim invar abst (fill_buffer ops n bc it) (fill_buffer memory_ops n bc it)"
  unfolding fill_buffer_def by (intro sim_intros)

lemma sim_scan_next: "sim invar abst (scan_iterator_next ops n bc it) (scan_iterator_next memory_ops n bc it)"
  unfolding scan_iterator_next_def by (intro sim_intros)

lemma sim_get_unversioned: "sim invar abst (get_unversioned ops k) (get_unversioned memory_ops k)"
  unfolding get_unversioned_def by (intro sim_intros)

lemma sim_set_unversioned: "sim invar abst (set_unversioned ops k v) (set_unversioned memory_ops k v)"
  unfolding set_unversioned_def by (intro sim_intros)

end

section \<open>Transactions interleaved\<close>

datatype mvcc_event =
  EvBegin
| EvBeginReadOnly "u64 option"
| EvGet transaction_state bytes
| EvWrite transaction_state bytes "bytes option"
| EvCommit transaction_state
| EvRollback transaction_state
| EvSetUnversioned bytes bytes

fun actor :: "mvcc_event \<Rightarrow> transaction_state option" where
  "actor (EvWrite st _ _) = Some st"
| "actor (EvCommit st) = Some st"
| "actor (EvRollback st) = Some st"
| "actor _ = None"

definition opened :: "transaction_state result \<Rightarrow> transaction_state set \<Rightarrow> transaction_state set" where
  "opened r T = (case r of Ok st \<Rightarrow> insert st T | _ \<Rightarrow> T)"

text \<open>One operation on the shared engine, with the set of open transactions. Every operation may run
  at any time, for any open transaction, and may return any result it can return.\<close>

inductive mvcc_step :: "'e engine_ops \<Rightarrow> mvcc_codec \<Rightarrow> 'e \<times> transaction_state set \<Rightarrow> mvcc_event \<Rightarrow>
    'e \<times> transaction_state set \<Rightarrow> bool" for ops bc where
  Begin: "txn_begin ops bc e = (r, e') \<Longrightarrow> mvcc_step ops bc (e, T) EvBegin (e', opened r T)"
| BeginReadOnly: "txn_begin_read_only ops bc as_of e = (r, e') \<Longrightarrow>
    mvcc_step ops bc (e, T) (EvBeginReadOnly as_of) (e', opened r T)"
| Get: "st \<in> T \<Longrightarrow> txn_get ops bc st k e = (r, e') \<Longrightarrow> mvcc_step ops bc (e, T) (EvGet st k) (e', T)"
| Write: "st \<in> T \<Longrightarrow> write_version ops bc st k val e = (r, e') \<Longrightarrow>
    mvcc_step ops bc (e, T) (EvWrite st k val) (e', T)"
| Commit: "st \<in> T \<Longrightarrow> txn_commit ops st e = (r, e') \<Longrightarrow>
    mvcc_step ops bc (e, T) (EvCommit st) (e', T - {st})"
| Rollback: "st \<in> T \<Longrightarrow> txn_rollback ops st e = (r, e') \<Longrightarrow>
    mvcc_step ops bc (e, T) (EvRollback st) (e', T - {st})"
| SetUnversioned: "set_unversioned ops k v e = (r, e') \<Longrightarrow>
    mvcc_step ops bc (e, T) (EvSetUnversioned k v) (e', T)"

inductive_cases mvcc_stepE: "mvcc_step ops bc (e, T) ev (e', T')"

inductive mvcc_run :: "'e engine_ops \<Rightarrow> mvcc_codec \<Rightarrow> 'e \<times> transaction_state set \<Rightarrow> mvcc_event list \<Rightarrow>
    'e \<times> transaction_state set \<Rightarrow> bool" for ops bc where
  Nil: "mvcc_run ops bc c [] c"
| Snoc: "mvcc_run ops bc c evs c' \<Longrightarrow> mvcc_step ops bc c' ev c'' \<Longrightarrow> mvcc_run ops bc c (evs @ [ev]) c''"

definition sys_inv :: "mvcc_codec \<Rightarrow> memory \<times> transaction_state set \<Rightarrow> bool" where
  "sys_inv bc c \<longleftrightarrow> mvcc_inv bc (fst c) \<and> (\<forall>st\<in>snd c. txn_ok bc (fst c) st)"

lemma txn_ok_unique:
  "txn_ok bc m st \<Longrightarrow> txn_ok bc m st' \<Longrightarrow> \<not> read_only st \<Longrightarrow> \<not> read_only st' \<Longrightarrow>
     txn_version st = txn_version st' \<Longrightarrow> st = st'"
  by (simp add: txn_ok_def)

lemma unversioned_simps:
  "next_version bc (btree_insert (encode_key (Unversioned k)) v m) = next_version bc m"
  "active_set (btree_insert (encode_key (Unversioned k)) v m) = active_set m"
  "snapshot bc (btree_insert (encode_key (Unversioned k)) v m) = snapshot bc m"
  "written bc (btree_insert (encode_key (Unversioned k)) v m) = written bc m"
  by (simp_all add: next_version_def snapshot_def written_def fun_eq_iff)

lemma unversioned_inv:
  "mvcc_inv bc m \<Longrightarrow> mvcc_inv bc (btree_insert (encode_key (Unversioned k)) v m)"
  "txn_ok bc (btree_insert (encode_key (Unversioned k)) v m) st = txn_ok bc m st"
  "same_view bc st m (btree_insert (encode_key (Unversioned k)) v m)"
proof -
  let ?m = "btree_insert (encode_key (Unversioned k)) v m"
  have "versions_below bc ?m = versions_below bc m" "snapshots_ok bc ?m = snapshots_ok bc m"
    "no_conflict bc ?m = no_conflict bc m"
    by (simp_all only: versions_below_def snapshots_ok_def no_conflict_def unversioned_simps)
  moreover have "write_records bc ?m = write_records bc m" "decodable bc ?m = decodable bc m"
    by (simp_all add: write_records_def decodable_def written_def)
  ultimately show "mvcc_inv bc m \<Longrightarrow> mvcc_inv bc ?m"
    by (simp add: mvcc_inv_def)
qed (simp_all add: txn_ok_def same_view_def unversioned_simps)

lemma write_read_only: "read_only st \<Longrightarrow> write_version ops bc st k val e = (Err ReadOnly, e)"
  by (simp add: write_version_def slift_def)

text \<open>What a step leaves alone: the versions a given transaction sees, the snapshots of versions that
  exist, and the order of version numbers. The transaction is one that is open and does not act, or
  any read-only one.\<close>

definition preserves :: "mvcc_codec \<Rightarrow> transaction_state \<Rightarrow> memory \<Rightarrow> memory \<Rightarrow> bool" where
  "preserves bc st m m' \<longleftrightarrow> txn_ok bc m' st \<and> same_view bc st m m'"

definition keeps_history :: "mvcc_codec \<Rightarrow> memory \<Rightarrow> memory \<Rightarrow> bool" where
  "keeps_history bc m m' \<longleftrightarrow> next_version bc m \<le> next_version bc m' \<and>
     (\<forall>v<next_version bc m. snapshot bc m' v = snapshot bc m v)"

lemma keeps_history_refl [simp]: "keeps_history bc m m"
  by (simp add: keeps_history_def)

lemma keeps_history_trans: "keeps_history bc m m' \<Longrightarrow> keeps_history bc m' m'' \<Longrightarrow> keeps_history bc m m''"
  unfolding keeps_history_def by (metis order_trans less_le_trans)

definition bystander :: "transaction_state set \<Rightarrow> mvcc_event \<Rightarrow> transaction_state \<Rightarrow> bool" where
  "bystander T ev st \<longleftrightarrow> read_only st \<or> st \<in> T \<and> actor ev \<noteq> Some st"

lemma begin_keeps_history:
  assumes "codecs_ok bc" "versions_below bc m" "next_version bc m \<noteq> u64_max"
  shows "keeps_history bc m (begin_store bc m)"
proof -
  have "snapshot bc (begin_store bc m) = (snapshot bc m)(next_version bc m := active_set m)"
    using assms(2) by (intro begin_store_simps(5)[OF assms(1)]) (auto simp: versions_below_def)
  then show ?thesis
    using u64_less_succ[OF assms(3), of "next_version bc m"]
    by (auto simp: keeps_history_def begin_store_simps[OF assms(1)])
qed

lemma ended_step:
  assumes bc: "codecs_ok bc" and i: "mvcc_inv bc m" and ok: "\<forall>st\<in>T. txn_ok bc m st"
    and st: "st \<in> T" "\<not> read_only st" and m': "mvcc_store m'" "kv m' = (\<lambda>K. if R K then None else kv m K)"
      "R = commit_removes (txn_version st) \<or> R = rollback_removes (txn_version st)"
  shows "mvcc_inv bc m'" "keeps_history bc m m'"
    "txn_ok bc m st' \<Longrightarrow> read_only st' \<or> st' \<in> T \<and> st' \<noteq> st \<Longrightarrow> preserves bc st' m m'"
proof -
  have v: "txn_version st \<in> active_set m" using ok st by (simp add: txn_ok_def)
  show "mvcc_inv bc m'" by (rule removed_inv[OF i v m'])
  show "keeps_history bc m m'" by (simp add: keeps_history_def removed_simps[OF m'(2,3)])
  assume st': "txn_ok bc m st'" "read_only st' \<or> st' \<in> T \<and> st' \<noteq> st"
  then have "\<not> read_only st' \<Longrightarrow> txn_version st' \<noteq> txn_version st"
    using txn_ok_unique[of bc m st' st] ok st by blast
  then show "preserves bc st' m m'"
    using removed_other[OF st'(1) v _ m'(2,3)] by (simp add: preserves_def)
qed

lemma write_step:
  assumes bc: "codecs_ok bc" and i: "mvcc_inv bc m" and ok: "\<forall>st\<in>T. txn_ok bc m st" and st: "st \<in> T"
    and w: "write_version memory_ops bc st k val m = (r, m')"
  shows "mvcc_inv bc m'" "keeps_history bc m m'" "txn_ok bc m' st"
    "txn_ok bc m st' \<Longrightarrow> read_only st' \<or> st' \<in> T \<and> st' \<noteq> st \<Longrightarrow> preserves bc st' m m'"
proof -
  have ok': "txn_ok bc m st" using ok st by simp
  consider (same) "m' = m"
    | (wrote) "\<not> read_only st" "\<not> conflicts bc m st k" "m' = write_store bc st k val m"
  proof (cases "read_only st \<or> conflicts bc m st k")
    case True
    then have "m' = m"
      using w write_mem[OF i ok', of k val] write_read_only[of st memory_ops bc k val m]
      by (cases "read_only st") simp_all
    then show ?thesis by (rule same)
  next
    case False
    then show ?thesis using w write_mem[OF i ok', of k val] by (intro wrote) simp_all
  qed
  then have "mvcc_inv bc m' \<and> keeps_history bc m m' \<and> txn_ok bc m' st \<and>
    (txn_ok bc m st' \<longrightarrow> read_only st' \<or> st' \<in> T \<and> st' \<noteq> st \<longrightarrow> preserves bc st' m m')"
  proof cases
    case same
    then show ?thesis using i ok' by (simp add: preserves_def)
  next
    case wrote
    have "preserves bc st' m m'" if st': "txn_ok bc m st'" "read_only st' \<or> st' \<in> T \<and> st' \<noteq> st"
    proof -
      have "txn_version st' \<noteq> txn_version st" if "\<not> read_only st'"
        using txn_ok_unique[OF st'(1) ok'] st'(2) that wrote(1) by blast
      then show ?thesis
        using write_other[OF bc st'(1) ok' wrote(1), of k val] wrote(3) by (simp add: preserves_def)
    qed
    moreover have "keeps_history bc m m'"
      by (simp add: wrote(3) keeps_history_def write_store_simps[OF bc])
    ultimately show ?thesis
      using write_inv[OF bc i ok' wrote(1,2), of val] write_self[OF bc ok', of k val] wrote(3) by simp
  qed
  then show "mvcc_inv bc m'" "keeps_history bc m m'" "txn_ok bc m' st"
    "txn_ok bc m st' \<Longrightarrow> read_only st' \<or> st' \<in> T \<and> st' \<noteq> st \<Longrightarrow> preserves bc st' m m'"
    by simp_all
qed

lemma step_mem:
  assumes bc: "codecs_ok bc" and inv: "sys_inv bc (m, T)"
    and step: "mvcc_step memory_ops bc (m, T) ev (m', T')"
  shows "sys_inv bc (m', T')" "keeps_history bc m m'"
    "txn_ok bc m st \<Longrightarrow> bystander T ev st \<Longrightarrow> preserves bc st m m'"
    "st \<in> T \<Longrightarrow> actor ev \<noteq> Some st \<Longrightarrow> st \<in> T'"
proof -
  have i: "mvcc_inv bc m" and ok: "\<forall>st\<in>T. txn_ok bc m st"
    using inv by (auto simp: sys_inv_def)
  note defs = sys_inv_def opened_def preserves_def bystander_def
  have "sys_inv bc (m', T') \<and> keeps_history bc m m' \<and>
      (txn_ok bc m st \<longrightarrow> bystander T ev st \<longrightarrow> preserves bc st m m') \<and>
      (st \<in> T \<longrightarrow> actor ev \<noteq> Some st \<longrightarrow> st \<in> T')" for st
    using step
  proof cases
    case (Begin r)
    show ?thesis
    proof (cases "next_version bc m = u64_max")
      case True
      then show ?thesis using Begin i inv mvcc_invD(1-3)[OF i]
        by (auto simp: txn_begin_def sbind_def slift_def get_next_version_mem u64_inc_def defs)
    next
      case False
      then show ?thesis
        using Begin begin_mem[OF i False] begin_inv[OF bc i False] begin_txn_ok[OF bc i False]
          begin_other[OF bc i False] begin_keeps_history[OF bc mvcc_invD(3)[OF i] False] ok
        by (auto simp: defs)
    qed
  next
    case (BeginReadOnly as_of r)
    then show ?thesis
      using inv begin_read_only_mem[OF i] begin_read_only_txn_ok[OF i]
      by (cases as_of) (auto simp: defs errinput_def split: if_splits)
  next
    case (Get st k r)
    then show ?thesis using inv get_mem[OF mvcc_invD(1,2)[OF i]] by (auto simp: defs)
  next
    case (Write st' k val r)
    then show ?thesis
      using write_step[OF bc i ok Write(3,4)] ok by (auto simp: defs)
  next
    case (Commit st' r)
    show ?thesis
    proof (cases "read_only st'")
      case True
      then show ?thesis using Commit inv by (auto simp: txn_commit_def sret_def defs)
    next
      case False
      then obtain R where "mvcc_store m'" "kv m' = (\<lambda>K. if R K then None else kv m K)"
          "R = commit_removes (txn_version st') \<or> R = rollback_removes (txn_version st')"
        using Commit(4) commit_mem[OF mvcc_invD(1)[OF i] False] by auto
      from ended_step[OF bc i ok Commit(3) False this] Commit ok show ?thesis
        by (auto simp: defs)
    qed
  next
    case (Rollback st' r)
    show ?thesis
    proof (cases "read_only st'")
      case True
      then show ?thesis using Rollback inv by (auto simp: txn_rollback_def sret_def defs)
    next
      case False
      then obtain R where "mvcc_store m'" "kv m' = (\<lambda>K. if R K then None else kv m K)"
          "R = commit_removes (txn_version st') \<or> R = rollback_removes (txn_version st')"
        using Rollback(3,4) rollback_mem[OF i _ False] ok by fastforce
      from ended_step[OF bc i ok Rollback(3) False this] Rollback ok show ?thesis
        by (auto simp: defs)
    qed
  next
    case (SetUnversioned k v r)
    then show ?thesis
      using unversioned_inv(1)[OF i, of k v] unversioned_inv(2,3) ok
      by (auto simp: set_unversioned_def mem_simps defs keeps_history_def unversioned_simps)
  qed
  then show "sys_inv bc (m', T')" "keeps_history bc m m'"
    "txn_ok bc m st \<Longrightarrow> bystander T ev st \<Longrightarrow> preserves bc st m m'"
    "st \<in> T \<Longrightarrow> actor ev \<noteq> Some st \<Longrightarrow> st \<in> T'"
    by blast+
qed

section \<open>Runs\<close>

definition undisturbed :: "mvcc_event list \<Rightarrow> transaction_state \<Rightarrow> bool" where
  "undisturbed evs st \<longleftrightarrow> (\<forall>ev\<in>set evs. actor ev \<noteq> Some st)"

lemma run_mem:
  assumes "codecs_ok bc" "mvcc_run memory_ops bc c evs c'" "sys_inv bc c"
  shows "sys_inv bc c'" "keeps_history bc (fst c) (fst c')"
    "st \<in> snd c \<Longrightarrow> undisturbed evs st \<Longrightarrow> st \<in> snd c' \<and> preserves bc st (fst c) (fst c')"
    "read_only st \<Longrightarrow> txn_ok bc (fst c) st \<Longrightarrow> preserves bc st (fst c) (fst c')"
proof -
  have "sys_inv bc c' \<and> keeps_history bc (fst c) (fst c') \<and>
    (st \<in> snd c \<and> undisturbed evs st \<longrightarrow> st \<in> snd c' \<and> preserves bc st (fst c) (fst c')) \<and>
    (read_only st \<and> txn_ok bc (fst c) st \<longrightarrow> preserves bc st (fst c) (fst c'))" for st
    using assms(2,3)
  proof induction
    case (Nil c)
    then show ?case by (auto simp: preserves_def sys_inv_def)
  next
    case (Snoc c evs c' ev c'')
    obtain m T m' T' m'' T'' where c: "c = (m, T)" "c' = (m', T')" "c'' = (m'', T'')" by (metis surj_pair)
    note IH = Snoc.IH[OF Snoc.prems]
    have "sys_inv bc (m', T')" using IH c by simp
    note step = step_mem[OF assms(1) this Snoc(2)[unfolded c]]
    have trans: "preserves bc st m m''" if "preserves bc st m m'" "preserves bc st m' m''"
      using that same_view_trans by (auto simp: preserves_def)
    have "st \<in> T'' \<and> preserves bc st m m''" if "st \<in> T" "undisturbed (evs @ [ev]) st"
    proof -
      have "st \<in> T'" "preserves bc st m m'" "actor ev \<noteq> Some st"
        using IH that c by (auto simp: undisturbed_def)
      then show ?thesis
        using step(3,4)[of st] trans by (auto simp: bystander_def preserves_def)
    qed
    moreover have "preserves bc st m m''" if "read_only st" "txn_ok bc m st"
      using IH that c step(3)[of st] trans by (auto simp: bystander_def preserves_def)
    ultimately show ?case
      using step(1,2) IH c keeps_history_trans[of bc m m' m''] by auto
  qed
  then show "sys_inv bc c'" "keeps_history bc (fst c) (fst c')"
    "st \<in> snd c \<Longrightarrow> undisturbed evs st \<Longrightarrow> st \<in> snd c' \<and> preserves bc st (fst c) (fst c')"
    "read_only st \<Longrightarrow> txn_ok bc (fst c) st \<Longrightarrow> preserves bc st (fst c) (fst c')"
    by blast+
qed

lemma sys_inv_init: "sys_inv bc ([], {})"
  by (simp add: sys_inv_def mvcc_inv_empty)

context engine
begin

lemma simD': "sim invar abst f f' \<Longrightarrow> invar e \<Longrightarrow> f e = (r, e') \<Longrightarrow> f' (abst e) = (r, abst e') \<and> invar e'"
  using simD[of invar abst f f' e] by (metis fst_conv prod.collapse snd_conv)

lemma step_abst:
  assumes "mvcc_step ops bc (e, T) ev (e', T')" "invar e"
  shows "mvcc_step memory_ops bc (abst e, T) ev (abst e', T') \<and> invar e'"
  using assms(1)
proof cases
  case (Begin r)
  then show ?thesis using simD'[OF sim_begin assms(2)] by (auto intro: mvcc_step.Begin)
next
  case (BeginReadOnly as_of r)
  then show ?thesis using simD'[OF sim_begin_read_only assms(2)] by (auto intro: mvcc_step.BeginReadOnly)
next
  case (Get st k r)
  then show ?thesis using simD'[OF sim_txn_get assms(2)] by (auto intro: mvcc_step.Get)
next
  case (Write st k val r)
  then show ?thesis using simD'[OF sim_write assms(2)] by (auto intro: mvcc_step.Write)
next
  case (Commit st r)
  then show ?thesis using simD'[OF sim_commit assms(2)] by (auto intro: mvcc_step.Commit)
next
  case (Rollback st r)
  then show ?thesis using simD'[OF sim_rollback assms(2)] by (auto intro: mvcc_step.Rollback)
next
  case (SetUnversioned k v r)
  then show ?thesis using simD'[OF sim_set_unversioned assms(2)] by (auto intro: mvcc_step.SetUnversioned)
qed

lemma run_abst:
  assumes "mvcc_run ops bc c evs c'" "invar (fst c)"
  shows "mvcc_run memory_ops bc (abst (fst c), snd c) evs (abst (fst c'), snd c') \<and> invar (fst c')"
  using assms
proof induction
  case (Nil c)
  then show ?case by (simp add: mvcc_run.Nil)
next
  case (Snoc c evs c' ev c'')
  then show ?case
    using step_abst[of bc "fst c'" "snd c'" ev "fst c''" "snd c''"]
    by (auto intro: mvcc_run.Snoc)
qed

lemma run_inv:
  assumes "codecs_ok bc" "mvcc_run ops bc (e0, {}) evs (e, T)" "invar e0" "abst e0 = []"
  shows "invar e" "sys_inv bc (abst e, T)"
  using run_abst[OF assms(2)] run_mem(1)[OF assms(1), of "([], {})" evs "(abst e, T)"] assms(3,4) sys_inv_init
  by auto

lemma get_abst:
  assumes "invar e" "mvcc_inv bc (abst e)"
  shows "\<exists>e'. txn_get ops bc st k e = (Ok (txn_reads bc st (abst e) k), e') \<and> invar e' \<and> abst e' = abst e"
  using get_mem[OF mvcc_invD(1,2)[OF assms(2)], of st k] simE[OF sim_txn_get assms(1)] by metis

end

end
