(* ===== verification/Mvcc_Properties.thy ===== *)
theory Mvcc_Properties
  imports Mvcc_Isolation
begin

text \<open>
  The transactional guarantees of the MVCC layer on any storage engine: snapshot isolation, exact
  conflict detection, no lost updates, commit, rollback and time travel.
\<close>

section \<open>Reachable configurations\<close>

text \<open>The configurations that can arise on an engine that starts out empty.\<close>

definition mvcc_reachable ::
    "'e engine_ops \<Rightarrow> ('e \<Rightarrow> bool) \<Rightarrow> ('e \<Rightarrow> memory) \<Rightarrow> mvcc_codec \<Rightarrow> 'e \<Rightarrow> transaction_state set \<Rightarrow> bool" where
  "mvcc_reachable ops invar abst bc e T \<longleftrightarrow>
     (\<exists>e0 evs. invar e0 \<and> abst e0 = [] \<and> mvcc_run ops bc (e0, {}) evs (e, T))"

lemma mvcc_run_append:
  "mvcc_run ops bc c' evs' c'' \<Longrightarrow> mvcc_run ops bc c evs c' \<Longrightarrow> mvcc_run ops bc c (evs @ evs') c''"
proof (induction arbitrary: rule: mvcc_run.induct)
  case (Snoc c' evs' d ev d')
  then show ?case using mvcc_run.Snoc[of ops bc c "evs @ evs'" d ev d'] by simp
qed simp

lemma mvcc_reachable_run:
  "mvcc_reachable ops invar abst bc e T \<Longrightarrow> mvcc_run ops bc (e, T) evs (e', T') \<Longrightarrow>
     mvcc_reachable ops invar abst bc e' T'"
  unfolding mvcc_reachable_def using mvcc_run_append by blast

lemma mvcc_run_single: "mvcc_step ops bc c ev c' \<Longrightarrow> mvcc_run ops bc c [ev] c'"
  using mvcc_run.Snoc[OF mvcc_run.Nil] by fastforce

context engine
begin

lemma reachable_inv:
  assumes "codecs_ok bc" "mvcc_reachable ops invar abst bc e T"
  shows "invar e" "sys_inv bc (abst e, T)" "mvcc_inv bc (abst e)" "st \<in> T \<Longrightarrow> txn_ok bc (abst e) st"
  using assms run_inv unfolding mvcc_reachable_def by (auto simp: sys_inv_def)

lemma run_preserves:
  assumes "codecs_ok bc" "invar e" "sys_inv bc (abst e, T)" "mvcc_run ops bc (e, T) evs (e', T')"
  shows "invar e'" "sys_inv bc (abst e', T')" "keeps_history bc (abst e) (abst e')"
    "st \<in> T \<Longrightarrow> undisturbed evs st \<Longrightarrow> st \<in> T' \<and> preserves bc st (abst e) (abst e')"
    "read_only st \<Longrightarrow> txn_ok bc (abst e) st \<Longrightarrow> preserves bc st (abst e) (abst e')"
  using run_abst[OF assms(4)] run_mem[OF assms(1), of "(abst e, T)" evs "(abst e', T')"] assms(2,3) by auto

lemma fst_get:
  assumes "invar e" "mvcc_inv bc (abst e)"
  shows "fst (txn_get ops bc st k e) = Ok (txn_reads bc st (abst e) k)"
  using get_abst[OF assms, of st k] by auto

lemma begin_abst:
  assumes "invar e" "mvcc_inv bc (abst e)" "txn_begin ops bc e = (Ok st, e')"
  shows "next_version bc (abst e) \<noteq> u64_max"
    "st = \<lparr>txn_version = next_version bc (abst e), read_only = False, active = active_set (abst e)\<rparr>"
    "abst e' = begin_store bc (abst e)" "invar e'"
proof -
  note b = simD'[OF sim_begin assms(1,3)]
  show max: "next_version bc (abst e) \<noteq> u64_max"
  proof
    assume "next_version bc (abst e) = u64_max"
    then have "fst (txn_begin memory_ops bc (abst e)) = Panic ''attempt to add with overflow''"
      using mvcc_invD(2)[OF assms(2)]
      by (simp add: txn_begin_def sbind_def slift_def get_next_version_mem u64_inc_def)
    then show False using b by simp
  qed
  show "st = \<lparr>txn_version = next_version bc (abst e), read_only = False, active = active_set (abst e)\<rparr>"
    "abst e' = begin_store bc (abst e)" "invar e'"
    using b begin_mem[OF assms(2) max] by simp_all
qed

lemma begin_read_only_abst:
  assumes "invar e" "mvcc_inv bc (abst e)"
  shows "fst (txn_begin_read_only ops bc (Some v) e) =
    (if v < next_version bc (abst e)
     then Ok \<lparr>txn_version = v, read_only = True, active = snapshot bc (abst e) v\<rparr>
     else errinput ''version does not exist'')"
    "invar (snd (txn_begin_read_only ops bc as_of e))"
    "abst (snd (txn_begin_read_only ops bc as_of e)) = abst e"
  using simD[OF sim_begin_read_only assms(1)] begin_read_only_mem[OF assms(2)]
  by (cases as_of; simp)+

end

text \<open>A transaction that just began reads what a read-only transaction at its version and with its
  active set reads: nothing is written at its version yet.\<close>

lemma begin_reads_read_only:
  assumes "codecs_ok bc" "mvcc_inv bc m" "next_version bc m \<noteq> u64_max"
  shows "txn_reads bc \<lparr>txn_version = next_version bc m, read_only = False, active = act\<rparr> (begin_store bc m) k =
    txn_reads bc \<lparr>txn_version = next_version bc m, read_only = True, active = act\<rparr> (begin_store bc m) k"
    (is "txn_reads bc ?rw ?m k = txn_reads bc ?ro ?m k")
proof -
  have none: "written bc m k (next_version bc m) = None"
    using mvcc_invD(3)[OF assms(2)] by (metis less_irrefl versions_below_def)
  have "visible_versions ?rw (written bc ?m k) = visible_versions ?ro (written bc ?m k)"
    using none by (auto simp: visible_versions_def is_visible_def begin_store_simps[OF assms(1)] less_le)
  then show ?thesis by (simp add: txn_reads_def latest_visible_def)
qed

text \<open>C1 Snapshot isolation: from any configuration that can arise on an empty engine, whatever the
  other transactions do (begin, read, write, commit, roll back, in any order and with any results), an
  open transaction that does nothing itself stays open and keeps reading exactly the same value at
  every key, and its reads do not fail.\<close>
theorem snapshot_isolation:
  assumes "engine ops invar abst" and "codecs_ok bc"
    and "mvcc_reachable ops invar abst bc e T" and "st \<in> T"
    and "mvcc_run ops bc (e, T) evs (e', T')" and "undisturbed evs st"
  shows "st \<in> T' \<and> (\<exists>v. fst (txn_get ops bc st k e) = Ok v \<and> fst (txn_get ops bc st k e') = Ok v)"
proof -
  note r = engine.reachable_inv[OF assms(1-3)]
  note p = engine.run_preserves[OF assms(1,2) r(1,2) assms(5)]
  have "txn_reads bc st (abst e') = txn_reads bc st (abst e)"
    using p(4)[OF assms(4,6)] same_view_reads by (auto simp: preserves_def)
  moreover have "mvcc_inv bc (abst e')" using p(2) by (simp add: sys_inv_def)
  ultimately show ?thesis
    using engine.fst_get[OF assms(1) r(1,3)] engine.fst_get[OF assms(1) p(1)] p(4)[OF assms(4,6)] by simp
qed

text \<open>C10 Time travel: what a read-write transaction reads when it begins can be read again at any
  later time by a read-only transaction as of its version, whatever ran in between, the transaction's
  own writes, commit or rollback included.\<close>
theorem time_travel:
  assumes "engine ops invar abst" and "codecs_ok bc"
    and "mvcc_reachable ops invar abst bc e T" and "txn_begin ops bc e = (Ok st, e1)"
    and "mvcc_run ops bc (e1, insert st T) evs (e2, T2)"
    and "txn_begin_read_only ops bc (Some (txn_version st)) e2 = (r, e3)"
  shows "\<exists>st'. r = Ok st' \<and> fst (txn_get ops bc st' k e3) = fst (txn_get ops bc st k e1)"
proof -
  let ?m = "abst e" and ?m1 = "abst e1" and ?m2 = "abst e2"
  note r = engine.reachable_inv[OF assms(1-3)]
  note b = engine.begin_abst[OF assms(1) r(1,3) assms(4)]
  have "mvcc_run ops bc (e, T) [EvBegin] (e1, insert st T)"
    using mvcc_step.Begin[OF assms(4), of T] by (intro mvcc_run_single) (simp add: opened_def)
  note r1 = engine.reachable_inv[OF assms(1,2) mvcc_reachable_run[OF assms(3) this]]
  note p = engine.run_preserves[OF assms(1,2) r1(1,2) assms(5)]
  let ?ro = "\<lparr>txn_version = txn_version st, read_only = True, active = active st\<rparr>"
  have st: "txn_ok bc ?m1 st" using r1(4) by simp
  then have ro: "txn_ok bc ?m1 ?ro" by (simp add: txn_ok_def)
  have "txn_version st < next_version bc ?m1"
    using txn_version_bound[OF r1(3) st] b(2) by simp
  then have later: "txn_version st < next_version bc ?m2" "snapshot bc ?m2 (txn_version st) = active st"
    using p(3) st b(2) by (auto simp: keeps_history_def txn_ok_def)
  have i2: "mvcc_inv bc ?m2" using p(2) by (simp add: sys_inv_def)
  note as_of = engine.begin_read_only_abst[OF assms(1) p(1) i2]
  have r_eq: "r = Ok ?ro" "invar e3" "abst e3 = ?m2"
    using as_of(1)[of "txn_version st"] as_of(2,3)[of "Some (txn_version st)"] later assms(6) by simp_all
  have "txn_reads bc ?ro ?m2 = txn_reads bc ?ro ?m1"
    using p(5)[OF _ ro] same_view_reads by (simp add: preserves_def)
  moreover have "txn_reads bc st ?m1 k = txn_reads bc ?ro ?m1 k"
    using begin_reads_read_only[OF assms(2) r(3) b(1)] b(2,3) by simp
  ultimately show ?thesis
    using engine.fst_get[OF assms(1) r1(1,3)] engine.fst_get[OF assms(1) r_eq(2)] r_eq i2 by simp
qed

context engine
begin

lemma write_abst:
  assumes "invar e" "mvcc_inv bc (abst e)" "txn_ok bc (abst e) st" "\<not> read_only st"
    and "write_version ops bc st k val e = (r, e')"
  shows "r = (if conflicts bc (abst e) st k then Err Serialization else Ok ())"
    "abst e' = (if conflicts bc (abst e) st k then abst e else write_store bc st k val (abst e))"
    "invar e'"
  using simD'[OF sim_write assms(1,5)] write_mem[OF assms(2-4), of k val] by (auto split: if_splits)

end

text \<open>C3 Write conflicts are exact: a read-write transaction's write fails with a serialization error
  exactly when the key has a version the transaction cannot see, committed or not. A failed write
  changes nothing; after a successful one the transaction reads its own value at that key and what it
  read before at every other key.\<close>
theorem write_conflict:
  assumes "engine ops invar abst" and "codecs_ok bc"
    and "mvcc_reachable ops invar abst bc e T" and "st \<in> T" and "\<not> read_only st"
    and "write_version ops bc st k val e = (r, e')"
  shows "if \<exists>w. written bc (abst e) k w \<noteq> None \<and> \<not> is_visible st w
    then r = Err Serialization \<and> abst e' = abst e
    else r = Ok () \<and> fst (txn_get ops bc st k e') = Ok val \<and>
      (k' \<noteq> k \<longrightarrow> fst (txn_get ops bc st k' e') = fst (txn_get ops bc st k' e))"
proof -
  note r = engine.reachable_inv[OF assms(1-3)]
  note w = engine.write_abst[OF assms(1) r(1,3) r(4)[OF assms(4)] assms(5,6)]
  show ?thesis
  proof (cases "conflicts bc (abst e) st k")
    case True
    then show ?thesis using w unfolding conflicts_def by simp
  next
    case False
    then have e': "abst e' = write_store bc st k val (abst e)" "r = Ok ()" using w by simp_all
    have i: "mvcc_inv bc (abst e')"
      using write_inv[OF assms(2) r(3) r(4)[OF assms(4)] assms(5) False] e' by simp
    have vis: "is_visible st (txn_version st)"
      using r(4)[OF assms(4)] assms(5) by (auto simp: is_visible_def txn_ok_def)
    have "txn_reads bc st (abst e') k = val"
      unfolding txn_reads_def
      by (rule latest_visible_max[OF _ vis]) (auto simp: e' write_store_simps[OF assms(2)] is_visible_le)
    moreover have "txn_reads bc st (abst e') k' = txn_reads bc st (abst e) k'" if "k' \<noteq> k"
      unfolding txn_reads_def using that
      by (intro latest_visible_cong) (simp add: e' write_store_simps[OF assms(2)])
    ultimately show ?thesis
      using False engine.fst_get[OF assms(1) w(3) i] engine.fst_get[OF assms(1) r(1,3)] e'(2)
      unfolding conflicts_def by (simp only: if_False) simp
  qed
qed

section \<open>No lost updates\<close>

text \<open>A version stays in the store unless its transaction rolls back.\<close>

definition settled :: "mvcc_codec \<Rightarrow> transaction_state \<Rightarrow> bytes \<Rightarrow> memory \<times> transaction_state set \<Rightarrow> bool" where
  "settled bc st k c \<longleftrightarrow> written bc (fst c) k (txn_version st) \<noteq> None \<and>
     (st \<in> snd c \<or> txn_version st \<notin> active_set (fst c))"

lemma settled_step:
  assumes bc: "codecs_ok bc" and inv: "sys_inv bc (m, T)" and rw: "\<not> read_only st"
    and set: "settled bc st k (m, T)" and step: "mvcc_step memory_ops bc (m, T) ev (m', T')"
    and ev: "ev \<noteq> EvRollback st"
  shows "settled bc st k (m', T')"
proof -
  have i: "mvcc_inv bc m" and ok: "\<forall>st\<in>T. txn_ok bc m st" using inv by (auto simp: sys_inv_def)
  have below: "txn_version st < next_version bc m"
    using set mvcc_invD(3)[OF i] by (auto simp: settled_def versions_below_def)
  have other: "txn_version st' \<noteq> txn_version st" if "st' \<in> T" "\<not> read_only st'" "st' \<noteq> st" for st'
    using that ok set rw txn_ok_unique[of bc m st' st] by (auto simp: settled_def txn_ok_def)
  from step show ?thesis
  proof cases
    case (Begin r)
    show ?thesis
    proof (cases "next_version bc m = u64_max")
      case True
      then show ?thesis using Begin set mvcc_invD(2)[OF i]
        by (auto simp: txn_begin_def sbind_def slift_def get_next_version_mem u64_inc_def opened_def)
    next
      case False
      then show ?thesis
        using Begin begin_mem[OF i False] set below
        by (auto simp: settled_def opened_def begin_store_simps[OF bc])
    qed
  next
    case (BeginReadOnly as_of r)
    then show ?thesis
      using begin_read_only_mem[OF i] set
      by (cases as_of) (auto simp: settled_def opened_def errinput_def split: if_splits)
  next
    case (Get st' k' r)
    then show ?thesis using set get_mem[OF mvcc_invD(1,2)[OF i]] by auto
  next
    case (Write st' k' val r)
    have ok': "txn_ok bc m st'" using ok Write by simp
    show ?thesis
      using Write set write_mem[OF i ok', of k' val] write_read_only[of st' memory_ops bc k' val m]
      by (cases "read_only st'")
        (auto simp: settled_def write_store_simps[OF bc] split: if_splits)
  next
    case (Commit st' r)
    show ?thesis
    proof (cases "read_only st'")
      case True
      then show ?thesis using Commit set rw by (auto simp: settled_def txn_commit_def sret_def)
    next
      case False
      then have kv: "kv m' = (\<lambda>K. if commit_removes (txn_version st') K then None else kv m K)"
        using Commit(4) commit_mem[OF mvcc_invD(1)[OF i] False] by auto
      show ?thesis
        using set Commit other[of st'] False by (auto simp: settled_def removed_simps[OF kv disjI1[OF refl]])
    qed
  next
    case (Rollback st' r)
    show ?thesis
    proof (cases "read_only st'")
      case True
      then show ?thesis using Rollback set rw by (auto simp: settled_def txn_rollback_def sret_def)
    next
      case False
      then have kv: "kv m' = (\<lambda>K. if rollback_removes (txn_version st') K then None else kv m K)"
        using Rollback rollback_mem[OF i _ False] ok by fastforce
      show ?thesis
        using set Rollback other[of st'] False ev by (auto simp: settled_def removed_simps[OF kv disjI2[OF refl]])
    qed
  next
    case (SetUnversioned k' v r)
    then show ?thesis
      using set by (auto simp: settled_def set_unversioned_def mem_simps unversioned_simps)
  qed
qed

lemma settled_run:
  assumes "mvcc_run memory_ops bc c evs c'" "codecs_ok bc" "sys_inv bc c" "\<not> read_only st"
    "settled bc st k c" "EvRollback st \<notin> set evs"
  shows "settled bc st k c'"
  using assms
proof induction
  case (Snoc c evs c' ev c'')
  have "sys_inv bc c'" by (rule run_mem(1)[OF Snoc(4) Snoc(1) Snoc(5)])
  then show ?case
    using Snoc settled_step[of bc "fst c'" "snd c'" st k ev "fst c''" "snd c''"] by auto
qed simp

text \<open>C2 No lost updates: of two concurrent read-write transactions, after one has written a key the
  other can never write it, unless the first one rolls back: its write fails with a serialization
  error, also when the first has committed in the meantime, whatever else happens.\<close>
theorem no_lost_update:
  assumes "engine ops invar abst" and "codecs_ok bc"
    and "mvcc_reachable ops invar abst bc e T" and "st1 \<in> T" and "st2 \<in> T" and "st1 \<noteq> st2"
    and "\<not> read_only st1" and "\<not> read_only st2"
    and "write_version ops bc st1 k v1 e = (Ok (), e1)"
    and "mvcc_run ops bc (e1, T) evs (e2, T2)" and "EvRollback st1 \<notin> set evs" and "st2 \<in> T2"
  shows "fst (write_version ops bc st2 k v2 e2) = Err Serialization"
proof -
  note r = engine.reachable_inv[OF assms(1-3)]
  note w = engine.write_abst[OF assms(1) r(1,3) r(4)[OF assms(4)] assms(7,9)]
  have "mvcc_run ops bc (e, T) [EvWrite st1 k v1] (e1, T)"
    by (intro mvcc_run_single mvcc_step.Write[OF assms(4,9)])
  note r1 = engine.reachable_inv[OF assms(1,2) mvcc_reachable_run[OF assms(3) this]]
  note p = engine.run_preserves[OF assms(1,2) r1(1,2) assms(10)]
  have "abst e1 = write_store bc st1 k v1 (abst e)" using w by (auto split: if_splits)
  then have "settled bc st1 k (abst e1, T)"
    using assms(4) by (simp add: settled_def write_store_simps[OF assms(2)])
  then have "settled bc st1 k (abst e2, T2)"
    using settled_run[OF _ assms(2) r1(2) assms(7) _ assms(11)] engine.run_abst[OF assms(1,10)] r1(1) by auto
  moreover have "\<not> is_visible st2 (txn_version st1)"
    using assms(4-8) r(4) txn_ok_unique[of bc "abst e" st1 st2]
    by (intro active_invisible[of bc "abst e"]) (auto simp: txn_ok_def)
  ultimately have "conflicts bc (abst e2) st2 k" by (auto simp: conflicts_def settled_def)
  moreover obtain r2 e3 where "write_version ops bc st2 k v2 e2 = (r2, e3)" by fastforce
  ultimately show ?thesis
    using engine.write_abst(1)[OF assms(1) p(1) _ _ assms(8)] p(2) assms(12) by (fastforce simp: sys_inv_def)
qed

section \<open>Commit and rollback\<close>

context engine
begin

lemma commit_abst:
  assumes "invar e" "mvcc_inv bc (abst e)" "\<not> read_only st" "txn_commit ops st e = (r, e')"
  shows "r = Ok ()" "kv (abst e') = (\<lambda>K. if commit_removes (txn_version st) K then None else kv (abst e) K)"
    "invar e'"
  using simD'[OF sim_commit assms(1,4)] commit_mem[OF mvcc_invD(1)[OF assms(2)] assms(3)] by auto

lemma rollback_abst:
  assumes "invar e" "mvcc_inv bc (abst e)" "txn_ok bc (abst e) st" "\<not> read_only st"
    "txn_rollback ops st e = (r, e')"
  shows "r = Ok ()" "kv (abst e') = (\<lambda>K. if rollback_removes (txn_version st) K then None else kv (abst e) K)"
    "invar e'"
  using simD'[OF sim_rollback assms(1,5)] rollback_mem[OF assms(2-4)] by auto

end

text \<open>Right after it commits, the version a transaction wrote is the latest version of the key.\<close>

lemma active_version_latest:
  assumes "mvcc_inv bc m" "v \<in> active_set m" "written bc m k v \<noteq> None" "written bc m k w \<noteq> None"
  shows "w \<le> v"
proof (rule ccontr)
  assume "\<not> w \<le> v"
  then have "v < w" by simp
  moreover have "w < next_version bc m" using mvcc_invD(3)[OF assms(1)] assms(4) by (auto simp: versions_below_def)
  ultimately have "v \<in> snapshot bc m w" using mvcc_invD(5)[OF assms(1)] assms(2) by (simp add: snapshots_ok_def)
  then show False
    using mvcc_invD(6)[OF assms(1)] assms(3,4) \<open>v < w\<close> unfolding no_conflict_def by blast
qed

text \<open>C11 Commit succeeds and publishes: a transaction that begins right after it reads, at every key the
  committed transaction wrote, the value it wrote last.\<close>
theorem commit_publishes:
  assumes "engine ops invar abst" and "codecs_ok bc"
    and "mvcc_reachable ops invar abst bc e T" and "st \<in> T" and "\<not> read_only st"
    and "written bc (abst e) k (txn_version st) = Some x"
    and "txn_commit ops st e = (r, e1)" and "txn_begin ops bc e1 = (Ok st', e2)"
  shows "r = Ok () \<and> fst (txn_get ops bc st k e) = Ok x \<and> fst (txn_get ops bc st' k e2) = Ok x"
proof -
  note r = engine.reachable_inv[OF assms(1-3)]
  note c = engine.commit_abst[OF assms(1) r(1,3) assms(5,7)]
  note s = removed_simps[OF c(2) disjI1[OF refl]]
  have run1: "mvcc_run ops bc (e, T) [EvCommit st] (e1, T - {st})"
    by (intro mvcc_run_single mvcc_step.Commit[OF assms(4,7)])
  note reach1 = mvcc_reachable_run[OF assms(3) run1]
  note r1 = engine.reachable_inv[OF assms(1,2) reach1]
  note b = engine.begin_abst[OF assms(1) r1(1,3) assms(8)]
  have ok: "txn_ok bc (abst e) st" using r(4) assms(4) by simp
  have v: "txn_version st \<in> active_set (abst e)" using ok assms(5) by (simp add: txn_ok_def)
  have latest: "w \<le> txn_version st" if "written bc (abst e) k w \<noteq> None" for w
    using active_version_latest[OF r(3) v _ that] assms(6) by simp
  have "txn_reads bc st (abst e) k = x"
    unfolding txn_reads_def using ok assms(5,6) latest
    by (intro latest_visible_max[where w = "txn_version st"]) (auto simp: is_visible_def txn_ok_def)
  moreover have "txn_version st < next_version bc (abst e)"
    by (rule txn_version_bound[OF r(3) ok assms(5)])
  then have "txn_reads bc st' (abst e2) k = x"
    unfolding txn_reads_def using assms(6) latest
    by (intro latest_visible_max[where w = "txn_version st"])
      (auto simp: is_visible_def b(2,3) begin_store_simps[OF assms(2)] s)
  moreover have "mvcc_inv bc (abst e2)"
    using begin_inv[OF assms(2) r1(3) b(1)] b(3) by simp
  ultimately show ?thesis
    using engine.fst_get[OF assms(1) r(1,3)] engine.fst_get[OF assms(1) b(4)] c(1) by simp
qed

text \<open>C12 Rollback succeeds and undoes everything: a transaction that begins right after it reads at every
  key what a transaction that began right before it would have read, and no version of the rolled back
  transaction is left.\<close>
theorem rollback_undoes:
  assumes "engine ops invar abst" and "codecs_ok bc"
    and "mvcc_reachable ops invar abst bc e T" and "st \<in> T" and "\<not> read_only st"
    and "txn_begin ops bc e = (Ok st_a, e_a)"
    and "txn_rollback ops st e = (r, e1)" and "txn_begin ops bc e1 = (Ok st_b, e_b)"
  shows "r = Ok () \<and> written bc (abst e1) k (txn_version st) = None \<and>
    fst (txn_get ops bc st_b k e_b) = fst (txn_get ops bc st_a k e_a)"
proof -
  note r = engine.reachable_inv[OF assms(1-3)]
  note c = engine.rollback_abst[OF assms(1) r(1,3) r(4)[OF assms(4)] assms(5,7)]
  note s = removed_simps[OF c(2) disjI2[OF refl]]
  note a = engine.begin_abst[OF assms(1) r(1,3) assms(6)]
  have "mvcc_run ops bc (e, T) [EvRollback st] (e1, T - {st})"
    by (intro mvcc_run_single mvcc_step.Rollback[OF assms(4,7)])
  note r1 = engine.reachable_inv[OF assms(1,2) mvcc_reachable_run[OF assms(3) this]]
  note b = engine.begin_abst[OF assms(1) r1(1,3) assms(8)]
  have v: "txn_version st \<in> active_set (abst e)" using r(4)[OF assms(4)] assms(5) by (simp add: txn_ok_def)
  have vis: "is_visible st_b w \<and> w \<noteq> txn_version st \<longleftrightarrow> is_visible st_a w" for w
    using v by (auto simp: is_visible_def a(2) b(2) s)
  have "visible_versions st_b (written bc (abst e_b) k) = visible_versions st_a (written bc (abst e_a) k)"
    using vis by (auto simp: visible_versions_def a(3) b(3) begin_store_simps[OF assms(2)] s)
  moreover have "written bc (abst e_b) k w = written bc (abst e_a) k w" if "w \<noteq> txn_version st" for w
    using that by (simp add: a(3) b(3) begin_store_simps[OF assms(2)] s)
  moreover have "txn_version st \<notin> visible_versions st_a (written bc (abst e_a) k)"
    using vis by (auto simp: visible_versions_def)
  ultimately have "txn_reads bc st_b (abst e_b) k = txn_reads bc st_a (abst e_a) k"
    unfolding txn_reads_def latest_visible_def by (metis Max_in finite)
  then show ?thesis
    using engine.fst_get[OF assms(1) a(4)] engine.fst_get[OF assms(1) b(4)] c(1) s(4)
      begin_inv[OF assms(2) r(3) a(1)] begin_inv[OF assms(2) r1(3) b(1)] a(3) b(3) by simp
qed

section \<open>A concrete history\<close>

text \<open>A sample codec and a short history on the in-memory engine, at which the properties are
  instantiated: two transactions begin, the first writes a key.\<close>

fun decode_u64s :: "bytes \<Rightarrow> u64 list" where
  "decode_u64s (a # b # c # d # e # f # g # h # bs) = u64_from_be_bytes [a, b, c, d, e, f, g, h] # decode_u64s bs"
| "decode_u64s _ = []"

definition sample_codec :: mvcc_codec where
  "sample_codec = \<lparr>
     version_codec = \<lparr>encode = u64_to_be_bytes, decode = (\<lambda>bs. Ok (u64_from_be_bytes bs))\<rparr>,
     active_codec = \<lparr>encode = (\<lambda>s. concat (map u64_to_be_bytes (sorted_list_of_set s))),
       decode = (\<lambda>bs. Ok (set (decode_u64s bs)))\<rparr>,
     value_codec = \<lparr>encode = (\<lambda>v. case v of None \<Rightarrow> [] | Some v \<Rightarrow> 1 # v),
       decode = (\<lambda>bs. Ok (case bs of [] \<Rightarrow> None | _ # v \<Rightarrow> Some v))\<rparr>\<rparr>"

lemma decode_u64s_append: "length bs = 8 \<Longrightarrow> decode_u64s (bs @ rest) = u64_from_be_bytes bs # decode_u64s rest"
  by (auto simp: numeral_eq_Suc length_Suc_conv)

lemma decode_u64s_encode: "decode_u64s (concat (map u64_to_be_bytes vs)) = vs"
  by (induction vs) (simp_all add: decode_u64s_append)

lemma sample_codec_ok: "codecs_ok sample_codec"
  by (simp add: codecs_ok_def codec_ok_def sample_codec_def decode_u64s_encode split: option.split)

definition sample_st1 :: transaction_state where
  "sample_st1 = \<lparr>txn_version = 1, read_only = False, active = {}\<rparr>"

definition sample_st2 :: transaction_state where
  "sample_st2 = \<lparr>txn_version = 2, read_only = False, active = {1}\<rparr>"

definition sample_m1 :: memory where
  "sample_m1 = begin_store sample_codec []"

definition sample_m2 :: memory where
  "sample_m2 = begin_store sample_codec sample_m1"

definition sample_m3 :: memory where
  "sample_m3 = write_store sample_codec sample_st1 [7] (Some [42]) sample_m2"

definition sample_m4 :: memory where
  "sample_m4 = snd (txn_commit memory_ops sample_st1 sample_m3)"

definition sample_m5 :: memory where
  "sample_m5 = snd (txn_rollback memory_ops sample_st1 sample_m3)"

lemma sample_empty: "next_version sample_codec [] = 1" "active_set [] = {}" "written sample_codec [] k w = None"
  "snapshot sample_codec [] v = {}"
  by (simp_all add: next_version_def active_set_def written_def snapshot_def stored_def)

lemmas sample_begin_simps = begin_store_simps[OF sample_codec_ok]
lemmas sample_write_simps = write_store_simps[OF sample_codec_ok]

lemma sample_m1_simps: "next_version sample_codec sample_m1 = 2" "active_set sample_m1 = {1}"
  "written sample_codec sample_m1 k w = None" "snapshot sample_codec sample_m1 v = {}"
  by (simp_all add: sample_m1_def sample_begin_simps sample_empty)

lemma sample_m2_simps: "next_version sample_codec sample_m2 = 3" "active_set sample_m2 = {1, 2}"
  "written sample_codec sample_m2 k w = None" "snapshot sample_codec sample_m2 = (\<lambda>_. {})(2 := {1})"
  by (auto simp: sample_m2_def sample_begin_simps sample_m1_simps fun_eq_iff)

lemma sample_m3_simps: "next_version sample_codec sample_m3 = 3" "active_set sample_m3 = {1, 2}"
  "written sample_codec sample_m3 k w = (if k = [7] \<and> w = 1 then Some (Some [42]) else None)"
  by (simp_all add: sample_m3_def sample_write_simps sample_m2_simps sample_st1_def)

lemma sample_inv1: "mvcc_inv sample_codec sample_m1"
  unfolding sample_m1_def by (rule begin_inv[OF sample_codec_ok mvcc_inv_empty]) (simp add: sample_empty)

lemma sample_begin1: "txn_begin memory_ops sample_codec [] = (Ok sample_st1, sample_m1)"
  using begin_mem[OF mvcc_inv_empty] by (simp add: sample_empty sample_st1_def sample_m1_def)

lemma sample_begin2: "txn_begin memory_ops sample_codec sample_m1 = (Ok sample_st2, sample_m2)"
  using begin_mem[OF sample_inv1] by (simp add: sample_m1_simps sample_st2_def sample_m2_def)

lemma sample_reachable: "mvcc_reachable memory_ops ordered (\<lambda>m. m) sample_codec sample_m2 {sample_st2, sample_st1}"
  unfolding mvcc_reachable_def
proof (intro exI conjI)
  show "mvcc_run memory_ops sample_codec ([], {}) ([] @ [EvBegin] @ [EvBegin]) (sample_m2, {sample_st2, sample_st1})"
    using mvcc_run.Snoc[OF mvcc_run_single[OF mvcc_step.Begin[OF sample_begin1]] mvcc_step.Begin[OF sample_begin2], of "{}"]
    by (simp add: opened_def)
qed simp_all

lemmas sample_inv2 = mem.reachable_inv[OF sample_codec_ok sample_reachable]

lemma sample_write: "write_version memory_ops sample_codec sample_st1 [7] (Some [42]) sample_m2 = (Ok (), sample_m3)"
  using write_mem[OF sample_inv2(3) sample_inv2(4)]
  by (simp add: conflicts_def sample_m2_simps sample_m3_def sample_st1_def)

lemma sample_run: "mvcc_run memory_ops sample_codec (sample_m2, {sample_st2, sample_st1})
    [EvWrite sample_st1 [7] (Some [42])] (sample_m3, {sample_st2, sample_st1})"
  by (intro mvcc_run_single mvcc_step.Write[OF _ sample_write]) simp

lemma sample_neq: "sample_st1 \<noteq> sample_st2"
  by (simp add: sample_st1_def sample_st2_def)

theorem snapshot_isolation_witness:
  "sample_st2 \<in> {sample_st2, sample_st1} \<and>
   (\<exists>v. fst (txn_get memory_ops sample_codec sample_st2 [7] sample_m2) = Ok v \<and>
        fst (txn_get memory_ops sample_codec sample_st2 [7] sample_m3) = Ok v)"
  using sample_neq
  by (intro snapshot_isolation[OF mem.engine_axioms sample_codec_ok sample_reachable _ sample_run])
    (simp_all add: undisturbed_def)

lemmas sample_reachable3 = mvcc_reachable_run[OF sample_reachable sample_run]

lemmas sample_inv3 = mem.reachable_inv[OF sample_codec_ok sample_reachable3]

lemma sample_commit: "txn_commit memory_ops sample_st1 sample_m3 = (Ok (), sample_m4)"
  using commit_mem[OF mvcc_invD(1)[OF sample_inv3(3)], of sample_st1] by (auto simp: sample_m4_def sample_st1_def)

lemma sample_rollback: "txn_rollback memory_ops sample_st1 sample_m3 = (Ok (), sample_m5)"
  using rollback_mem[OF sample_inv3(3) sample_inv3(4), of sample_st1] by (auto simp: sample_m5_def sample_st1_def)

lemma sample_run_commit: "mvcc_run memory_ops sample_codec (sample_m3, {sample_st2, sample_st1})
    [EvCommit sample_st1] (sample_m4, {sample_st2})"
  using mvcc_run_single[OF mvcc_step.Commit[OF _ sample_commit, of "{sample_st2, sample_st1}"]] sample_neq
  by (simp add: insert_Diff_if)

lemma sample_run_begin: "mvcc_run memory_ops sample_codec (sample_m1, {sample_st1})
    ([EvBegin] @ [EvWrite sample_st1 [7] (Some [42])]) (sample_m3, {sample_st2, sample_st1})"
  using mvcc_run_append[OF sample_run mvcc_run_single[OF mvcc_step.Begin[OF sample_begin2, of "{sample_st1}"],
      unfolded opened_def result.case]] by simp

lemma sample_reachable0: "mvcc_reachable memory_ops ordered (\<lambda>m. m) sample_codec [] {}"
  unfolding mvcc_reachable_def by (intro exI[of _ "[]"] conjI mvcc_run.Nil) simp_all

theorem time_travel_witness:
  "\<exists>st'. fst (txn_begin_read_only memory_ops sample_codec (Some (txn_version sample_st1)) sample_m3) = Ok st' \<and>
     fst (txn_get memory_ops sample_codec st' [7]
       (snd (txn_begin_read_only memory_ops sample_codec (Some (txn_version sample_st1)) sample_m3))) =
     fst (txn_get memory_ops sample_codec sample_st1 [7] sample_m1)"
  by (rule time_travel[OF mem.engine_axioms sample_codec_ok sample_reachable0 sample_begin1 sample_run_begin])
    simp

theorem write_conflict_witness:
  "if \<exists>w. written sample_codec sample_m3 [7] w \<noteq> None \<and> \<not> is_visible sample_st2 w
   then fst (write_version memory_ops sample_codec sample_st2 [7] None sample_m3) = Err Serialization \<and>
     snd (write_version memory_ops sample_codec sample_st2 [7] None sample_m3) = sample_m3
   else fst (write_version memory_ops sample_codec sample_st2 [7] None sample_m3) = Ok () \<and>
     fst (txn_get memory_ops sample_codec sample_st2 [7]
       (snd (write_version memory_ops sample_codec sample_st2 [7] None sample_m3))) = Ok None \<and>
     ([8] \<noteq> [7 :: u8] \<longrightarrow> fst (txn_get memory_ops sample_codec sample_st2 [8]
       (snd (write_version memory_ops sample_codec sample_st2 [7] None sample_m3))) =
       fst (txn_get memory_ops sample_codec sample_st2 [8] sample_m3))"
  by (rule write_conflict[OF mem.engine_axioms sample_codec_ok sample_reachable3])
    (simp_all add: sample_st2_def)

theorem no_lost_update_witness:
  "fst (write_version memory_ops sample_codec sample_st2 [7] (Some [43]) sample_m4) = Err Serialization"
  by (rule no_lost_update[OF mem.engine_axioms sample_codec_ok sample_reachable _ _ sample_neq _ _ sample_write
        mvcc_run_append[OF sample_run_commit mvcc_run.Nil]])
    (simp_all add: sample_st1_def sample_st2_def)

lemma sample_m4_simps: "next_version sample_codec sample_m4 = 3" "active_set sample_m4 = {2}"
proof -
  have "kv sample_m4 = (\<lambda>K. if commit_removes 1 K then None else kv sample_m3 K)"
    using commit_mem[OF mvcc_invD(1)[OF sample_inv3(3)], of sample_st1] sample_commit
    by (auto simp: sample_st1_def)
  from removed_simps[OF this disjI1[OF refl]]
  show "next_version sample_codec sample_m4 = 3" "active_set sample_m4 = {2}"
    by (auto simp: sample_m3_simps)
qed

lemma sample_m5_simps: "next_version sample_codec sample_m5 = 3" "active_set sample_m5 = {2}"
proof -
  have "kv sample_m5 = (\<lambda>K. if rollback_removes 1 K then None else kv sample_m3 K)"
    using rollback_mem[OF sample_inv3(3) sample_inv3(4), of sample_st1] sample_rollback
    by (auto simp: sample_st1_def)
  from removed_simps[OF this disjI2[OF refl]]
  show "next_version sample_codec sample_m5 = 3" "active_set sample_m5 = {2}"
    by (auto simp: sample_m3_simps)
qed

lemmas sample_inv4 = mem.reachable_inv[OF sample_codec_ok mvcc_reachable_run[OF sample_reachable3 sample_run_commit]]

lemmas sample_inv5 = mem.reachable_inv[OF sample_codec_ok mvcc_reachable_run[OF sample_reachable3
    mvcc_run_single[OF mvcc_step.Rollback[OF insertI2[OF singletonI] sample_rollback]]]]

theorem commit_publishes_witness:
  "fst (txn_commit memory_ops sample_st1 sample_m3) = Ok () \<and> fst (txn_get memory_ops sample_codec sample_st1 [7] sample_m3) = Ok (Some [42]) \<and>
   fst (txn_get memory_ops sample_codec \<lparr>txn_version = 3, read_only = False, active = {2}\<rparr> [7]
     (begin_store sample_codec sample_m4)) = Ok (Some [42])"
  unfolding sample_commit fst_conv
  by (rule commit_publishes[OF mem.engine_axioms sample_codec_ok sample_reachable3 _ _ _ sample_commit])
    (simp_all add: sample_st1_def sample_m3_simps begin_mem[OF sample_inv4(3)] sample_m4_simps)

theorem rollback_undoes_witness:
  "fst (txn_rollback memory_ops sample_st1 sample_m3) = Ok () \<and> written sample_codec sample_m5 [7] (txn_version sample_st1) = None \<and>
   fst (txn_get memory_ops sample_codec \<lparr>txn_version = 3, read_only = False, active = {2}\<rparr> [7]
     (begin_store sample_codec sample_m5)) =
   fst (txn_get memory_ops sample_codec \<lparr>txn_version = 3, read_only = False, active = {1, 2}\<rparr> [7]
     (begin_store sample_codec sample_m3))"
  unfolding sample_rollback fst_conv
  by (rule rollback_undoes[OF mem.engine_axioms sample_codec_ok sample_reachable3 _ _ _ sample_rollback])
    (simp_all add: sample_st1_def begin_mem[OF sample_inv3(3)] begin_mem[OF sample_inv5(3)]
      sample_m3_simps sample_m5_simps)

end
