(* ===== verification/Mvcc_Scan.thy ===== *)
theory Mvcc_Scan
  imports Mvcc_Properties
begin

text \<open>
  Scans of a transaction: the engine ranges they use, the buffered iterator, and what it yields while
  other transactions run between its batches.
\<close>

section \<open>Ranges of versions\<close>

text \<open>An engine range that holds the versions of the user keys in \<open>P\<close> and nothing else.\<close>

definition selects :: "key_range \<Rightarrow> (bytes \<Rightarrow> bool) \<Rightarrow> bool" where
  "selects er P \<longleftrightarrow> range_valid er \<and>
     (\<forall>K. in_range er (encode_key K) \<longleftrightarrow> (\<exists>k w. K = Version k w \<and> P k))"

lemma unversioned_prefix_less: "encode_key K < encode_prefix PUnversioned \<longleftrightarrow> (\<forall>k. K \<noteq> Unversioned k)"
  by (cases K) (auto simp: encode_prefix_simps encode_key_bytes)

lemma version_le_unversioned: "encode_key (Version k w) \<le> encode_prefix PUnversioned"
  by (rule less_imp_le) (simp add: unversioned_prefix_less)

lemma version_bounds_less:
  "encode_key (Version k u64_max) < encode_key K \<longleftrightarrow> (case K of Version k' w \<Rightarrow> k < k' | Unversioned _ \<Rightarrow> True | _ \<Rightarrow> False)"
  "encode_key K < encode_key (Version k 0) \<longleftrightarrow> (case K of Version k' w \<Rightarrow> k' < k | Unversioned _ \<Rightarrow> False | _ \<Rightarrow> True)"
  by (cases K; simp add: encode_key_less index_less_def)+

lemma version_bounds_le:
  "encode_key (Version k 0) \<le> encode_key K \<longleftrightarrow> (case K of Version k' w \<Rightarrow> k \<le> k' | Unversioned _ \<Rightarrow> True | _ \<Rightarrow> False)"
  "encode_key K \<le> encode_key (Version k u64_max) \<longleftrightarrow> (case K of Version k' w \<Rightarrow> k' \<le> k | Unversioned _ \<Rightarrow> False | _ \<Rightarrow> True)"
  unfolding encode_key_le version_bounds_less by (cases K; simp add: not_less)+

lemmas version_bounds = version_bounds_less version_bounds_le

lemma scan_selects:
  assumes "range_valid r"
  shows "\<exists>er. remainder (txn_scan st r) = Some er \<and> selects er (in_range r)"
  using assms
  by (cases "fst r"; cases "snd r"; cases r)
    (auto simp: txn_scan_def scan_iterator_new_def selects_def in_range_def version_bounds
      unversioned_prefix_less version_le_unversioned split: mvcc_key.splits)

lemma esc_all_prefix: "prefix (esc_all p) (esc_all k @ 0 # 0 # r) \<longleftrightarrow> prefix p k"
proof (induction p arbitrary: k)
  case (Cons b p)
  show ?case
  proof (cases k)
    case Nil
    then show ?thesis by simp
  next
    case (Cons c k')
    with Cons.IH[of k'] show ?thesis by (cases "b = 0"; cases "c = 0") auto
  qed
qed simp

lemma scan_prefix_selects:
  "\<exists>er. remainder (txn_scan_prefix st p) = Some er \<and> selects er (prefix p)"
proof -
  let ?q = "4 # esc_all p"
  have q: "take (length (encode_prefix (PVersion p)) - 2) (encode_prefix (PVersion p)) = ?q"
    by (simp add: encode_prefix_simps bytes_enc_def)
  have "prefix ?q (encode_key K) \<longleftrightarrow> (\<exists>k w. K = Version k w \<and> prefix p k)" for K
    by (cases K) (auto simp: encode_key_bytes bytes_enc_def esc_all_prefix)
  then show ?thesis
    by (simp add: txn_scan_prefix_def scan_iterator_new_def selects_def q in_prefix_range)
qed

section \<open>Rows\<close>

text \<open>The visible versions in an engine range, in key order, with the stored bytes.\<close>

definition version_row :: "transaction_state \<Rightarrow> bytes \<times> bytes \<Rightarrow> (bytes \<times> u64 \<times> bytes) list" where
  "version_row st x = (case decode_key (fst x) of
     Ok (Version k w) \<Rightarrow> if is_visible st w then [(k, w, snd x)] else [] | _ \<Rightarrow> [])"

definition rows :: "transaction_state \<Rightarrow> memory \<Rightarrow> key_range \<Rightarrow> (bytes \<times> u64 \<times> bytes) list" where
  "rows st m er = concat (map (version_row st) (filter (\<lambda>x. in_range er (fst x)) m))"

definition row_key :: "bytes \<times> u64 \<times> bytes \<Rightarrow> bytes" where
  "row_key x = encode_key (Version (fst x) (fst (snd x)))"

lemma version_iterator_rows:
  assumes "\<forall>x\<in>set M. \<exists>k w. fst x = encode_key (Version k w)"
  shows "version_iterator st (map Ok M) = map Ok (concat (map (version_row st) M))"
  using assms by (induction M) (auto simp: version_row_def)

lemma rows_version_iterator:
  assumes "mvcc_store m" "selects er P"
  shows "version_iterator st (map Ok (filter (\<lambda>x. in_range er (fst x)) m)) = map Ok (rows st m er)"
  unfolding rows_def using assms
  by (intro version_iterator_rows) (fastforce simp: mvcc_store_def selects_def)

lemma version_row_key: "mvcc_store m \<Longrightarrow> x \<in> set m \<Longrightarrow> y \<in> set (version_row st x) \<Longrightarrow> row_key y = fst x"
  by (fastforce simp: version_row_def row_key_def mvcc_store_def split: result.splits mvcc_key.splits if_splits)

lemma sorted_rows:
  assumes "mvcc_store m"
  shows "sorted_wrt (\<lambda>x y. row_key x < row_key y) (rows st m er)"
proof -
  have "sorted_wrt (\<lambda>x y. row_key x < row_key y) (concat (map (version_row st) M))"
    if "ordered M" "set M \<subseteq> set m" for M
    using that
  proof (induction M)
    case (Cons x M)
    have "sorted_wrt (\<lambda>x y. row_key x < row_key y) (version_row st x)"
      by (simp add: version_row_def split: result.split mvcc_key.split)
    moreover have "row_key y < row_key z"
      if y: "y \<in> set (version_row st x)" and z: "z \<in> set (concat (map (version_row st) M))" for y z
    proof -
      obtain x' where "x' \<in> set M" "z \<in> set (version_row st x')" using z by auto
      then show ?thesis
        using y Cons.prems version_row_key[OF assms, of x y st] version_row_key[OF assms, of x' z st] by auto
    qed
    ultimately show ?case using Cons by (auto simp: sorted_wrt_append)
  qed simp
  then show ?thesis unfolding rows_def using assms by (auto simp: mvcc_store_def)
qed

lemma set_rows:
  assumes "mvcc_store m"
  shows "(k, w, b) \<in> set (rows st m er) \<longleftrightarrow>
    in_range er (encode_key (Version k w)) \<and> is_visible st w \<and> kv m (Version k w) = Some b"
proof -
  have "(k, w, b) \<in> set (version_row st x) \<longleftrightarrow> x = (encode_key (Version k w), b) \<and> is_visible st w"
    if x: "x \<in> set m" for x
  proof -
    obtain K where "fst x = encode_key K" using x assms by (auto simp: mvcc_store_def)
    then show ?thesis by (cases K; cases x) (auto simp: version_row_def)
  qed
  moreover have "kv m (Version k w) = Some b \<longleftrightarrow> (encode_key (Version k w), b) \<in> set m"
    using assms ordered_map_of_iff[of m] by (simp add: mvcc_store_def kv_def)
  ultimately show ?thesis unfolding rows_def by auto
qed

section \<open>The latest versions\<close>

type_synonym row = "bytes \<times> u64 \<times> bytes option"

text \<open>Of consecutive rows of one key the last one counts, and a tombstone yields nothing.\<close>

fun latest_rows :: "row list \<Rightarrow> (bytes \<times> bytes) list" where
  "latest_rows [] = []"
| "latest_rows ((k, w, x) # rs) =
     (if rs \<noteq> [] \<and> fst (hd rs) = k then latest_rows rs
      else case x of Some v \<Rightarrow> (k, v) # latest_rows rs | None \<Rightarrow> latest_rows rs)"

definition decode_row :: "mvcc_codec \<Rightarrow> bytes \<times> u64 \<times> bytes \<Rightarrow> row" where
  "decode_row bc x = (fst x, fst (snd x),
     case decode (value_codec bc) (snd (snd x)) of Ok v \<Rightarrow> v | _ \<Rightarrow> None)"

abbreviation decode_rows :: "mvcc_codec \<Rightarrow> (bytes \<times> u64 \<times> bytes) list \<Rightarrow> row list" where
  "decode_rows bc \<equiv> map (decode_row bc)"

lemma fst_decode_row [simp]: "fst (decode_row bc x) = fst x" "fst (snd (decode_row bc x)) = fst (snd x)"
  by (simp_all add: decode_row_def)

text \<open>Filling the buffer takes the latest rows of a prefix of the rows, and remembers where the rest
  begins.\<close>

definition rest_range :: "bytes bound \<Rightarrow> (bytes \<times> u64 \<times> bytes) list \<Rightarrow> key_range option" where
  "rest_range e suf = (case suf of [] \<Rightarrow> None | x # _ \<Rightarrow> Some (Included (row_key x), e))"

lemma peek_rows [simp]:
  "peek_remainder e (map Ok raw) = Ok (rest_range e raw)"
  "peek_same_key k (map Ok raw) = Ok (raw \<noteq> [] \<and> fst (hd raw) = k)"
  by (cases raw; simp add: peek_remainder_def peek_same_key_def rest_range_def row_key_def split: prod.split)+

lemma fill_buffer_loop_rows:
  assumes "\<forall>x\<in>set raw. \<exists>v. decode (value_codec bc) (snd (snd x)) = Ok v" "length buf < n"
  shows "\<exists>pre suf. raw = pre @ suf \<and>
    latest_rows (decode_rows bc raw) = latest_rows (decode_rows bc pre) @ latest_rows (decode_rows bc suf) \<and>
    fill_buffer_loop n bc e (map Ok raw) buf =
      (Ok (rest_range e suf), buf @ latest_rows (decode_rows bc pre)) \<and>
    (suf \<noteq> [] \<longrightarrow> latest_rows (decode_rows bc pre) \<noteq> [])"
  using assms
proof (induction raw arbitrary: buf)
  case Nil
  then show ?case by (simp add: rest_range_def)
next
  case (Cons x raw)
  obtain k w b where x: "x = (k, w, b)" by (cases x) auto
  obtain v where v: "decode (value_codec bc) b = Ok v" using Cons.prems(1) x by auto
  have dec: "\<forall>x\<in>set raw. \<exists>v. decode (value_codec bc) (snd (snd x)) = Ok v" using Cons.prems(1) by simp
  have dx: "decode_row bc x = (k, w, v)" "decode_row bc (k, w, b) = (k, w, v)"
    by (simp_all add: decode_row_def x v)
  have skip: ?case if step: "\<And>pre suf. raw = pre @ suf \<Longrightarrow> (suf \<noteq> [] \<longrightarrow> latest_rows (decode_rows bc pre) \<noteq> []) \<Longrightarrow>
      latest_rows (decode_rows bc (x # pre)) = latest_rows (decode_rows bc pre)"
    "latest_rows (decode_rows bc (x # raw)) = latest_rows (decode_rows bc raw)"
    "fill_buffer_loop n bc e (map Ok (x # raw)) buf = fill_buffer_loop n bc e (map Ok raw) buf"
  proof -
    obtain pre suf where ps: "raw = pre @ suf"
      "latest_rows (decode_rows bc raw) = latest_rows (decode_rows bc pre) @ latest_rows (decode_rows bc suf)"
      "fill_buffer_loop n bc e (map Ok raw) buf = (Ok (rest_range e suf), buf @ latest_rows (decode_rows bc pre))"
      "suf \<noteq> [] \<longrightarrow> latest_rows (decode_rows bc pre) \<noteq> []"
      using Cons.IH[of buf, OF dec Cons.prems(2)] by blast
    show ?case
      using ps step(1)[OF ps(1,4)] step(2,3) by (intro exI[of _ "x # pre"] exI[of _ suf]) simp
  qed
  consider (same) "raw \<noteq> []" "fst (hd raw) = k" | (none) "\<not> (raw \<noteq> [] \<and> fst (hd raw) = k)" "v = None"
    | (some) y where "\<not> (raw \<noteq> [] \<and> fst (hd raw) = k)" "v = Some y" by (cases v) auto
  then show ?case
  proof cases
    case same
    then have hd: "decode_rows bc raw \<noteq> []" "fst (hd (decode_rows bc raw)) = k" by (auto simp: hd_map)
    show ?thesis
    proof (rule skip)
      show "latest_rows (decode_rows bc (x # pre)) = latest_rows (decode_rows bc pre)"
        if "raw = pre @ suf" "suf \<noteq> [] \<longrightarrow> latest_rows (decode_rows bc pre) \<noteq> []" for pre suf
        using that same by (cases pre) (auto simp: dx)
    qed (use same hd in \<open>simp_all add: dx x v\<close>)
  next
    case none
    show ?thesis
    proof (rule skip)
      show "latest_rows (decode_rows bc (x # pre)) = latest_rows (decode_rows bc pre)"
        if "raw = pre @ suf" "suf \<noteq> [] \<longrightarrow> latest_rows (decode_rows bc pre) \<noteq> []" for pre suf
        using that none by (cases pre) (auto simp: dx)
    qed (use none in \<open>auto simp: dx x v hd_map\<close>)
  next
    case some
    have latest: "latest_rows (decode_rows bc (x # raw)) = (k, y) # latest_rows (decode_rows bc raw)"
      using some by (auto simp: dx hd_map)
    show ?thesis
    proof (cases "length buf + 1 = n")
      case True
      show ?thesis
        by (rule exI[of _ "[x]"], rule exI[of _ raw]) (use latest some True in \<open>auto simp: dx x v\<close>)
    next
      case False
      then have room: "length (buf @ [(k, y)]) < n" using Cons.prems(2) by simp
      obtain pre suf where ps: "raw = pre @ suf"
        "latest_rows (decode_rows bc raw) = latest_rows (decode_rows bc pre) @ latest_rows (decode_rows bc suf)"
        "fill_buffer_loop n bc e (map Ok raw) (buf @ [(k, y)]) =
          (Ok (rest_range e suf), (buf @ [(k, y)]) @ latest_rows (decode_rows bc pre))"
        using Cons.IH[of "buf @ [(k, y)]", OF dec room] by blast
      have "latest_rows (decode_rows bc (x # pre)) = (k, y) # latest_rows (decode_rows bc pre)"
        using some ps(1) by (cases pre) (auto simp: dx)
      moreover have "fill_buffer_loop n bc e (map Ok (x # raw)) buf =
          fill_buffer_loop n bc e (map Ok raw) (buf @ [(k, y)])"
        using some False by (auto simp: x v)
      ultimately show ?thesis
        using latest ps(2,3) by (intro exI[of _ "x # pre"] exI[of _ suf] conjI)
          (simp_all only: ps(1) append_Cons append.assoc append_Nil simp_thms list.distinct)
    qed
  qed
qed

section \<open>The iterator\<close>

definition version_range :: "key_range \<Rightarrow> bool" where
  "version_range er \<longleftrightarrow> range_valid er \<and> (\<forall>K. in_range er (encode_key K) \<longrightarrow> (\<exists>k w. K = Version k w))"

lemma selects_version_range: "selects er P \<Longrightarrow> version_range er"
  by (auto simp: selects_def version_range_def)

text \<open>What an iterator still has to yield on a store.\<close>

definition pending :: "mvcc_codec \<Rightarrow> memory \<Rightarrow> scan_iterator \<Rightarrow> (bytes \<times> bytes) list" where
  "pending bc m it = buffer it @ (case remainder it of
     None \<Rightarrow> [] | Some er \<Rightarrow> latest_rows (decode_rows bc (rows (scan_txn it) m er)))"

definition iter_ok :: "scan_iterator \<Rightarrow> bool" where
  "iter_ok it \<longleftrightarrow> (case remainder it of None \<Rightarrow> True | Some er \<Rightarrow> version_range er)"

lemma rows_subrange:
  assumes "mvcc_store m" "\<And>k. in_range er' k \<longleftrightarrow> in_range er k \<and> Q k"
  shows "rows st m er' = filter (\<lambda>y. Q (row_key y)) (rows st m er)"
proof -
  have "concat (map (version_row st) (filter (\<lambda>x. in_range er' (fst x)) M)) =
      filter (\<lambda>y. Q (row_key y)) (concat (map (version_row st) (filter (\<lambda>x. in_range er (fst x)) M)))"
    if "set M \<subseteq> set m" for M
    using that
  proof (induction M)
    case (Cons x M)
    have "\<forall>y\<in>set (version_row st x). row_key y = fst x" using version_row_key[OF assms(1)] Cons.prems by auto
    then have "filter (\<lambda>y. Q (row_key y)) (version_row st x) = (if Q (fst x) then version_row st x else [])"
      by (induction "version_row st x") (auto simp: filter_id_conv filter_empty_conv)
    then show ?case using Cons assms(2) by auto
  qed simp
  then show ?thesis unfolding rows_def by simp
qed

lemma rows_rest:
  assumes "mvcc_store m" "rows st m er = pre @ x # suf"
  shows "rows st m (Included (row_key x), snd er) = x # suf"
    "version_range er \<Longrightarrow> version_range (Included (row_key x), snd er)"
proof -
  have sorted: "sorted_wrt (\<lambda>x y. row_key x < row_key y) (pre @ x # suf)"
    using sorted_rows[OF assms(1), of st er] assms(2) by simp
  obtain k w b where kwb: "x = (k, w, b)" by (cases x) auto
  then have "(k, w, b) \<in> set (rows st m er)" using assms(2) by simp
  then have x: "in_range er (row_key x)"
    using set_rows[OF assms(1), of k w b st er] by (simp add: row_key_def kwb)
  have sub: "in_range (Included (row_key x), snd er) k \<longleftrightarrow> in_range er k \<and> row_key x \<le> k" for k
    using x by (cases "fst er") (auto simp: in_range_def)
  have "filter (\<lambda>y. row_key x \<le> row_key y) (pre @ x # suf) = x # suf"
    using sorted by (auto simp: sorted_wrt_append filter_empty_conv filter_id_conv not_le less_imp_le)
  then show "rows st m (Included (row_key x), snd er) = x # suf"
    using rows_subrange[OF assms(1) sub] assms(2) by simp
  show "version_range (Included (row_key x), snd er)" if "version_range er"
    using that x sub by (cases "snd er") (auto simp: version_range_def in_range_def)
qed

lemma rows_decode:
  assumes "mvcc_store m" "decodable bc m" "x \<in> set (rows st m er)"
  shows "\<exists>v. decode (value_codec bc) (snd (snd x)) = Ok v"
proof -
  obtain k w b where x: "x = (k, w, b)" by (cases x) auto
  then have kv: "kv m (Version k w) = Some b" using assms(1,3) set_rows by blast
  moreover obtain v where "written bc m k w = Some v"
    using kv assms(2) unfolding decodable_def by (metis not_Some_eq)
  ultimately show ?thesis using x by (auto simp: written_def stored_Some)
qed

lemma next_mem:
  assumes m: "mvcc_store m" "decodable bc m" and it: "iter_ok it" and n: "0 < n"
  shows "\<exists>it'. scan_iterator_next memory_ops n bc it m =
      (Ok (case pending bc m it of [] \<Rightarrow> None | x # _ \<Rightarrow> Some (Ok x), it'), m) \<and>
    iter_ok it' \<and> scan_txn it' = scan_txn it \<and> pending bc m it' = tl (pending bc m it)"
proof (cases "buffer it = [] \<and> remainder it \<noteq> None")
  case False
  then show ?thesis
    using it n by (cases "buffer it"; cases "remainder it")
      (auto simp: scan_iterator_next_def fill_buffer_def sbind_def sret_def pending_def iter_ok_def)
next
  case True
  then obtain er where er: "remainder it = Some er" and buf: "buffer it = []" by auto
  have vr: "version_range er" using it er by (simp add: iter_ok_def)
  let ?st = "scan_txn it"
  let ?raw = "rows ?st m er"
  have iter: "version_iterator ?st (map Ok (filter (\<lambda>x. in_range er (fst x)) m)) = map Ok ?raw"
    using m(1) vr unfolding rows_def by (intro version_iterator_rows) (fastforce simp: mvcc_store_def version_range_def)
  have dec: "\<forall>x\<in>set ?raw. \<exists>v. decode (value_codec bc) (snd (snd x)) = Ok v"
    using rows_decode[OF m] by blast
  have room: "length ([] :: (bytes \<times> bytes) list) < n" using n by simp
  obtain pre suf where ps: "?raw = pre @ suf"
    "latest_rows (decode_rows bc ?raw) = latest_rows (decode_rows bc pre) @ latest_rows (decode_rows bc suf)"
    "fill_buffer_loop n bc (snd er) (map Ok ?raw) [] = (Ok (rest_range (snd er) suf), [] @ latest_rows (decode_rows bc pre))"
    "suf \<noteq> [] \<longrightarrow> latest_rows (decode_rows bc pre) \<noteq> []"
    using fill_buffer_loop_rows[OF dec room] by blast
  let ?it = "it\<lparr>buffer := latest_rows (decode_rows bc pre), remainder := rest_range (snd er) suf\<rparr>"
  have fill: "fill_buffer memory_ops n bc it m = (Ok (Ok (), ?it), m)"
    using vr n er buf iter ps(3)
    by (simp add: fill_buffer_def sbind_def sret_def mem_simps btree_range_def version_range_def)
  have rest: "(case rest_range (snd er) suf of None \<Rightarrow> [] | Some er' \<Rightarrow> latest_rows (decode_rows bc (rows ?st m er'))) =
      latest_rows (decode_rows bc suf)" "(case rest_range (snd er) suf of None \<Rightarrow> True | Some er' \<Rightarrow> version_range er')"
    using rows_rest[OF m(1), of ?st er pre] ps(1) vr by (cases suf; auto simp: rest_range_def)+
  have pend: "pending bc m it = latest_rows (decode_rows bc pre) @ latest_rows (decode_rows bc suf)"
    using er buf ps(2) by (simp add: pending_def)
  show ?thesis
    using fill buf rest pend ps(4)
    by (cases "latest_rows (decode_rows bc pre)"; cases suf)
      (auto simp: scan_iterator_next_def sbind_def sret_def pending_def iter_ok_def cong: option.case_cong)
qed

section \<open>What a scan yields\<close>

lemma sorted_wrt_unique:
  fixes f :: "'a \<Rightarrow> 'b::linorder"
  assumes "sorted_wrt (\<lambda>x y. f x < f y) xs" "sorted_wrt (\<lambda>x y. f x < f y) ys" "set xs = set ys"
  shows "xs = ys"
proof -
  have s: "sorted_wrt (<) (map f xs)" "sorted_wrt (<) (map f ys)"
    using assms(1,2) by (simp_all add: sorted_wrt_map)
  have "map f xs = map f ys"
    by (rule strict_sorted_equal[OF s(2,1)]) (simp add: assms(3))
  moreover have "inj_on f (set xs)" using s(1) by (simp add: strict_sorted_iff distinct_map)
  ultimately show ?thesis by (metis assms(3) map_inj_on sup.idem)
qed

definition drow_key :: "row \<Rightarrow> bytes" where
  "drow_key x = encode_key (Version (fst x) (fst (snd x)))"

lemma sorted_decode_rows:
  "mvcc_store m \<Longrightarrow> sorted_wrt (\<lambda>x y. drow_key x < drow_key y) (decode_rows bc (rows st m er))"
  using sorted_rows by (simp add: sorted_wrt_map drow_key_def row_key_def[symmetric])

lemma set_decode_rows:
  assumes "mvcc_store m" "decodable bc m"
  shows "(k, w, x) \<in> set (decode_rows bc (rows st m er)) \<longleftrightarrow>
    in_range er (encode_key (Version k w)) \<and> is_visible st w \<and> written bc m k w = Some x"
proof -
  have "(k, w, x) \<in> set (decode_rows bc (rows st m er)) \<longleftrightarrow>
      (\<exists>b. (k, w, b) \<in> set (rows st m er) \<and> decode (value_codec bc) b = Ok x)"
  proof
    assume "(k, w, x) \<in> set (decode_rows bc (rows st m er))"
    then obtain b where b: "(k, w, b) \<in> set (rows st m er)" "decode_row bc (k, w, b) = (k, w, x)"
      by (auto simp: decode_row_def)
    moreover obtain v where "decode (value_codec bc) b = Ok v" using rows_decode[OF assms b(1)] by auto
    ultimately show "\<exists>b. (k, w, b) \<in> set (rows st m er) \<and> decode (value_codec bc) b = Ok x"
      by (auto simp: decode_row_def)
  next
    assume "\<exists>b. (k, w, b) \<in> set (rows st m er) \<and> decode (value_codec bc) b = Ok x"
    then obtain b where b: "(k, w, b) \<in> set (rows st m er)" "decode (value_codec bc) b = Ok x" by auto
    then have "decode_row bc (k, w, b) = (k, w, x)" by (simp add: decode_row_def)
    then show "(k, w, x) \<in> set (decode_rows bc (rows st m er))"
      using b(1) by (metis image_eqI list.set_map)
  qed
  then show ?thesis
    unfolding set_rows[OF assms(1)] by (auto simp: written_def stored_def split: option.splits result.splits)
qed

lemma decode_rows_same_view:
  assumes "mvcc_store m" "decodable bc m" "mvcc_store m'" "decodable bc m'" "same_view bc st m m'"
  shows "decode_rows bc (rows st m' er) = decode_rows bc (rows st m er)"
proof (rule sorted_wrt_unique[of drow_key])
  show "set (decode_rows bc (rows st m' er)) = set (decode_rows bc (rows st m er))"
  proof (rule set_eqI)
    fix y :: row obtain k w x where y: "y = (k, w, x)" by (cases y) auto
    show "y \<in> set (decode_rows bc (rows st m' er)) \<longleftrightarrow> y \<in> set (decode_rows bc (rows st m er))"
      unfolding y set_decode_rows[OF assms(1,2)] set_decode_rows[OF assms(3,4)]
      using assms(5) by (auto simp: same_view_def)
  qed
qed (use assms sorted_decode_rows in auto)

lemma pending_same_view:
  assumes "mvcc_store m" "decodable bc m" "mvcc_store m'" "decodable bc m'" "same_view bc (scan_txn it) m m'"
  shows "pending bc m' it = pending bc m it"
  using decode_rows_same_view[OF assms] by (simp add: pending_def split: option.split)

lemma latest_rows_keys: "(a, b) \<in> set (latest_rows rs) \<Longrightarrow> a \<in> fst ` set rs"
  by (induction rs rule: latest_rows.induct) (auto split: option.splits if_splits)

definition sorted_drows :: "row list \<Rightarrow> bool" where
  "sorted_drows = sorted_wrt (\<lambda>x y. drow_key x < drow_key y)"

lemma sorted_drows_Cons:
  assumes "sorted_drows ((k, w, x) # rs)"
  shows "sorted_drows rs" "(k', w', x') \<in> set rs \<Longrightarrow> k < k' \<or> k = k' \<and> w < w'"
  using assms by (auto simp: sorted_drows_def drow_key_def version_key_less)

lemma sorted_drows_above:
  assumes "sorted_drows ((k, w, x) # rs)" "\<not> (rs \<noteq> [] \<and> fst (hd rs) = k)" "k' \<in> fst ` set rs"
  shows "k < k'"
proof -
  obtain k1 w1 x1 rs' where rs: "rs = (k1, w1, x1) # rs'"
    using assms(3) by (cases rs) auto
  have "k < k1" using sorted_drows_Cons(2)[OF assms(1), of k1 w1 x1] assms(2) rs by auto
  moreover have "k1 \<le> k'"
    using sorted_drows_Cons(2)[OF sorted_drows_Cons(1)[OF assms(1), unfolded rs]] assms(3) rs by fastforce
  ultimately show ?thesis by simp
qed

lemma ordered_latest_rows: "sorted_drows rs \<Longrightarrow> ordered (latest_rows rs)"
proof (induction rs rule: latest_rows.induct)
  case (2 k w x rs)
  have s: "sorted_drows rs" by (rule sorted_drows_Cons(1)[OF 2(4)])
  show ?case
  proof (cases "rs \<noteq> [] \<and> fst (hd rs) = k")
    case True
    then show ?thesis using 2(1) s by simp
  next
    case False
    then have "\<forall>p\<in>set (latest_rows rs). k < fst p"
      using sorted_drows_above[OF 2(4) False] latest_rows_keys by fastforce
    then show ?thesis using False 2(2,3) s by (auto split: option.split)
  qed
qed simp

lemma map_of_latest_rows_None: "k \<notin> fst ` set rs \<Longrightarrow> map_of (latest_rows rs) k = None"
  using latest_rows_keys by (fastforce simp: map_of_eq_None_iff)

lemma map_of_latest_rows:
  assumes "sorted_drows rs" "(k, w, x) \<in> set rs" "\<forall>w' x'. (k, w', x') \<in> set rs \<longrightarrow> w' \<le> w"
  shows "map_of (latest_rows rs) k = x"
  using assms
proof (induction rs)
  case (Cons r rs)
  obtain k' w' x' where r: "r = (k', w', x')" by (cases r) auto
  note srt = Cons.prems(1)[unfolded r]
  show ?case
  proof (cases "(k, w, x) \<in> set rs")
    case True
    then have IH: "map_of (latest_rows rs) k = x"
      using Cons sorted_drows_Cons(1)[OF srt] by auto
    have "k' \<noteq> k" if "\<not> (rs \<noteq> [] \<and> fst (hd rs) = k')"
      using sorted_drows_above[OF srt that, of k] True by force
    then show ?thesis using IH by (auto simp: r split: option.split)
  next
    case False
    then have eq: "k' = k" "w' = w" "x' = x" using Cons.prems(2) r by auto
    have notin: "k \<notin> fst ` set rs"
    proof
      assume "k \<in> fst ` set rs"
      then obtain v y where vy: "(k, v, y) \<in> set rs" by force
      then have "w < v" using sorted_drows_Cons(2)[OF srt vy] eq by auto
      moreover have "v \<le> w" using Cons.prems(3) vy by auto
      ultimately show False by simp
    qed
    then have "\<not> (rs \<noteq> [] \<and> fst (hd rs) = k)" by auto
    then show ?thesis
      using map_of_latest_rows_None[OF notin] by (auto simp: r eq split: option.split)
  qed
qed simp

lemma latest_rows_reads:
  assumes "mvcc_store m" "decodable bc m" "selects er P"
  shows "ordered (latest_rows (decode_rows bc (rows st m er)))"
    "map_of (latest_rows (decode_rows bc (rows st m er))) k = (if P k then txn_reads bc st m k else None)"
proof -
  let ?rs = "decode_rows bc (rows st m er)"
  have srt: "sorted_drows ?rs" using sorted_decode_rows[OF assms(1)] by (simp add: sorted_drows_def)
  then show "ordered (latest_rows ?rs)" by (rule ordered_latest_rows)
  have mem: "(k, w, x) \<in> set ?rs \<longleftrightarrow> P k \<and> is_visible st w \<and> written bc m k w = Some x" for w x
    unfolding set_decode_rows[OF assms(1,2)] using assms(3) by (auto simp: selects_def)
  show "map_of (latest_rows ?rs) k = (if P k then txn_reads bc st m k else None)"
  proof (cases "P k \<and> visible_versions st (written bc m k) \<noteq> {}")
    case True
    let ?w = "Max (visible_versions st (written bc m k))"
    have "?w \<in> visible_versions st (written bc m k)" using True by (intro Max_in) auto
    then obtain x where x: "is_visible st ?w" "written bc m k ?w = Some x"
      by (auto simp: visible_versions_def)
    have "w' \<le> ?w" if "(k, w', x') \<in> set ?rs" for w' x'
      using that mem by (intro Max_ge) (auto simp: visible_versions_def)
    then have "map_of (latest_rows ?rs) k = x"
      using mem x True by (intro map_of_latest_rows[OF srt]) auto
    moreover have "txn_reads bc st m k = x" using True x by (simp add: txn_reads_def latest_visible_def)
    ultimately show ?thesis using True by simp
  next
    case False
    have "k \<notin> fst ` set ?rs"
    proof
      assume "k \<in> fst ` set ?rs"
      then obtain w x where "(k, w, x) \<in> set ?rs" by force
      then show False using mem[of w x] False by (simp add: visible_versions_def) (metis option.distinct(1))
    qed
    moreover have "txn_reads bc st m k = None" if "P k"
      using that False by (auto simp: txn_reads_def latest_visible_def)
    ultimately show ?thesis using map_of_latest_rows_None by auto
  qed
qed

section \<open>Scans among other transactions\<close>

text \<open>A scan in progress: the client pulls items one by one, and between two pulls other transactions
  run. \<open>out\<close> collects what the pulls returned.\<close>

inductive scan_run :: "'e engine_ops \<Rightarrow> nat \<Rightarrow> mvcc_codec \<Rightarrow> 'e \<times> transaction_state set \<times> scan_iterator \<Rightarrow>
    (bytes \<times> bytes) result option list \<Rightarrow> 'e \<times> transaction_state set \<times> scan_iterator \<Rightarrow> bool" for ops n bc c where
  Start: "scan_run ops n bc c [] c"
| Other: "scan_run ops n bc c out (e, T, it) \<Longrightarrow> mvcc_step ops bc (e, T) ev (e', T') \<Longrightarrow>
    actor ev \<noteq> Some (scan_txn it) \<Longrightarrow> scan_run ops n bc c out (e', T', it)"
| Next: "scan_run ops n bc c out (e, T, it) \<Longrightarrow> scan_iterator_next ops n bc it e = (Ok (item, it'), e') \<Longrightarrow>
    scan_run ops n bc c (out @ [item]) (e', T, it')"

definition scan_item :: "(bytes \<times> bytes) list \<Rightarrow> nat \<Rightarrow> (bytes \<times> bytes) result option" where
  "scan_item xs i = (if i < length xs then Some (Ok (xs ! i)) else None)"

definition scan_inv :: "mvcc_codec \<Rightarrow> transaction_state \<Rightarrow> (bytes \<times> bytes) list \<Rightarrow>
    (bytes \<times> bytes) result option list \<Rightarrow> memory \<times> transaction_state set \<times> scan_iterator \<Rightarrow> bool" where
  "scan_inv bc st xs out = (\<lambda>(m, T, it). sys_inv bc (m, T) \<and> scan_txn it = st \<and> st \<in> T \<and> iter_ok it \<and>
     pending bc m it = drop (length out) xs \<and> out = map (scan_item xs) [0..<length out])"

lemma scan_item_drop: "(case drop i xs of [] \<Rightarrow> None | x # _ \<Rightarrow> Some (Ok x)) = scan_item xs i"
  by (cases "i < length xs") (simp_all add: scan_item_def Cons_nth_drop_Suc[symmetric])

context engine
begin

lemma next_abst:
  assumes "invar e" "mvcc_inv bc (abst e)" "iter_ok it" "0 < n"
  shows "\<exists>it' e'. scan_iterator_next ops n bc it e =
      (Ok (case pending bc (abst e) it of [] \<Rightarrow> None | x # _ \<Rightarrow> Some (Ok x), it'), e') \<and>
    invar e' \<and> abst e' = abst e \<and> iter_ok it' \<and> scan_txn it' = scan_txn it \<and>
    pending bc (abst e) it' = tl (pending bc (abst e) it)"
proof -
  obtain it' where it': "scan_iterator_next memory_ops n bc it (abst e) =
      (Ok (case pending bc (abst e) it of [] \<Rightarrow> None | x # _ \<Rightarrow> Some (Ok x), it'), abst e)"
    "iter_ok it'" "scan_txn it' = scan_txn it" "pending bc (abst e) it' = tl (pending bc (abst e) it)"
    using next_mem[OF mvcc_invD(1,2)[OF assms(2)] assms(3,4)] by blast
  from simE[OF sim_scan_next assms(1) it'(1)] show ?thesis using it'(2-4) by blast
qed

lemma scan_run_inv:
  assumes "scan_run ops n bc (e0, T0, it0) out c" "codecs_ok bc" "0 < n" "invar e0"
    "scan_inv bc st xs [] (abst e0, T0, it0)"
  shows "invar (fst c) \<and> scan_inv bc st xs out (abst (fst c), snd c)"
  using assms(1,4,5)
proof (induction rule: scan_run.induct)
  case Start
  then show ?case by simp
next
  case (Other out e T it ev e' T')
  have inv: "invar e" "sys_inv bc (abst e, T)" "scan_txn it = st" "st \<in> T"
    and s: "scan_inv bc st xs out (abst e, T, it)" using Other by (auto simp: scan_inv_def)
  note step = step_abst[OF Other(2) inv(1)]
  note m = step_mem[OF assms(2) inv(2) step[THEN conjunct1]]
  have ok: "txn_ok bc (abst e) st" using inv(2,4) by (simp add: sys_inv_def)
  then have "preserves bc st (abst e) (abst e')" "st \<in> T'"
    using m(3)[of st] m(4)[of st] Other(3) inv(3,4) by (auto simp: bystander_def)
  moreover have "mvcc_inv bc (abst e)" "mvcc_inv bc (abst e')"
    using inv(2) m(1) by (simp_all add: sys_inv_def)
  ultimately have "pending bc (abst e') it = pending bc (abst e) it"
    using inv(3) by (intro pending_same_view) (auto simp: preserves_def dest: mvcc_invD)
  then show ?case using s m(1) step \<open>st \<in> T'\<close> by (simp add: scan_inv_def)
next
  case (Next out e T it item it' e')
  have inv: "invar e" "sys_inv bc (abst e, T)" "iter_ok it"
    and s: "scan_inv bc st xs out (abst e, T, it)" using Next by (auto simp: scan_inv_def)
  have "mvcc_inv bc (abst e)" using inv(2) by (simp add: sys_inv_def)
  from next_abst[OF inv(1) this inv(3) assms(3)] Next(2)
  have n: "item = (case pending bc (abst e) it of [] \<Rightarrow> None | x # _ \<Rightarrow> Some (Ok x))"
    "invar e'" "abst e' = abst e" "iter_ok it'" "scan_txn it' = scan_txn it"
    "pending bc (abst e) it' = tl (pending bc (abst e) it)"
    by auto
  have pend: "pending bc (abst e) it = drop (length out) xs" using s by (simp add: scan_inv_def)
  have "item = scan_item xs (length out)" unfolding n(1) pend by (rule scan_item_drop)
  moreover have "tl (drop (length out) xs) = drop (length (out @ [item])) xs" by (simp add: drop_Suc tl_drop)
  ultimately show ?case using s n(2-6) pend by (simp add: scan_inv_def)
qed

lemma scan_correct:
  assumes "codecs_ok bc" "0 < n" "mvcc_reachable ops invar abst bc e T" "st \<in> T"
    "scan_txn it = st" "buffer it = []" "remainder it = Some er" "selects er P"
    "scan_run ops n bc (e, T, it) out (e', T', it')"
  shows "\<exists>xs. ordered xs \<and> (\<forall>k. map_of xs k = (if P k then txn_reads bc st (abst e) k else None)) \<and>
    out = map (scan_item xs) [0..<length out] \<and>
    (\<exists>it''. fst (scan_iterator_next ops n bc it' e') = Ok (scan_item xs (length out), it''))"
proof -
  note r = reachable_inv[OF assms(1,3)]
  let ?xs = "latest_rows (decode_rows bc (rows st (abst e) er))"
  have "scan_inv bc st ?xs [] (abst e, T, it)"
    using r(2) assms(4-8) selects_version_range by (auto simp: scan_inv_def pending_def iter_ok_def)
  from scan_run_inv[OF assms(9,1,2) r(1) this]
  have s: "invar e'" "sys_inv bc (abst e', T')" "iter_ok it'" "pending bc (abst e') it' = drop (length out) ?xs"
    "out = map (scan_item ?xs) [0..<length out]"
    by (auto simp: scan_inv_def)
  have "mvcc_inv bc (abst e')" using s(2) by (simp add: sys_inv_def)
  from next_abst[OF s(1) this s(3) assms(2)]
  have "\<exists>it''. fst (scan_iterator_next ops n bc it' e') = Ok (scan_item ?xs (length out), it'')"
    unfolding s(4) scan_item_drop by auto
  then show ?thesis
    using s(5) latest_rows_reads[OF mvcc_invD(1,2)[OF r(3)] assms(8)] by blast
qed

end

section \<open>Properties\<close>

text \<open>C13 Range scans: a scan of a valid range yields, in key order, exactly the keys of the range at which
  the transaction reads a value, with that value, and then ends; a pull never fails. This holds for every
  buffer size, and although the engine is released between batches: whatever other transactions do between
  two pulls, the scan yields what it would have yielded when it began.\<close>
theorem scan_isolated:
  assumes "engine ops invar abst" and "codecs_ok bc" and "0 < n"
    and "mvcc_reachable ops invar abst bc e T" and "st \<in> T" and "range_valid r"
    and "scan_run ops n bc (e, T, txn_scan st r) out (e', T', it')"
  shows "\<exists>xs. ordered xs \<and>
    (\<forall>k. map_of xs k = (if in_range r k then txn_reads bc st (abst e) k else None)) \<and>
    out = map (scan_item xs) [0..<length out] \<and>
    (\<exists>it''. fst (scan_iterator_next ops n bc it' e') = Ok (scan_item xs (length out), it''))"
proof -
  obtain er where "remainder (txn_scan st r) = Some er" "selects er (in_range r)"
    using scan_selects[OF assms(6)] by blast
  then show ?thesis
    using engine.scan_correct[OF assms(1-5) _ _ _ _ assms(7)]
    by (simp add: txn_scan_def scan_iterator_new_def)
qed

text \<open>C14 Prefix scans yield, in key order, exactly the keys with the prefix at which the transaction reads a
  value, under the same conditions: the cut-off key prefix matches the user keys that begin with the given
  bytes and no others.\<close>
theorem scan_prefix_isolated:
  assumes "engine ops invar abst" and "codecs_ok bc" and "0 < n"
    and "mvcc_reachable ops invar abst bc e T" and "st \<in> T"
    and "scan_run ops n bc (e, T, txn_scan_prefix st p) out (e', T', it')"
  shows "\<exists>xs. ordered xs \<and>
    (\<forall>k. map_of xs k = (if prefix p k then txn_reads bc st (abst e) k else None)) \<and>
    out = map (scan_item xs) [0..<length out] \<and>
    (\<exists>it''. fst (scan_iterator_next ops n bc it' e') = Ok (scan_item xs (length out), it''))"
proof -
  obtain er where "remainder (txn_scan_prefix st p) = Some er" "selects er (prefix p)"
    using scan_prefix_selects by blast
  then show ?thesis
    using engine.scan_correct[OF assms(1-5) _ _ _ _ assms(6)]
    by (simp add: txn_scan_prefix_def scan_iterator_new_def Let_def)
qed

theorem scan_isolated_witness:
  "\<exists>xs. ordered xs \<and>
    (\<forall>k. map_of xs k = (if in_range (Unbounded, Unbounded) k then txn_reads sample_codec sample_st1 sample_m3 k else None)) \<and>
    [] = map (scan_item xs) [0..<length ([] :: (bytes \<times> bytes) result option list)] \<and>
    (\<exists>it''. fst (scan_iterator_next memory_ops BUFFER_SIZE sample_codec (txn_scan sample_st1 (Unbounded, Unbounded)) sample_m3) =
      Ok (scan_item xs (length ([] :: (bytes \<times> bytes) result option list)), it''))"
  by (rule scan_isolated[OF mem.engine_axioms sample_codec_ok _ sample_reachable3 _ _ scan_run.Start])
    (simp_all add: BUFFER_SIZE_def)

theorem scan_prefix_isolated_witness:
  "\<exists>xs. ordered xs \<and>
    (\<forall>k. map_of xs k = (if prefix [7] k then txn_reads sample_codec sample_st1 sample_m3 k else None)) \<and>
    [] = map (scan_item xs) [0..<length ([] :: (bytes \<times> bytes) result option list)] \<and>
    (\<exists>it''. fst (scan_iterator_next memory_ops BUFFER_SIZE sample_codec (txn_scan_prefix sample_st1 [7]) sample_m3) =
      Ok (scan_item xs (length ([] :: (bytes \<times> bytes) result option list)), it''))"
  by (rule scan_prefix_isolated[OF mem.engine_axioms sample_codec_ok _ sample_reachable3 _ scan_run.Start])
    (simp_all add: BUFFER_SIZE_def)

end
