(* ===== verification/Raft_Log.thy ===== *)
theory Raft_Log
  imports Memory Bincode
begin

text \<open>
  The Raft log of \<^verbatim>\<open>src/raft/log.rs\<close>: entries and metadata in a storage engine, with the current term
  and vote and the last and commit positions cached in memory. Indexes and terms are natural numbers;
  the addition that allocates an index checks the 64-bit bound. Every method of \<^verbatim>\<open>Log\<close> is an action on
  the log and takes the engine's operations and the Bincode codecs as arguments.
\<close>

section \<open>Entries and keys\<close>

type_synonym node_id = u8

record entry =
  e_index :: nat
  e_term :: nat
  e_command :: "bytes option"

datatype log_key = LEntry nat | LTermVote | LCommitIndex

fun log_key_sval :: "log_key \<Rightarrow> sval" where
  "log_key_sval (LEntry i) = SNewtypeVariant 0 (SU64 (of_nat i))"
| "log_key_sval LTermVote = SUnitVariant 1"
| "log_key_sval LCommitIndex = SUnitVariant 2"

definition encode_log_key :: "log_key \<Rightarrow> bytes" where
  "encode_log_key k = (case serialize (log_key_sval k) of Ok bs \<Rightarrow> bs | _ \<Rightarrow> [])"

record raft_codec =
  entry_codec :: "entry codec"
  term_vote_codec :: "(nat \<times> node_id option) codec"
  commit_codec :: "(nat \<times> nat) codec"

definition u64_limit :: nat where
  "u64_limit = 2 ^ 64"

definition u64_succ :: "nat \<Rightarrow> nat result" where
  "u64_succ n = (if n + 1 < u64_limit then Ok (n + 1) else Panic ''attempt to add with overflow'')"

section \<open>The log\<close>

record 'e raft_log =
  log_engine :: 'e
  log_term :: nat
  log_vote :: "node_id option"
  last_index :: nat
  last_term :: nat
  commit_index :: nat
  commit_term :: nat
  fsync :: bool

definition on_engine :: "('e, 'a) action \<Rightarrow> ('e raft_log, 'a) action" where
  "on_engine m l = (case m (log_engine l) of (r, e) \<Rightarrow> (r, l\<lparr>log_engine := e\<rparr>))"

definition update_log :: "('e raft_log \<Rightarrow> 'e raft_log) \<Rightarrow> ('e raft_log, unit) action" where
  "update_log f l = (Ok (), f l)"

definition read_log :: "('e raft_log \<Rightarrow> 'a) \<Rightarrow> ('e raft_log, 'a) action" where
  "read_log f l = (Ok (f l), l)"

definition decode_option :: "'a codec \<Rightarrow> 'a \<Rightarrow> bytes option \<Rightarrow> 'a result" where
  "decode_option c dflt v = (case v of Some b \<Rightarrow> decode c b | None \<Rightarrow> Ok dflt)"

definition log_new :: "'e engine_ops \<Rightarrow> raft_codec \<Rightarrow> 'e \<Rightarrow> 'e raft_log result \<times> 'e" where
  "log_new ops bc =
     sbind (eng_get ops (encode_log_key LTermVote)) (\<lambda>v.
     sbind (slift (decode_option (term_vote_codec bc) (0, None) v)) (\<lambda>(trm, vote).
     sbind (eng_scan ops (Included (encode_log_key (LEntry 0)),
        Included (encode_log_key (LEntry (u64_limit - 1))))) (\<lambda>scan.
     sbind (slift (if scan = [] then Ok (0, 0) else
        rbind (last scan) (\<lambda>(_, v). rmap (\<lambda>e. (e_index e, e_term e)) (decode (entry_codec bc) v)))) (\<lambda>(li, lt).
     sbind (eng_get ops (encode_log_key LCommitIndex)) (\<lambda>v.
     sbind (slift (decode_option (commit_codec bc) (0, 0) v)) (\<lambda>(ci, ct).
     (\<lambda>e. (Ok \<lparr>log_engine = e, log_term = trm, log_vote = vote, last_index = li, last_term = lt,
        commit_index = ci, commit_term = ct, fsync = True\<rparr>, e))))))))"

definition enable_fsync :: "bool \<Rightarrow> ('e raft_log, unit) action" where
  "enable_fsync b = update_log (fsync_update (\<lambda>_. b))"

definition get_commit_index :: "'e raft_log \<Rightarrow> nat \<times> nat" where
  "get_commit_index l = (commit_index l, commit_term l)"

definition get_last_index :: "'e raft_log \<Rightarrow> nat \<times> nat" where
  "get_last_index l = (last_index l, last_term l)"

definition get_term_vote :: "'e raft_log \<Rightarrow> nat \<times> node_id option" where
  "get_term_vote l = (log_term l, log_vote l)"

definition set_term_vote ::
    "'e engine_ops \<Rightarrow> raft_codec \<Rightarrow> nat \<Rightarrow> node_id option \<Rightarrow> ('e raft_log, unit) action" where
  "set_term_vote ops bc trm vote =
     sbind (read_log get_term_vote) (\<lambda>(self_term, self_vote).
     sbind (sassert (trm > 0) ''can't set term 0'') (\<lambda>_.
     sbind (sassert (trm \<ge> self_term) ''term regression'') (\<lambda>_.
     sbind (sassert (trm > self_term \<or> self_vote = None \<or> vote = self_vote) ''can't change vote'') (\<lambda>_.
     if trm = self_term \<and> vote = self_vote then sret ()
     else
       sbind (on_engine (eng_set ops (encode_log_key LTermVote) (encode (term_vote_codec bc) (trm, vote)))) (\<lambda>_.
       sbind (on_engine (eng_flush ops)) (\<lambda>_.
       sbind (update_log (log_term_update (\<lambda>_. trm))) (\<lambda>_.
       update_log (log_vote_update (\<lambda>_. vote)))))))))"

definition maybe_flush :: "'e engine_ops \<Rightarrow> ('e raft_log, unit) action" where
  "maybe_flush ops = sbind (read_log fsync) (\<lambda>f. if f then on_engine (eng_flush ops) else sret ())"

definition log_append :: "'e engine_ops \<Rightarrow> raft_codec \<Rightarrow> bytes option \<Rightarrow> ('e raft_log, nat) action" where
  "log_append ops bc command =
     sbind (read_log log_term) (\<lambda>trm.
     sbind (sassert (trm > 0) ''can't append entry in term 0'') (\<lambda>_.
     sbind (read_log last_index) (\<lambda>li.
     sbind (slift (u64_succ li)) (\<lambda>index.
     sbind (on_engine (eng_set ops (encode_log_key (LEntry index))
       (encode (entry_codec bc) \<lparr>e_index = index, e_term = trm, e_command = command\<rparr>))) (\<lambda>_.
     sbind (maybe_flush ops) (\<lambda>_.
     sbind (update_log (last_index_update (\<lambda>_. index))) (\<lambda>_.
     sbind (update_log (last_term_update (\<lambda>_. trm))) (\<lambda>_.
     sret index))))))))"

definition log_get :: "'e engine_ops \<Rightarrow> raft_codec \<Rightarrow> nat \<Rightarrow> ('e raft_log, entry option) action" where
  "log_get ops bc index =
     sbind (on_engine (eng_get ops (encode_log_key (LEntry index)))) (\<lambda>v.
     slift (case v of Some b \<Rightarrow> rmap Some (decode (entry_codec bc) b) | None \<Rightarrow> Ok None))"

definition log_commit :: "'e engine_ops \<Rightarrow> raft_codec \<Rightarrow> nat \<Rightarrow> ('e raft_log, nat) action" where
  "log_commit ops bc index =
     sbind (log_get ops bc index) (\<lambda>found.
     sbind (read_log commit_index) (\<lambda>ci. case found of
       None \<Rightarrow> slift (Panic ''commit index does not exist'')
     | Some entry \<Rightarrow>
         if e_index entry < ci then slift (Panic ''commit index regression'')
         else if e_index entry = ci then sret index
         else
           sbind (on_engine (eng_set ops (encode_log_key LCommitIndex)
             (encode (commit_codec bc) (index, e_term entry)))) (\<lambda>_.
           sbind (update_log (commit_index_update (\<lambda>_. index))) (\<lambda>_.
           sbind (update_log (commit_term_update (\<lambda>_. e_term entry))) (\<lambda>_.
           sret index)))))"

definition log_has :: "'e engine_ops \<Rightarrow> raft_codec \<Rightarrow> nat \<Rightarrow> nat \<Rightarrow> ('e raft_log, bool) action" where
  "log_has ops bc index trm =
     sbind (read_log get_last_index) (\<lambda>(li, lt).
     if index = 0 \<or> index > li then sret False
     else if (index, trm) = (li, lt) then sret True
     else sbind (log_get ops bc index) (\<lambda>found.
       sret (case found of Some e \<Rightarrow> e_term e = trm | None \<Rightarrow> False)))"

text \<open>The items of the log's iterator: the decoded entries of an engine scan.\<close>

definition log_iterator :: "raft_codec \<Rightarrow> (bytes \<times> bytes) result list \<Rightarrow> entry result list" where
  "log_iterator bc inner = map (\<lambda>r. rbind r (\<lambda>(_, v). decode (entry_codec bc) v)) inner"

definition log_scan ::
    "'e engine_ops \<Rightarrow> raft_codec \<Rightarrow> nat bound \<times> nat bound \<Rightarrow> ('e raft_log, entry result list) action" where
  "log_scan ops bc r =
     (let from = (case fst r of
            Excluded i \<Rightarrow> Excluded (encode_log_key (LEntry i))
          | Included i \<Rightarrow> Included (encode_log_key (LEntry i))
          | Unbounded \<Rightarrow> Included (encode_log_key (LEntry 0)));
          to = (case snd r of
            Excluded i \<Rightarrow> Excluded (encode_log_key (LEntry i))
          | Included i \<Rightarrow> Included (encode_log_key (LEntry i))
          | Unbounded \<Rightarrow> Included (encode_log_key (LEntry (u64_limit - 1))))
      in sbind (on_engine (eng_scan ops (from, to))) (\<lambda>scan. sret (log_iterator bc scan)))"

definition log_scan_apply ::
    "'e engine_ops \<Rightarrow> raft_codec \<Rightarrow> nat \<Rightarrow> ('e raft_log, entry result list) action" where
  "log_scan_apply ops bc applied_index =
     sbind (read_log commit_index) (\<lambda>ci.
     if applied_index \<ge> ci then sret []
     else log_scan ops bc (Included (applied_index + 1), Included ci))"

text \<open>The checks on the entries given to \<^verbatim>\<open>splice\<close>: every pair of neighbours is contiguous, and its
  terms do not decrease.\<close>

fun windows_all :: "('a \<Rightarrow> 'a \<Rightarrow> bool) \<Rightarrow> 'a list \<Rightarrow> bool" where
  "windows_all P (x # y # xs) = (P x y \<and> windows_all P (y # xs))"
| "windows_all P _ = True"

text \<open>The loop that skips the entries the log already holds.\<close>

fun skip_existing :: "entry result list \<Rightarrow> entry list \<Rightarrow> entry list result" where
  "skip_existing [] entries = Ok entries"
| "skip_existing (item # scan) entries =
     rbind item (\<lambda>entry.
       case entries of
         [] \<Rightarrow> Panic ''index out of bounds''
       | e # es \<Rightarrow>
           if e_index entry \<noteq> e_index e then Panic ''index mismatch''
           else if e_term entry \<noteq> e_term e then Ok entries
           else if e_command entry \<noteq> e_command e then Panic ''command mismatch''
           else skip_existing scan es)"

text \<open>The last part of a splice: writing the entries that are not in the log.\<close>

definition splice_write ::
    "'e engine_ops \<Rightarrow> raft_codec \<Rightarrow> entry \<Rightarrow> entry list \<Rightarrow> ('e raft_log, nat) action" where
  "splice_write ops bc lst entries = (case entries of
       [] \<Rightarrow> read_log last_index
     | first # _ \<Rightarrow>
         sbind (read_log commit_index) (\<lambda>ci.
         sbind (sassert (e_index first > ci) ''spliced entries below commit index'') (\<lambda>_.
         sbind (sfor (\<lambda>e. on_engine (eng_set ops (encode_log_key (LEntry (e_index e)))
           (encode (entry_codec bc) e))) entries) (\<lambda>_.
         sbind (read_log last_index) (\<lambda>li.
         sbind (sfor (\<lambda>i. on_engine (eng_delete ops (encode_log_key (LEntry i))))
           [e_index lst + 1..<li + 1]) (\<lambda>_.
         sbind (maybe_flush ops) (\<lambda>_.
         sbind (update_log (last_index_update (\<lambda>_. e_index lst))) (\<lambda>_.
         sbind (update_log (last_term_update (\<lambda>_. e_term lst))) (\<lambda>_.
         read_log last_index)))))))))"

definition log_splice :: "'e engine_ops \<Rightarrow> raft_codec \<Rightarrow> entry list \<Rightarrow> ('e raft_log, nat) action" where
  "log_splice ops bc entries =
     (if entries = [] then read_log last_index
      else let first = hd entries; lst = last entries in
        sbind (sassert (e_index first > 0 \<and> e_term first > 0) ''spliced entry has index or term 0'') (\<lambda>_.
        sbind (sassert (windows_all (\<lambda>a b. e_index a + 1 = e_index b) entries)
          ''spliced entries are not contiguous'') (\<lambda>_.
        sbind (sassert (windows_all (\<lambda>a b. e_term a \<le> e_term b) entries)
          ''spliced entries have term regression'') (\<lambda>_.
        sbind (read_log log_term) (\<lambda>trm.
        sbind (sassert (e_term lst \<le> trm) ''splice term beyond current'') (\<lambda>_.
        sbind (log_get ops bc (e_index first - 1)) (\<lambda>base.
        sbind (case base of
            Some b \<Rightarrow> sassert (\<not> e_term first < e_term b) ''splice term regression''
          | None \<Rightarrow> sassert (e_index first = 1) ''first index must touch existing log'') (\<lambda>_.
        sbind (log_scan ops bc (Included (e_index first), Included (e_index lst))) (\<lambda>scan.
        sbind (slift (skip_existing scan entries)) (\<lambda>entries.
        splice_write ops bc lst entries))))))))))"

definition log_status :: "'e engine_ops \<Rightarrow> ('e raft_log, status) action" where
  "log_status ops = on_engine (eng_status ops)"

text \<open>The methods of \<^verbatim>\<open>Log\<close> as the node calls them, collected in a record: the node is written
  against this interface.\<close>

record 'l log_ops =
  l_get_commit_index :: "'l \<Rightarrow> nat \<times> nat"
  l_get_last_index :: "'l \<Rightarrow> nat \<times> nat"
  l_get_term_vote :: "'l \<Rightarrow> nat \<times> node_id option"
  l_set_term_vote :: "nat \<Rightarrow> node_id option \<Rightarrow> ('l, unit) action"
  l_append :: "bytes option \<Rightarrow> ('l, nat) action"
  l_commit :: "nat \<Rightarrow> ('l, nat) action"
  l_get :: "nat \<Rightarrow> ('l, entry option) action"
  l_has :: "nat \<Rightarrow> nat \<Rightarrow> ('l, bool) action"
  l_scan :: "nat bound \<times> nat bound \<Rightarrow> ('l, entry result list) action"
  l_scan_apply :: "nat \<Rightarrow> ('l, entry result list) action"
  l_splice :: "entry list \<Rightarrow> ('l, nat) action"
  l_status :: "('l, status) action"

definition engine_log :: "'e engine_ops \<Rightarrow> raft_codec \<Rightarrow> 'e raft_log log_ops" where
  "engine_log ops bc = \<lparr>l_get_commit_index = get_commit_index, l_get_last_index = get_last_index,
     l_get_term_vote = get_term_vote, l_set_term_vote = set_term_vote ops bc, l_append = log_append ops bc,
     l_commit = log_commit ops bc, l_get = log_get ops bc, l_has = log_has ops bc, l_scan = log_scan ops bc,
     l_scan_apply = log_scan_apply ops bc, l_splice = log_splice ops bc, l_status = log_status ops\<rparr>"

end
