(* ===== verification/Raft_Message.thy ===== *)
theory Raft_Message
  imports Raft_Log
begin

text \<open>
  The messages of \<^verbatim>\<open>src/raft/message.rs\<close> and the state machine interface of \<^verbatim>\<open>src/raft/state.rs\<close>. A
  request identifier is a UUID; the node compares and orders identifiers only, so they are natural
  numbers here. The trait \<^verbatim>\<open>State\<close> is a record of its methods.
\<close>

type_synonym request_id = nat
type_synonym read_sequence = nat

datatype request = ReadReq bytes | WriteReq bytes | StatusReq

record raft_status =
  rs_leader :: node_id
  rs_term :: nat
  rs_match_index :: "(node_id \<times> nat) list"
  rs_commit_index :: nat
  rs_applied_index :: nat
  rs_storage :: status

datatype response = ReadResp bytes | WriteResp bytes | StatusResp raft_status

datatype message =
    Campaign nat nat \<comment> \<open>last index, last term\<close>
  | CampaignResponse bool \<comment> \<open>vote\<close>
  | Heartbeat nat nat read_sequence \<comment> \<open>last index, commit index, read sequence\<close>
  | HeartbeatResponse nat read_sequence \<comment> \<open>match index, read sequence\<close>
  | Append nat nat "entry list" \<comment> \<open>base index, base term, entries\<close>
  | AppendResponse nat nat \<comment> \<open>match index, reject index\<close>
  | Read read_sequence
  | ReadResponse read_sequence
  | ClientRequest request_id request
  | ClientResponse request_id "response result"

record envelope =
  env_from :: node_id
  env_term :: nat
  env_to :: node_id
  env_message :: message

record 's state_ops =
  st_applied_index :: "'s \<Rightarrow> nat"
  st_apply :: "entry \<Rightarrow> ('s, bytes) action"
  st_read :: "bytes \<Rightarrow> 's \<Rightarrow> bytes result"

end
