(* ===== verification/Raft_Node.thy ===== *)
theory Raft_Node
  imports Raft_Message
begin

text \<open>
  The Raft node of \<^verbatim>\<open>src/raft/node.rs\<close>: its three roles, message processing and ticks. A node is a
  record with the role as a tagged field; a method of \<^verbatim>\<open>RawNode<Follower>\<close> is an action that finds the
  node in that role. The outbound channel is the list of the envelopes sent so far. Random election
  timeouts are drawn from a sequence in the node, so that a theorem about all nodes is a theorem about
  all sequences. A \<^verbatim>\<open>HashMap\<close> or \<^verbatim>\<open>HashSet\<close> is an ordered association list or a set: the code sorts
  before it sends, and otherwise only looks up, counts and takes order statistics. Index arithmetic is
  on naturals; the allocation of a term, an index, a read sequence number or a tick checks the machine
  type's bound.
\<close>

section \<open>State\<close>

type_synonym ticks = nat

record options =
  heartbeat_interval :: ticks
  election_timeout_range :: "ticks \<times> ticks"
  max_append_entries :: nat

definition default_options :: options where
  "default_options = \<lparr>heartbeat_interval = 4, election_timeout_range = (10, 20), max_append_entries = 100\<rparr>"

record follower =
  f_leader :: "node_id option"
  f_leader_seen :: ticks
  f_election_timeout :: ticks
  f_forwarded :: "request_id set"

record candidate =
  c_votes :: "node_id set"
  c_election_duration :: ticks
  c_election_timeout :: ticks

record progress =
  p_match_index :: nat
  p_next_index :: nat
  p_read_seq :: read_sequence

record pending_write =
  w_from :: node_id
  w_id :: request_id

record pending_read =
  rd_seq :: read_sequence
  rd_from :: node_id
  rd_id :: request_id
  rd_command :: bytes

record leader =
  ld_progress :: "(node_id \<times> progress) list"
  ld_writes :: "(nat \<times> pending_write) list"
  ld_reads :: "pending_read list"
  ld_read_seq :: read_sequence
  ld_since_heartbeat :: ticks

datatype role = Follower follower | Candidate candidate | Leader leader

record ('l, 's) node =
  n_id :: node_id
  n_peers :: "node_id set"
  n_log :: 'l
  n_state :: 's
  n_tx :: "envelope list"
  n_opts :: options
  n_rng :: "nat \<Rightarrow> ticks"
  n_role :: role

section \<open>Actions on a node\<close>

definition on_nlog :: "('l, 'a) action \<Rightarrow> (('l, 's) node, 'a) action" where
  "on_nlog m n = (case m (n_log n) of (r, l) \<Rightarrow> (r, n\<lparr>n_log := l\<rparr>))"

definition on_nstate :: "('s, 'a) action \<Rightarrow> (('l, 's) node, 'a) action" where
  "on_nstate m n = (case m (n_state n) of (r, s) \<Rightarrow> (r, n\<lparr>n_state := s\<rparr>))"

definition nread :: "(('l, 's) node \<Rightarrow> 'a) \<Rightarrow> (('l, 's) node, 'a) action" where
  "nread f n = (Ok (f n), n)"

definition set_role :: "role \<Rightarrow> (('l, 's) node, unit) action" where
  "set_role r n = (Ok (), n\<lparr>n_role := r\<rparr>)"

text \<open>The typed nodes: a method of one role never runs in another.\<close>

definition get_follower :: "(('l, 's) node, follower) action" where
  "get_follower n = (case n_role n of Follower f \<Rightarrow> Ok f | _ \<Rightarrow> Panic ''not a follower'', n)"

definition get_candidate :: "(('l, 's) node, candidate) action" where
  "get_candidate n = (case n_role n of Candidate c \<Rightarrow> Ok c | _ \<Rightarrow> Panic ''not a candidate'', n)"

definition get_leader :: "(('l, 's) node, leader) action" where
  "get_leader n = (case n_role n of Leader l \<Rightarrow> Ok l | _ \<Rightarrow> Panic ''not a leader'', n)"

text \<open>A call whose error is kept as a value; a panic is not a value.\<close>

definition scatch :: "('s, 'a) action \<Rightarrow> ('s, 'a result) action" where
  "scatch m s = (case m s of
       (Ok a, s') \<Rightarrow> (Ok (Ok a), s')
     | (Err e, s') \<Rightarrow> (Ok (Err e), s')
     | (Panic msg, s') \<Rightarrow> (Panic msg, s'))"

definition tick_succ :: "ticks \<Rightarrow> ticks result" where
  "tick_succ t = (if t < 255 then Ok (t + 1) else Panic ''attempt to add with overflow'')"

section \<open>Common methods\<close>

definition node_term :: "'l log_ops \<Rightarrow> ('l, 's) node \<Rightarrow> nat" where
  "node_term L n = fst (l_get_term_vote L (n_log n))"

definition cluster_size :: "('l, 's) node \<Rightarrow> nat" where
  "cluster_size n = card (n_peers n) + 1"

definition quorum_size :: "('l, 's) node \<Rightarrow> nat" where
  "quorum_size n = cluster_size n div 2 + 1"

definition quorum_value :: "nat list \<Rightarrow> ('l, 's) node \<Rightarrow> nat result" where
  "quorum_value values n =
     (if length values \<noteq> cluster_size n then Panic ''vector size must match cluster size''
      else Ok (rev (sort values) ! (quorum_size n - 1)))"

definition random_election_timeout :: "(('l, 's) node, ticks) action" where
  "random_election_timeout n = (Ok (n_rng n 0), n\<lparr>n_rng := (\<lambda>k. n_rng n (k + 1))\<rparr>)"

definition send_via :: "envelope \<Rightarrow> (('l, 's) node, unit) action" where
  "send_via e n = (Ok (), n\<lparr>n_tx := n_tx n @ [e]\<rparr>)"

definition send :: "'l log_ops \<Rightarrow> node_id \<Rightarrow> message \<Rightarrow> (('l, 's) node, unit) action" where
  "send L to msg =
     sbind (nread (\<lambda>n. (n_id n, node_term L n))) (\<lambda>(i, t).
     send_via \<lparr>env_from = i, env_term = t, env_to = to, env_message = msg\<rparr>)"

definition broadcast :: "'l log_ops \<Rightarrow> message \<Rightarrow> (('l, 's) node, unit) action" where
  "broadcast L msg =
     sbind (nread n_peers) (\<lambda>peers. sfor (\<lambda>i. send L i msg) (sorted_list_of_set peers))"

section \<open>Follower\<close>

definition follower_new :: "node_id option \<Rightarrow> ticks \<Rightarrow> follower" where
  "follower_new leader timeout =
     \<lparr>f_leader = leader, f_leader_seen = 0, f_election_timeout = timeout, f_forwarded = {}\<rparr>"

definition abort_forwarded :: "'l log_ops \<Rightarrow> (('l, 's) node, unit) action" where
  "abort_forwarded L =
     sbind get_follower (\<lambda>f.
     sbind (set_role (Follower (f\<lparr>f_forwarded := {}\<rparr>))) (\<lambda>_.
     sbind (nread n_id) (\<lambda>self.
     sfor (\<lambda>i. send L self (ClientResponse i (Err Abort))) (sorted_list_of_set (f_forwarded f)))))"

fun apply_loop :: "'s state_ops \<Rightarrow> entry result list \<Rightarrow> (('l, 's) node, unit) action" where
  "apply_loop S [] = sret ()"
| "apply_loop S (item # iter) =
     sbind (slift item) (\<lambda>entry.
     sbind (scatch (on_nstate (st_apply S entry))) (\<lambda>_.
     apply_loop S iter))"

definition maybe_apply :: "'l log_ops \<Rightarrow> 's state_ops \<Rightarrow> (('l, 's) node, unit) action" where
  "maybe_apply L S =
     sbind (nread (\<lambda>n. st_applied_index S (n_state n))) (\<lambda>applied.
     sbind (on_nlog (l_scan_apply L applied)) (\<lambda>iter.
     apply_loop S iter))"

definition follower_node_new ::
    "'l log_ops \<Rightarrow> 's state_ops \<Rightarrow> node_id \<Rightarrow> node_id set \<Rightarrow> 'l \<Rightarrow> 's \<Rightarrow> options \<Rightarrow> (nat \<Rightarrow> ticks) \<Rightarrow>
     unit result \<times> ('l, 's) node" where
  "follower_node_new L S i peers log state opts rng =
     (let n = \<lparr>n_id = i, n_peers = peers, n_log = log, n_state = state, n_tx = [], n_opts = opts,
               n_rng = rng, n_role = Follower (follower_new None 0)\<rparr>
      in if i \<in> peers then (errinput ''node ID can't be in peers'', n)
         else (sbind random_election_timeout (\<lambda>t.
               sbind get_follower (\<lambda>f.
               sbind (set_role (Follower (f\<lparr>f_election_timeout := t\<rparr>))) (\<lambda>_.
               maybe_apply L S)))) n)"

section \<open>Candidate\<close>

definition candidate_new :: "ticks \<Rightarrow> candidate" where
  "candidate_new timeout = \<lparr>c_votes = {}, c_election_duration = 0, c_election_timeout = timeout\<rparr>"

definition campaign :: "'l log_ops \<Rightarrow> (('l, 's) node, unit) action" where
  "campaign L =
     sbind (nread (node_term L)) (\<lambda>t.
     sbind (slift (u64_succ t)) (\<lambda>trm.
     sbind random_election_timeout (\<lambda>timeout.
     sbind (nread n_id) (\<lambda>self.
     sbind (set_role (Candidate ((candidate_new timeout)\<lparr>c_votes := {self}\<rparr>))) (\<lambda>_.
     sbind (on_nlog (l_set_term_vote L trm (Some self))) (\<lambda>_.
     sbind (nread (\<lambda>n. l_get_last_index L (n_log n))) (\<lambda>(li, lt).
     broadcast L (Campaign li lt))))))))"

definition follower_into_candidate :: "'l log_ops \<Rightarrow> 's state_ops \<Rightarrow> (('l, 's) node, unit) action" where
  "follower_into_candidate L S =
     sbind (abort_forwarded L) (\<lambda>_.
     sbind (maybe_apply L S) (\<lambda>_.
     sbind random_election_timeout (\<lambda>timeout.
     sbind (set_role (Candidate (candidate_new timeout))) (\<lambda>_.
     sbind (campaign L) (\<lambda>_.
     sbind (nread (\<lambda>n. l_get_term_vote L (n_log n))) (\<lambda>(trm, vote).
     sbind get_candidate (\<lambda>c.
     sbind (nread n_id) (\<lambda>self.
     sbind (sassert (self \<in> c_votes c) ''candidate did not vote for self'') (\<lambda>_.
     sbind (sassert (trm \<noteq> 0) ''candidate can't have term 0'') (\<lambda>_.
     sassert (vote = Some self) ''log vote does not match self''))))))))))"

definition follower_into_follower ::
    "'l log_ops \<Rightarrow> nat \<Rightarrow> node_id option \<Rightarrow> (('l, 's) node, unit) action" where
  "follower_into_follower L trm leader =
     sbind (sassert (trm \<noteq> 0) ''can't become follower in term 0'') (\<lambda>_.
     sbind (abort_forwarded L) (\<lambda>_.
     sbind get_follower (\<lambda>f.
     sbind (nread (node_term L)) (\<lambda>self_term.
     case leader of
       Some i \<Rightarrow>
         sbind (nread n_peers) (\<lambda>peers.
         sbind (sassert (i \<in> peers) ''leader is not a peer'') (\<lambda>_.
         sbind (sassert (f_leader f = None) ''already have leader in term'') (\<lambda>_.
         sbind (sassert (trm = self_term) ''can't follow leader in different term'') (\<lambda>_.
         set_role (Follower (follower_new (Some i) (f_election_timeout f)))))))
     | None \<Rightarrow>
         sbind (sassert (trm \<noteq> self_term) ''can't become leaderless follower in current term'') (\<lambda>_.
         sbind (on_nlog (l_set_term_vote L trm None)) (\<lambda>_.
         sbind random_election_timeout (\<lambda>timeout.
         set_role (Follower (follower_new None timeout)))))))))"

text \<open>The three messages that only a leader sends: check that it is ours, or follow it.\<close>

definition follow_sender :: "'l log_ops \<Rightarrow> envelope \<Rightarrow> (('l, 's) node, unit) action" where
  "follow_sender L msg =
     sbind get_follower (\<lambda>f.
     case f_leader f of
       Some i \<Rightarrow> sassert (env_from msg = i) ''multiple leaders in term''
     | None \<Rightarrow> follower_into_follower L (env_term msg) (Some (env_from msg)))"

definition follower_heartbeat ::
    "'l log_ops \<Rightarrow> 's state_ops \<Rightarrow> envelope \<Rightarrow> nat \<Rightarrow> nat \<Rightarrow> read_sequence \<Rightarrow> (('l, 's) node, unit) action" where
  "follower_heartbeat L S msg li ci seq =
     sbind (sassert (ci \<le> li) ''commit_index after last_index'') (\<lambda>_.
     sbind (follow_sender L msg) (\<lambda>_.
     sbind (on_nlog (l_has L li (env_term msg))) (\<lambda>found.
     let match_index = (if found then li else 0) in
     sbind (send L (env_from msg) (HeartbeatResponse match_index seq)) (\<lambda>_.
     sbind (nread (\<lambda>n. fst (l_get_commit_index L (n_log n)))) (\<lambda>self_commit.
     if match_index \<noteq> 0 \<and> ci > self_commit
     then sbind (on_nlog (l_commit L ci)) (\<lambda>_. maybe_apply L S)
     else sret ())))))"

definition follower_append ::
    "'l log_ops \<Rightarrow> envelope \<Rightarrow> nat \<Rightarrow> nat \<Rightarrow> entry list \<Rightarrow> (('l, 's) node, unit) action" where
  "follower_append L msg base_index base_term entries =
     sbind (case entries of
         [] \<Rightarrow> sret ()
       | first # _ \<Rightarrow>
           if e_index first = 0 then slift (Panic ''attempt to subtract with overflow'')
           else sassert (base_index = e_index first - 1) ''base index mismatch'') (\<lambda>_.
     sbind (follow_sender L msg) (\<lambda>_.
     sbind (if base_index = 0 then sret True else on_nlog (l_has L base_index base_term)) (\<lambda>found.
     if found then
       let match_index = (if entries = [] then base_index else e_index (last entries)) in
       sbind (on_nlog (l_splice L entries)) (\<lambda>_.
       send L (env_from msg) (AppendResponse match_index 0))
     else
       sbind (nread (\<lambda>n. fst (l_get_last_index L (n_log n)))) (\<lambda>li.
       send L (env_from msg) (AppendResponse 0 (min base_index (li + 1)))))))"

definition follower_campaign ::
    "'l log_ops \<Rightarrow> envelope \<Rightarrow> nat \<Rightarrow> nat \<Rightarrow> (('l, 's) node, unit) action" where
  "follower_campaign L msg li lt =
     sbind (nread (\<lambda>n. snd (l_get_term_vote L (n_log n)))) (\<lambda>vote.
     if vote \<noteq> None \<and> vote \<noteq> Some (env_from msg) then send L (env_from msg) (CampaignResponse False)
     else
       sbind (nread (\<lambda>n. l_get_last_index L (n_log n))) (\<lambda>(log_index, log_term).
       if log_term > lt \<or> log_term = lt \<and> log_index > li then send L (env_from msg) (CampaignResponse False)
       else
         sbind (on_nlog (l_set_term_vote L (env_term msg) (Some (env_from msg)))) (\<lambda>_.
         send L (env_from msg) (CampaignResponse True))))"

definition follower_client_request ::
    "'l log_ops \<Rightarrow> envelope \<Rightarrow> request_id \<Rightarrow> (('l, 's) node, unit) action" where
  "follower_client_request L msg i =
     sbind (nread n_id) (\<lambda>self.
     sbind (sassert (env_from msg = self) ''client request from other node'') (\<lambda>_.
     sbind get_follower (\<lambda>f.
     case f_leader f of
       Some leader \<Rightarrow>
         sbind (set_role (Follower (f\<lparr>f_forwarded := insert i (f_forwarded f)\<rparr>))) (\<lambda>_.
         send L leader (env_message msg))
     | None \<Rightarrow> send L (env_from msg) (ClientResponse i (Err Abort)))))"

definition follower_client_response ::
    "'l log_ops \<Rightarrow> envelope \<Rightarrow> request_id \<Rightarrow> response result \<Rightarrow> (('l, 's) node, unit) action" where
  "follower_client_response L msg i resp =
     sbind get_follower (\<lambda>f.
     sbind (sassert (Some (env_from msg) = f_leader f) ''client response from non-leader'') (\<lambda>_.
     if i \<in> f_forwarded f then
       sbind (set_role (Follower (f\<lparr>f_forwarded := f_forwarded f - {i}\<rparr>))) (\<lambda>_.
       sbind (nread n_id) (\<lambda>self.
       send L self (ClientResponse i resp)))
     else sret ()))"

definition leader_heard :: "envelope \<Rightarrow> (('l, 's) node, unit) action" where
  "leader_heard msg =
     sbind get_follower (\<lambda>f.
     if Some (env_from msg) = f_leader f then set_role (Follower (f\<lparr>f_leader_seen := 0\<rparr>)) else sret ())"

text \<open>The message of the current term. The step of a message from a later term first moves the node to
  that term and then steps the message again, which finds the terms equal.\<close>

definition follower_message :: "'l log_ops \<Rightarrow> 's state_ops \<Rightarrow> envelope \<Rightarrow> (('l, 's) node, unit) action" where
  "follower_message L S msg =
     sbind (leader_heard msg) (\<lambda>_.
     case env_message msg of
       Heartbeat li ci seq \<Rightarrow> follower_heartbeat L S msg li ci seq
     | Append base_index base_term entries \<Rightarrow> follower_append L msg base_index base_term entries
     | Read seq \<Rightarrow> sbind (follow_sender L msg) (\<lambda>_. send L (env_from msg) (ReadResponse seq))
     | Campaign li lt \<Rightarrow> follower_campaign L msg li lt
     | ClientRequest i _ \<Rightarrow> follower_client_request L msg i
     | ClientResponse i resp \<Rightarrow> follower_client_response L msg i resp
     | CampaignResponse _ \<Rightarrow> sret ()
     | _ \<Rightarrow> slift (Panic ''follower received unexpected message''))"

definition follower_step :: "'l log_ops \<Rightarrow> 's state_ops \<Rightarrow> envelope \<Rightarrow> (('l, 's) node, unit) action" where
  "follower_step L S msg =
     sbind (nread (node_term L)) (\<lambda>t.
     if env_term msg < t then sret ()
     else if env_term msg > t then
       sbind (follower_into_follower L (env_term msg) None) (\<lambda>_. follower_message L S msg)
     else follower_message L S msg)"

definition follower_tick :: "'l log_ops \<Rightarrow> 's state_ops \<Rightarrow> (('l, 's) node, unit) action" where
  "follower_tick L S =
     sbind get_follower (\<lambda>f.
     sbind (slift (tick_succ (f_leader_seen f))) (\<lambda>seen.
     sbind (set_role (Follower (f\<lparr>f_leader_seen := seen\<rparr>))) (\<lambda>_.
     if seen \<ge> f_election_timeout f then follower_into_candidate L S else sret ())))"

section \<open>Leader\<close>

definition progress_advance :: "nat \<Rightarrow> progress \<Rightarrow> bool \<times> progress" where
  "progress_advance match_index p =
     (if match_index \<le> p_match_index p then (False, p)
      else (True, p\<lparr>p_match_index := match_index, p_next_index := max (p_next_index p) (match_index + 1)\<rparr>))"

definition progress_advance_read :: "read_sequence \<Rightarrow> progress \<Rightarrow> bool \<times> progress" where
  "progress_advance_read seq p =
     (if seq \<le> p_read_seq p then (False, p) else (True, p\<lparr>p_read_seq := seq\<rparr>))"

definition progress_regress_next :: "nat \<Rightarrow> progress \<Rightarrow> bool \<times> progress" where
  "progress_regress_next next_index p =
     (if next_index \<ge> p_next_index p \<or> p_next_index p \<le> p_match_index p + 1 then (False, p)
      else (True, p\<lparr>p_next_index := max next_index (p_match_index p + 1)\<rparr>))"

definition leader_new :: "node_id set \<Rightarrow> nat \<Rightarrow> leader result" where
  "leader_new peers li =
     rbind (u64_succ li) (\<lambda>next_index.
     Ok \<lparr>ld_progress = map (\<lambda>p. (p, \<lparr>p_match_index = 0, p_next_index = next_index, p_read_seq = 0\<rparr>))
           (sorted_list_of_set peers),
         ld_writes = [], ld_reads = [], ld_read_seq = 0, ld_since_heartbeat = 0\<rparr>)"

definition get_progress :: "node_id \<Rightarrow> (('l, 's) node, progress) action" where
  "get_progress i =
     sbind get_leader (\<lambda>l. slift (case map_of (ld_progress l) i of
       Some p \<Rightarrow> Ok p
     | None \<Rightarrow> Panic ''unknown node''))"

definition set_progress :: "node_id \<Rightarrow> progress \<Rightarrow> (('l, 's) node, unit) action" where
  "set_progress i p =
     sbind get_leader (\<lambda>l. set_role (Leader (l\<lparr>ld_progress := btree_insert i p (ld_progress l)\<rparr>)))"

text \<open>A call of a method of the progress of a node.\<close>

definition on_progress :: "node_id \<Rightarrow> (progress \<Rightarrow> bool \<times> progress) \<Rightarrow> (('l, 's) node, bool) action" where
  "on_progress i f =
     sbind (get_progress i) (\<lambda>p.
     case f p of (b, p') \<Rightarrow> sbind (set_progress i p') (\<lambda>_. sret b))"

definition maybe_send_append :: "'l log_ops \<Rightarrow> node_id \<Rightarrow> bool \<Rightarrow> (('l, 's) node, unit) action" where
  "maybe_send_append L peer probe =
     sbind (nread (\<lambda>n. fst (l_get_last_index L (n_log n)))) (\<lambda>li.
     sbind (get_progress peer) (\<lambda>p.
     sbind (sassert (p_next_index p \<noteq> 0) ''invalid next_index'') (\<lambda>_.
     sbind (sassert (p_next_index p > p_match_index p) ''invalid next_index <= match_index'') (\<lambda>_.
     sbind (sassert (p_match_index p \<le> li) ''invalid match_index > last_index'') (\<lambda>_.
     sbind (sassert (p_next_index p \<le> li + 1) ''invalid next_index > last_index + 1'') (\<lambda>_.
     if p_match_index p = li then sret ()
     else let probe = (probe \<and> p_next_index p > p_match_index p + 1) in
       if p_next_index p > li \<and> \<not> probe then sret ()
       else
         sbind (if p_next_index p = 1 then sret (0, 0)
                else sbind (on_nlog (l_get L (p_next_index p - 1))) (\<lambda>base. slift (case base of
                       Some e \<Rightarrow> Ok (e_index e, e_term e)
                     | None \<Rightarrow> Panic ''missing base entry''))) (\<lambda>(base_index, base_term).
         sbind (if probe then sret []
                else sbind (on_nlog (l_scan L (Included (p_next_index p), Unbounded))) (\<lambda>scan.
                     sbind (nread n_opts) (\<lambda>opts.
                     slift (try_collect (take (max_append_entries opts) scan))))) (\<lambda>entries.
         sbind (if entries = [] then sret ()
                else set_progress peer (p\<lparr>p_next_index := e_index (last entries) + 1\<rparr>)) (\<lambda>_.
         send L peer (Append base_index base_term entries))))))))))"

definition propose :: "'l log_ops \<Rightarrow> bytes option \<Rightarrow> (('l, 's) node, nat) action" where
  "propose L command =
     sbind (on_nlog (l_append L command)) (\<lambda>index.
     sbind (nread n_peers) (\<lambda>peers.
     sbind (sfor (\<lambda>peer.
         sbind (get_progress peer) (\<lambda>p.
         if index = p_next_index p then maybe_send_append L peer False else sret ()))
       (sorted_list_of_set peers)) (\<lambda>_.
     sret index)))"

definition heartbeat :: "'l log_ops \<Rightarrow> (('l, 's) node, unit) action" where
  "heartbeat L =
     sbind (nread (\<lambda>n. l_get_last_index L (n_log n))) (\<lambda>(li, lt).
     sbind (nread (\<lambda>n. fst (l_get_commit_index L (n_log n)))) (\<lambda>ci.
     sbind get_leader (\<lambda>l.
     sbind (nread (node_term L)) (\<lambda>t.
     sbind (sassert (lt = t) ''leader's last_term not in current term'') (\<lambda>_.
     sbind (set_role (Leader (l\<lparr>ld_since_heartbeat := 0\<rparr>))) (\<lambda>_.
     broadcast L (Heartbeat li ci (ld_read_seq l))))))))"

text \<open>The reads at the front of the queue that a quorum has confirmed.\<close>

fun read_loop :: "'l log_ops \<Rightarrow> 's state_ops \<Rightarrow> read_sequence \<Rightarrow> pending_read list \<Rightarrow> (('l, 's) node, unit) action" where
  "read_loop L S quorum_read_seq [] = sret ()"
| "read_loop L S quorum_read_seq (r # rs) =
     (if rd_seq r > quorum_read_seq then sret ()
      else
        sbind get_leader (\<lambda>l.
        sbind (set_role (Leader (l\<lparr>ld_reads := rs\<rparr>))) (\<lambda>_.
        sbind (nread n_state) (\<lambda>state.
        sbind (scatch (slift (st_read S (rd_command r) state))) (\<lambda>result.
        sbind (send L (rd_from r) (ClientResponse (rd_id r) (rmap ReadResp result))) (\<lambda>_.
        read_loop L S quorum_read_seq rs))))))"

definition maybe_read :: "'l log_ops \<Rightarrow> 's state_ops \<Rightarrow> (('l, 's) node, unit) action" where
  "maybe_read L S =
     sbind get_leader (\<lambda>l.
     if ld_reads l = [] then sret ()
     else
       sbind (nread (\<lambda>n. l_get_commit_index L (n_log n))) (\<lambda>(ci, ct).
       sbind (nread (\<lambda>n. st_applied_index S (n_state n))) (\<lambda>applied.
       sbind (nread (node_term L)) (\<lambda>t.
       if ct < t \<or> applied < ci then sret ()
       else
         sbind (nread (quorum_value (map (p_read_seq \<circ> snd) (ld_progress l) @ [ld_read_seq l]))) (\<lambda>q.
         sbind (slift q) (\<lambda>quorum_read_seq.
         read_loop L S quorum_read_seq (ld_reads l)))))))"

text \<open>The loop that applies committed entries and answers the waiting writes.\<close>

fun commit_apply_loop :: "'s state_ops \<Rightarrow> nat \<Rightarrow> entry result list \<Rightarrow> (('l, 's) node, unit) action" where
  "commit_apply_loop S trm [] = sret ()"
| "commit_apply_loop S trm (item # iter) =
     sbind (slift item) (\<lambda>entry.
     sbind get_leader (\<lambda>l.
     sbind (set_role (Leader (l\<lparr>ld_writes := btree_remove (e_index entry) (ld_writes l)\<rparr>))) (\<lambda>_.
     sbind (scatch (on_nstate (st_apply S entry))) (\<lambda>result.
     sbind (case map_of (ld_writes l) (e_index entry) of
         None \<Rightarrow> sret ()
       | Some w \<Rightarrow>
           sbind (nread n_id) (\<lambda>self.
           send_via \<lparr>env_from = self, env_term = trm, env_to = w_from w,
             env_message = ClientResponse (w_id w) (rmap WriteResp result)\<rparr>)) (\<lambda>_.
     commit_apply_loop S trm iter)))))"

definition maybe_commit_and_apply :: "'l log_ops \<Rightarrow> 's state_ops \<Rightarrow> (('l, 's) node, nat) action" where
  "maybe_commit_and_apply L S =
     sbind (nread (\<lambda>n. fst (l_get_last_index L (n_log n)))) (\<lambda>li.
     sbind get_leader (\<lambda>l.
     sbind (nread (quorum_value (map (p_match_index \<circ> snd) (ld_progress l) @ [li]))) (\<lambda>q.
     sbind (slift q) (\<lambda>commit_index.
     sbind (nread (\<lambda>n. l_get_commit_index L (n_log n))) (\<lambda>(old_index, old_term).
     if commit_index \<le> old_index then sret old_index
     else
       sbind (on_nlog (l_get L commit_index)) (\<lambda>found.
       sbind (nread (node_term L)) (\<lambda>trm.
       case found of
         None \<Rightarrow> slift (Panic ''commit index missing'')
       | Some entry \<Rightarrow>
           if e_term entry \<noteq> trm then sret old_index
           else
             sbind (on_nlog (l_commit L commit_index)) (\<lambda>_.
             sbind (nread (\<lambda>n. st_applied_index S (n_state n))) (\<lambda>applied.
             sbind (on_nlog (l_scan_apply L applied)) (\<lambda>iter.
             sbind (commit_apply_loop S trm iter) (\<lambda>_.
             sbind (if old_term \<noteq> trm then maybe_read L S else sret ()) (\<lambda>_.
             sret commit_index)))))))))))) "

definition leader_status :: "'l log_ops \<Rightarrow> 's state_ops \<Rightarrow> (('l, 's) node, raft_status) action" where
  "leader_status L S =
     sbind get_leader (\<lambda>l.
     sbind (nread (\<lambda>n. n)) (\<lambda>n.
     sbind (on_nlog (l_status L)) (\<lambda>storage.
     sret \<lparr>rs_leader = n_id n, rs_term = node_term L n,
       rs_match_index = btree_insert (n_id n) (fst (l_get_last_index L (n_log n)))
         (map (\<lambda>(i, p). (i, p_match_index p)) (ld_progress l)),
       rs_commit_index = fst (l_get_commit_index L (n_log n)),
       rs_applied_index = st_applied_index S (n_state n), rs_storage = storage\<rparr>)))"

definition leader_into_follower :: "'l log_ops \<Rightarrow> nat \<Rightarrow> (('l, 's) node, unit) action" where
  "leader_into_follower L trm =
     sbind (nread (node_term L)) (\<lambda>self_term.
     sbind (sassert (trm > self_term) ''leader can only become follower in later term'') (\<lambda>_.
     sbind get_leader (\<lambda>l.
     sbind (set_role (Leader (l\<lparr>ld_writes := []\<rparr>))) (\<lambda>_.
     sbind (sfor (\<lambda>w. send L (w_from w) (ClientResponse (w_id w) (Err Abort)))
       (sort_key w_id (map snd (ld_writes l)))) (\<lambda>_.
     sbind (set_role (Leader (l\<lparr>ld_writes := [], ld_reads := []\<rparr>))) (\<lambda>_.
     sbind (sfor (\<lambda>r. send L (rd_from r) (ClientResponse (rd_id r) (Err Abort)))
       (sort_key rd_id (ld_reads l))) (\<lambda>_.
     sbind (on_nlog (l_set_term_vote L trm None)) (\<lambda>_.
     sbind random_election_timeout (\<lambda>timeout.
     set_role (Follower (follower_new None timeout)))))))))))"

definition leader_heartbeat_response ::
    "'l log_ops \<Rightarrow> 's state_ops \<Rightarrow> envelope \<Rightarrow> nat \<Rightarrow> read_sequence \<Rightarrow> (('l, 's) node, unit) action" where
  "leader_heartbeat_response L S msg match_index seq =
     sbind (nread (\<lambda>n. fst (l_get_last_index L (n_log n)))) (\<lambda>li.
     sbind (sassert (match_index \<le> li) ''future match index'') (\<lambda>_.
     sbind get_leader (\<lambda>l.
     sbind (sassert (seq \<le> ld_read_seq l) ''future read sequence number'') (\<lambda>_.
     sbind (on_progress (env_from msg) (progress_advance_read seq)) (\<lambda>advanced.
     sbind (if advanced then maybe_read L S else sret ()) (\<lambda>_.
     sbind (if match_index = 0 then
              sbind (on_progress (env_from msg) (progress_regress_next li)) (\<lambda>_.
              maybe_send_append L (env_from msg) True)
            else sret ()) (\<lambda>_.
     sbind (on_progress (env_from msg) (progress_advance match_index)) (\<lambda>advanced.
     if advanced then sbind (maybe_commit_and_apply L S) (\<lambda>_. sret ()) else sret ()))))))))"

definition leader_append_response ::
    "'l log_ops \<Rightarrow> 's state_ops \<Rightarrow> envelope \<Rightarrow> nat \<Rightarrow> nat \<Rightarrow> (('l, 's) node, unit) action" where
  "leader_append_response L S msg match_index reject_index =
     sbind (nread (\<lambda>n. fst (l_get_last_index L (n_log n)))) (\<lambda>li.
     if reject_index = 0 \<and> match_index > 0 then
       sbind (sassert (match_index \<le> li) ''future match index'') (\<lambda>_.
       sbind (on_progress (env_from msg) (progress_advance match_index)) (\<lambda>advanced.
       sbind (if advanced then sbind (maybe_commit_and_apply L S) (\<lambda>_. sret ()) else sret ()) (\<lambda>_.
       maybe_send_append L (env_from msg) False)))
     else if match_index = 0 \<and> reject_index > 0 then
       sbind (sassert (reject_index \<le> li) ''future reject index'') (\<lambda>_.
       sbind (get_progress (env_from msg)) (\<lambda>p.
       if reject_index \<le> p_match_index p then sret ()
       else
         sbind (on_progress (env_from msg) (progress_regress_next reject_index)) (\<lambda>regressed.
         if regressed then maybe_send_append L (env_from msg) True else sret ())))
     else slift (Panic ''invalid message''))"

definition leader_client_write ::
    "'l log_ops \<Rightarrow> 's state_ops \<Rightarrow> envelope \<Rightarrow> request_id \<Rightarrow> bytes \<Rightarrow> (('l, 's) node, unit) action" where
  "leader_client_write L S msg i command =
     sbind (propose L (Some command)) (\<lambda>index.
     sbind get_leader (\<lambda>l.
     sbind (set_role (Leader (l\<lparr>ld_writes :=
       btree_insert index \<lparr>w_from = env_from msg, w_id = i\<rparr> (ld_writes l)\<rparr>))) (\<lambda>_.
     sbind (nread cluster_size) (\<lambda>size.
     if size = 1 then sbind (maybe_commit_and_apply L S) (\<lambda>_. sret ()) else sret ()))))"

definition leader_client_read ::
    "'l log_ops \<Rightarrow> 's state_ops \<Rightarrow> envelope \<Rightarrow> request_id \<Rightarrow> bytes \<Rightarrow> (('l, 's) node, unit) action" where
  "leader_client_read L S msg i command =
     sbind get_leader (\<lambda>l.
     sbind (slift (u64_succ (ld_read_seq l))) (\<lambda>seq.
     sbind (set_role (Leader (l\<lparr>ld_read_seq := seq, ld_reads := ld_reads l @
       [\<lparr>rd_seq = seq, rd_from = env_from msg, rd_id = i, rd_command = command\<rparr>]\<rparr>))) (\<lambda>_.
     sbind (broadcast L (Read seq)) (\<lambda>_.
     sbind (nread cluster_size) (\<lambda>size.
     if size = 1 then maybe_read L S else sret ())))))"

definition leader_message :: "'l log_ops \<Rightarrow> 's state_ops \<Rightarrow> envelope \<Rightarrow> (('l, 's) node, unit) action" where
  "leader_message L S msg = (case env_message msg of
       HeartbeatResponse match_index seq \<Rightarrow> leader_heartbeat_response L S msg match_index seq
     | AppendResponse match_index reject_index \<Rightarrow> leader_append_response L S msg match_index reject_index
     | ReadResponse seq \<Rightarrow>
         sbind (on_progress (env_from msg) (progress_advance_read seq)) (\<lambda>advanced.
         if advanced then maybe_read L S else sret ())
     | ClientRequest i request \<Rightarrow> (case request of
           WriteReq command \<Rightarrow> leader_client_write L S msg i command
         | ReadReq command \<Rightarrow> leader_client_read L S msg i command
         | StatusReq \<Rightarrow>
             sbind (scatch (leader_status L S)) (\<lambda>result.
             send L (env_from msg) (ClientResponse i (rmap StatusResp result))))
     | Campaign _ _ \<Rightarrow> send L (env_from msg) (CampaignResponse False)
     | CampaignResponse _ \<Rightarrow> sret ()
     | ClientResponse _ _ \<Rightarrow> slift (Panic ''unexpected message'')
     | _ \<Rightarrow> slift (Panic ''saw other leader in term''))"

definition leader_step :: "'l log_ops \<Rightarrow> 's state_ops \<Rightarrow> envelope \<Rightarrow> (('l, 's) node, unit) action" where
  "leader_step L S msg =
     sbind (nread (node_term L)) (\<lambda>t.
     if env_term msg < t then sret ()
     else if env_term msg > t then
       sbind (leader_into_follower L (env_term msg)) (\<lambda>_. follower_step L S msg)
     else leader_message L S msg)"

definition leader_tick :: "'l log_ops \<Rightarrow> (('l, 's) node, unit) action" where
  "leader_tick L =
     sbind get_leader (\<lambda>l.
     sbind (slift (tick_succ (ld_since_heartbeat l))) (\<lambda>since.
     sbind (set_role (Leader (l\<lparr>ld_since_heartbeat := since\<rparr>))) (\<lambda>_.
     sbind (nread n_opts) (\<lambda>opts.
     if since \<ge> heartbeat_interval opts then heartbeat L else sret ()))))"

section \<open>Candidate steps\<close>

definition candidate_into_follower ::
    "'l log_ops \<Rightarrow> nat \<Rightarrow> node_id option \<Rightarrow> (('l, 's) node, unit) action" where
  "candidate_into_follower L trm leader =
     sbind random_election_timeout (\<lambda>timeout.
     sbind (nread (node_term L)) (\<lambda>self_term.
     case leader of
       Some i \<Rightarrow>
         sbind (sassert (trm = self_term) ''can't follow leader in different term'') (\<lambda>_.
         set_role (Follower (follower_new (Some i) timeout)))
     | None \<Rightarrow>
         sbind (sassert (trm \<noteq> self_term) ''can't become leaderless follower in current term'') (\<lambda>_.
         sbind (on_nlog (l_set_term_vote L trm None)) (\<lambda>_.
         set_role (Follower (follower_new None timeout))))))"

definition candidate_into_leader :: "'l log_ops \<Rightarrow> 's state_ops \<Rightarrow> (('l, 's) node, unit) action" where
  "candidate_into_leader L S =
     sbind (nread (\<lambda>n. (l_get_term_vote L (n_log n), n_id n, n_peers n))) (\<lambda>((trm, vote), self, peers).
     sbind (sassert (trm \<noteq> 0) ''leaders can't have term 0'') (\<lambda>_.
     sbind (sassert (vote = Some self) ''leader did not vote for self'') (\<lambda>_.
     sbind (nread (\<lambda>n. fst (l_get_last_index L (n_log n)))) (\<lambda>li.
     sbind (slift (leader_new peers li)) (\<lambda>l.
     sbind (set_role (Leader l)) (\<lambda>_.
     sbind (propose L None) (\<lambda>_.
     sbind (maybe_commit_and_apply L S) (\<lambda>_.
     heartbeat L))))))))"

definition candidate_message :: "'l log_ops \<Rightarrow> 's state_ops \<Rightarrow> envelope \<Rightarrow> (('l, 's) node, unit) action" where
  "candidate_message L S msg = (case env_message msg of
       CampaignResponse vote \<Rightarrow>
         if vote then
           sbind get_candidate (\<lambda>c.
           let votes = insert (env_from msg) (c_votes c) in
           sbind (set_role (Candidate (c\<lparr>c_votes := votes\<rparr>))) (\<lambda>_.
           sbind (nread quorum_size) (\<lambda>quorum.
           if card votes \<ge> quorum then candidate_into_leader L S else sret ())))
         else sret ()
     | Campaign _ _ \<Rightarrow> send L (env_from msg) (CampaignResponse False)
     | ClientRequest i _ \<Rightarrow> send L (env_from msg) (ClientResponse i (Err Abort))
     | HeartbeatResponse _ _ \<Rightarrow> slift (Panic ''unexpected message'')
     | AppendResponse _ _ \<Rightarrow> slift (Panic ''unexpected message'')
     | ReadResponse _ \<Rightarrow> slift (Panic ''unexpected message'')
     | ClientResponse _ _ \<Rightarrow> slift (Panic ''unexpected message'')
     | _ \<Rightarrow> sbind (candidate_into_follower L (env_term msg) (Some (env_from msg))) (\<lambda>_.
            follower_step L S msg))"

definition candidate_step :: "'l log_ops \<Rightarrow> 's state_ops \<Rightarrow> envelope \<Rightarrow> (('l, 's) node, unit) action" where
  "candidate_step L S msg =
     sbind (nread (node_term L)) (\<lambda>t.
     if env_term msg < t then sret ()
     else if env_term msg > t then
       sbind (candidate_into_follower L (env_term msg) None) (\<lambda>_. follower_step L S msg)
     else candidate_message L S msg)"

definition candidate_tick :: "'l log_ops \<Rightarrow> (('l, 's) node, unit) action" where
  "candidate_tick L =
     sbind get_candidate (\<lambda>c.
     sbind (slift (tick_succ (c_election_duration c))) (\<lambda>duration.
     sbind (set_role (Candidate (c\<lparr>c_election_duration := duration\<rparr>))) (\<lambda>_.
     if duration \<ge> c_election_timeout c then campaign L else sret ())))"

section \<open>Node\<close>

definition node_step :: "'l log_ops \<Rightarrow> 's state_ops \<Rightarrow> envelope \<Rightarrow> (('l, 's) node, unit) action" where
  "node_step L S msg =
     sbind (nread (\<lambda>n. n)) (\<lambda>n.
     sbind (sassert (env_to msg = n_id n) ''message to other node'') (\<lambda>_.
     sbind (sassert (env_from msg \<in> n_peers n \<or> env_from msg = n_id n) ''unknown sender'') (\<lambda>_.
     case n_role n of
       Candidate _ \<Rightarrow> candidate_step L S msg
     | Follower _ \<Rightarrow> follower_step L S msg
     | Leader _ \<Rightarrow> leader_step L S msg)))"

definition node_tick :: "'l log_ops \<Rightarrow> 's state_ops \<Rightarrow> (('l, 's) node, unit) action" where
  "node_tick L S =
     sbind (nread n_role) (\<lambda>r.
     case r of
       Candidate _ \<Rightarrow> candidate_tick L
     | Follower _ \<Rightarrow> follower_tick L S
     | Leader _ \<Rightarrow> leader_tick L)"

text \<open>A single-node cluster elects itself at once.\<close>

definition node_new ::
    "'l log_ops \<Rightarrow> 's state_ops \<Rightarrow> node_id \<Rightarrow> node_id set \<Rightarrow> 'l \<Rightarrow> 's \<Rightarrow> options \<Rightarrow> (nat \<Rightarrow> ticks) \<Rightarrow>
     unit result \<times> ('l, 's) node" where
  "node_new L S i peers log state opts rng =
     (case follower_node_new L S i peers log state opts rng of
        (Ok _, n) \<Rightarrow>
          if cluster_size n = 1
          then sbind (follower_into_candidate L S) (\<lambda>_. candidate_into_leader L S) n
          else (Ok (), n)
      | (r, n) \<Rightarrow> (r, n))"

end
