(* ===== verification/Raft_Cluster.thy ===== *)
theory Raft_Cluster
  imports Raft_Node
begin

text \<open>
  A cluster of Raft nodes: the nodes run the handlers of \<^verbatim>\<open>src/raft/node.rs\<close> as they are, over a network
  that may lose, delay, duplicate and reorder messages. A node whose handler fails stops, as the event
  loop of \<^verbatim>\<open>src/server.rs\<close> does, and any node may stop at any time; it restarts from what its log has on
  disk, with any state machine, any options and any random numbers.
\<close>

record ('l, 's) cluster =
  cl_nodes :: "node_id \<Rightarrow> ('l, 's) node"
  cl_alive :: "node_id set"
  cl_net :: "envelope set"

text \<open>The fields of a message on the wire are 64-bit.\<close>

fun msg_u64 :: "message \<Rightarrow> bool" where
  "msg_u64 (Campaign li lt) = (li < u64_limit \<and> lt < u64_limit)"
| "msg_u64 (Heartbeat li ci seq) = (li < u64_limit \<and> ci < u64_limit \<and> seq < u64_limit)"
| "msg_u64 (HeartbeatResponse m seq) = (m < u64_limit \<and> seq < u64_limit)"
| "msg_u64 (Append b bt es) = (b < u64_limit \<and> bt < u64_limit \<and>
     (\<forall>e\<in>set es. e_index e < u64_limit \<and> e_term e < u64_limit))"
| "msg_u64 (AppendResponse m r) = (m < u64_limit \<and> r < u64_limit)"
| "msg_u64 _ = True"

definition env_u64 :: "envelope \<Rightarrow> bool" where
  "env_u64 e = (env_term e < u64_limit \<and> msg_u64 (env_message e))"

text \<open>The cluster after node \<open>i\<close> ran an action.\<close>

definition node_ran :: "('l, 's) cluster \<Rightarrow> node_id \<Rightarrow> unit result \<times> ('l, 's) node \<Rightarrow> ('l, 's) cluster" where
  "node_ran C i p = (case p of (r, n) \<Rightarrow>
     \<lparr>cl_nodes = (cl_nodes C)(i := n), cl_alive = (if r = Ok () then insert i (cl_alive C) else cl_alive C - {i}),
      cl_net = cl_net C \<union> set (n_tx n)\<rparr>)"

text \<open>\<open>reopen\<close> relates a node's log when the node stops to the log it finds when it restarts.\<close>

inductive cluster_step ::
    "'l log_ops \<Rightarrow> 's state_ops \<Rightarrow> ('l \<Rightarrow> 'l \<Rightarrow> bool) \<Rightarrow> node_id set \<Rightarrow>
     ('l, 's) cluster \<Rightarrow> ('l, 's) cluster \<Rightarrow> bool" for L S reopen M where
  deliver: "e \<in> cl_net C \<Longrightarrow> env_u64 e \<Longrightarrow> env_to e = i \<Longrightarrow> i \<in> M \<Longrightarrow> i \<in> cl_alive C \<Longrightarrow>
    cluster_step L S reopen M C (node_ran C i (node_step L S e (cl_nodes C i)))"
| tick: "i \<in> M \<Longrightarrow> i \<in> cl_alive C \<Longrightarrow>
    cluster_step L S reopen M C (node_ran C i (node_tick L S (cl_nodes C i)))"
| client: "i \<in> M \<Longrightarrow> i \<in> cl_alive C \<Longrightarrow>
    cluster_step L S reopen M C (C\<lparr>cl_net := insert \<lparr>env_from = i, env_term = node_term L (cl_nodes C i),
      env_to = i, env_message = ClientRequest k request\<rparr> (cl_net C)\<rparr>)"
| stop: "cluster_step L S reopen M C (C\<lparr>cl_alive := cl_alive C - {i}\<rparr>)"
| restart: "i \<in> M \<Longrightarrow> i \<notin> cl_alive C \<Longrightarrow> reopen (n_log (cl_nodes C i)) l \<Longrightarrow>
    cluster_step L S reopen M C (node_ran C i (node_new L S i (M - {i}) l st opts rng))"

inductive cluster_reachable ::
    "'l log_ops \<Rightarrow> 's state_ops \<Rightarrow> ('l \<Rightarrow> 'l \<Rightarrow> bool) \<Rightarrow> node_id set \<Rightarrow> (node_id \<Rightarrow> 'l) \<Rightarrow>
     ('l, 's) cluster \<Rightarrow> bool" for L S reopen M logs where
  start: "cl_alive C = {} \<Longrightarrow> cl_net C = {} \<Longrightarrow> \<forall>i\<in>M. n_log (cl_nodes C i) = logs i \<Longrightarrow>
    cluster_reachable L S reopen M logs C"
| step: "cluster_reachable L S reopen M logs C \<Longrightarrow> cluster_step L S reopen M C C' \<Longrightarrow>
    cluster_reachable L S reopen M logs C'"

end
