(* ===== verification/Raft_Log_Ref.thy ===== *)
theory Raft_Log_Ref
  imports Raft_Log
begin

text \<open>
  The contract of the Raft log: a term, a vote, a list of entries and a commit position, with the
  operations of \<^verbatim>\<open>Log\<close> on them. The log in a storage engine refines it: the cached positions, the
  encoded keys and the scans always agree with the list.
\<close>

section \<open>The reference log\<close>

record rlog =
  r_term :: nat
  r_vote :: "node_id option"
  r_entries :: "entry list"
  r_commit :: nat

definition term_at :: "entry list \<Rightarrow> nat \<Rightarrow> nat" where
  "term_at es i = (if 0 < i \<and> i \<le> length es then e_term (es ! (i - 1)) else 0)"

definition r_get :: "rlog \<Rightarrow> nat \<Rightarrow> entry option" where
  "r_get R i = (if 0 < i \<and> i \<le> length (r_entries R) then Some (r_entries R ! (i - 1)) else None)"

definition r_has :: "rlog \<Rightarrow> nat \<Rightarrow> nat \<Rightarrow> bool" where
  "r_has R i t = (0 < i \<and> i \<le> length (r_entries R) \<and> term_at (r_entries R) i = t)"

definition r_set_term_vote :: "nat \<Rightarrow> node_id option \<Rightarrow> (rlog, unit) action" where
  "r_set_term_vote trm vote R =
     (sbind (sassert (trm > 0) ''can't set term 0'') (\<lambda>_.
      sbind (sassert (trm \<ge> r_term R) ''term regression'') (\<lambda>_.
      sbind (sassert (trm > r_term R \<or> r_vote R = None \<or> vote = r_vote R) ''can't change vote'') (\<lambda>_.
      (\<lambda>R. (Ok (), R\<lparr>r_term := trm, r_vote := vote\<rparr>)))))) R"

definition r_append :: "bytes option \<Rightarrow> (rlog, nat) action" where
  "r_append command R =
     (sbind (sassert (r_term R > 0) ''can't append entry in term 0'') (\<lambda>_.
      sbind (slift (u64_succ (length (r_entries R)))) (\<lambda>index.
      (\<lambda>R. (Ok index, R\<lparr>r_entries := r_entries R @
         [\<lparr>e_index = index, e_term = r_term R, e_command = command\<rparr>]\<rparr>))))) R"

definition r_commit_to :: "nat \<Rightarrow> (rlog, nat) action" where
  "r_commit_to index R =
     (sbind (sassert (0 < index \<and> index \<le> length (r_entries R)) ''commit index does not exist'') (\<lambda>_.
      sbind (sassert (index \<ge> r_commit R) ''commit index regression'') (\<lambda>_.
      (\<lambda>R. (Ok index, R\<lparr>r_commit := index\<rparr>)))) R)"

definition r_scan :: "nat bound \<times> nat bound \<Rightarrow> (rlog, entry result list) action" where
  "r_scan r R =
     (if range_valid r then Ok (map Ok (filter (\<lambda>e. in_range r (e_index e)) (r_entries R)))
      else Panic ''range start is greater than range end in BTreeMap'', R)"

definition r_scan_apply :: "nat \<Rightarrow> (rlog, entry result list) action" where
  "r_scan_apply applied R = (Ok (map Ok (drop applied (take (r_commit R) (r_entries R)))), R)"

text \<open>An entry that the log already holds, by index and term.\<close>

definition matches :: "entry list \<Rightarrow> entry \<Rightarrow> bool" where
  "matches es e = (e_index e \<le> length es \<and> e_term (es ! (e_index e - 1)) = e_term e)"

definition splice_list :: "entry list \<Rightarrow> entry list \<Rightarrow> entry list" where
  "splice_list es entries = (case dropWhile (matches es) entries of
       [] \<Rightarrow> es
     | e # rest \<Rightarrow> take (e_index e - 1) es @ e # rest)"

definition r_splice_at :: "entry list \<Rightarrow> nat \<Rightarrow> nat \<Rightarrow> entry list \<Rightarrow> (rlog, nat) action" where
  "r_splice_at es trm commit entries =
     (if entries = [] then sret (length es)
      else let first = hd entries; lst = last entries;
               same = takeWhile (matches es) entries; new = dropWhile (matches es) entries in
        sbind (sassert (e_index first > 0 \<and> e_term first > 0) ''spliced entry has index or term 0'') (\<lambda>_.
        sbind (sassert (windows_all (\<lambda>a b. e_index a + 1 = e_index b) entries)
          ''spliced entries are not contiguous'') (\<lambda>_.
        sbind (sassert (windows_all (\<lambda>a b. e_term a \<le> e_term b) entries)
          ''spliced entries have term regression'') (\<lambda>_.
        sbind (sassert (e_term lst \<le> trm) ''splice term beyond current'') (\<lambda>_.
        sbind (sassert (e_index first \<le> length es + 1) ''first index must touch existing log'') (\<lambda>_.
        sbind (sassert (term_at es (e_index first - 1) \<le> e_term first) ''splice term regression'') (\<lambda>_.
        sbind (sassert (\<forall>e\<in>set same. e_command (es ! (e_index e - 1)) = e_command e) ''command mismatch'') (\<lambda>_.
        sbind (sassert (new = [] \<or> e_index (hd new) > commit) ''spliced entries below commit index'') (\<lambda>_.
        (\<lambda>R. let es' = splice_list es entries in (Ok (length es'), R\<lparr>r_entries := es'\<rparr>)))))))))))"

definition r_splice :: "entry list \<Rightarrow> (rlog, nat) action" where
  "r_splice entries R = r_splice_at (r_entries R) (r_term R) (r_commit R) entries R"

text \<open>Well-formed entries: contiguous indexes from 1, terms that start above 0 and never decrease.\<close>

definition entries_wf :: "entry list \<Rightarrow> bool" where
  "entries_wf es = ((\<forall>i<length es. e_index (es ! i) = i + 1 \<and> 0 < e_term (es ! i)) \<and>
     sorted (map e_term es))"

definition rlog_wf :: "rlog \<Rightarrow> bool" where
  "rlog_wf R = (entries_wf (r_entries R) \<and> length (r_entries R) < u64_limit \<and> r_term R < u64_limit \<and>
     (\<forall>e\<in>set (r_entries R). e_term e \<le> r_term R) \<and> r_commit R \<le> length (r_entries R) \<and>
     (r_term R = 0 \<longrightarrow> r_vote R = None))"

definition raft_codec_ok :: "raft_codec \<Rightarrow> bool" where
  "raft_codec_ok bc =
     ((\<forall>e. e_index e < u64_limit \<and> e_term e < u64_limit \<longrightarrow>
        decode (entry_codec bc) (encode (entry_codec bc) e) = Ok e) \<and>
      (\<forall>t v. t < u64_limit \<longrightarrow> decode (term_vote_codec bc) (encode (term_vote_codec bc) (t, v)) = Ok (t, v)) \<and>
      (\<forall>i t. i < u64_limit \<and> t < u64_limit \<longrightarrow>
        decode (commit_codec bc) (encode (commit_codec bc) (i, t)) = Ok (i, t)))"

section \<open>The log in an engine\<close>

fun log_key_ok :: "log_key \<Rightarrow> bool" where
  "log_key_ok (LEntry i) = (i < u64_limit)"
| "log_key_ok _ = True"

fun lookup_log :: "raft_codec \<Rightarrow> rlog \<Rightarrow> log_key \<Rightarrow> bytes option" where
  "lookup_log bc R (LEntry i) = map_option (encode (entry_codec bc)) (r_get R i)"
| "lookup_log bc R LTermVote =
     (if r_term R = 0 then None else Some (encode (term_vote_codec bc) (r_term R, r_vote R)))"
| "lookup_log bc R LCommitIndex =
     (if r_commit R = 0 then None
      else Some (encode (commit_codec bc) (r_commit R, term_at (r_entries R) (r_commit R))))"

definition log_store :: "raft_codec \<Rightarrow> rlog \<Rightarrow> memory \<Rightarrow> bool" where
  "log_store bc R m = (ordered m \<and> (\<forall>k\<in>fst ` set m. \<exists>K. log_key_ok K \<and> k = encode_log_key K) \<and>
     (\<forall>K. log_key_ok K \<longrightarrow> map_of m (encode_log_key K) = lookup_log bc R K))"

definition log_rel :: "raft_codec \<Rightarrow> rlog \<Rightarrow> memory raft_log \<Rightarrow> bool" where
  "log_rel bc R l = (rlog_wf R \<and> log_store bc R (log_engine l) \<and>
     log_term l = r_term R \<and> log_vote l = r_vote R \<and>
     last_index l = length (r_entries R) \<and> last_term l = term_at (r_entries R) (length (r_entries R)) \<and>
     commit_index l = r_commit R \<and> commit_term l = term_at (r_entries R) (r_commit R))"

section \<open>Keys of the log\<close>

definition log_key_ty :: sty where
  "log_key_ty = TEnum [VNewtype TU64, VUnit, VUnit]"

lemma typed_log_key [simp]: "typed (log_key_sval K) log_key_ty"
  by (cases K) (simp_all add: log_key_ty_def)

lemma encode_log_key_bytes: "encode_log_key K = key_bytes (log_key_sval K)"
  by (simp add: encode_log_key_def serialize_typed[OF typed_log_key])

lemma serialize_log_key: "serialize (log_key_sval K) = Ok (encode_log_key K)"
  by (simp add: encode_log_key_bytes serialize_typed[OF typed_log_key])

lemma of_nat_u64_less: "i < u64_limit \<Longrightarrow> j < u64_limit \<Longrightarrow> (of_nat i :: u64) < of_nat j \<longleftrightarrow> i < j"
  by (simp add: u64_limit_def word_less_nat_alt unat_of_nat)

lemma encode_log_key_less:
  "encode_log_key K < encode_log_key K' \<longleftrightarrow> sval_less (log_key_sval K) (log_key_sval K')"
  unfolding encode_log_key_bytes by (rule key_bytes_less[OF typed_log_key typed_log_key])

lemma entry_key_less [simp]:
  "i < u64_limit \<Longrightarrow> j < u64_limit \<Longrightarrow> encode_log_key (LEntry i) < encode_log_key (LEntry j) \<longleftrightarrow> i < j"
  by (simp add: encode_log_key_less of_nat_u64_less index_less_def)

lemma entry_key_le [simp]:
  "i < u64_limit \<Longrightarrow> j < u64_limit \<Longrightarrow> encode_log_key (LEntry i) \<le> encode_log_key (LEntry j) \<longleftrightarrow> i \<le> j"
  by (simp add: linorder_not_less[symmetric])

lemma entry_key_least: "encode_log_key (LEntry i) < encode_log_key LTermVote"
  "encode_log_key (LEntry i) < encode_log_key LCommitIndex"
  "encode_log_key LTermVote < encode_log_key LCommitIndex"
  by (simp_all add: encode_log_key_less index_less_def)

lemma encode_log_key_inject:
  assumes "log_key_ok K" "log_key_ok K'"
  shows "encode_log_key K = encode_log_key K' \<longleftrightarrow> K = K'"
proof
  assume *: "encode_log_key K = encode_log_key K'"
  show "K = K'"
  proof (rule ccontr)
    assume "K \<noteq> K'"
    then have "encode_log_key K < encode_log_key K' \<or> encode_log_key K' < encode_log_key K"
      using assms by (cases K; cases K') (auto simp: entry_key_least neq_iff)
    then show False using * by simp
  qed
qed simp

section \<open>Reading and writing the store\<close>

lemma log_store_get:
  "log_store bc R m \<Longrightarrow> log_key_ok K \<Longrightarrow> map_of m (encode_log_key K) = lookup_log bc R K"
  by (simp add: log_store_def)

lemma log_store_insert:
  assumes "log_store bc R m" "log_key_ok K"
    "\<And>K'. log_key_ok K' \<Longrightarrow> lookup_log bc R' K' = (if K' = K then Some v else lookup_log bc R K')"
  shows "log_store bc R' (btree_insert (encode_log_key K) v m)"
  using assms by (auto simp: log_store_def encode_log_key_inject)

lemma r_get_simps [simp]: "r_get R 0 = None"
  by (simp add: r_get_def)

lemma entries_wf_nth: "entries_wf es \<Longrightarrow> 0 < i \<Longrightarrow> i \<le> length es \<Longrightarrow> e_index (es ! (i - 1)) = i"
  by (simp add: entries_wf_def)

lemma entries_wf_index:
  assumes "entries_wf es" "e \<in> set es"
  shows "0 < e_index e \<and> e_index e \<le> length es \<and> es ! (e_index e - 1) = e \<and> 0 < e_term e"
  using assms by (auto simp: entries_wf_def in_set_conv_nth)

lemma entries_wf_map: "entries_wf es \<Longrightarrow> map e_index es = [1..<length es + 1]"
  by (intro nth_equalityI) (simp_all add: entries_wf_def del: upt_Suc)

lemma rlog_entry_ok:
  assumes "rlog_wf R" "raft_codec_ok bc" "e \<in> set (r_entries R)"
  shows "decode (entry_codec bc) (encode (entry_codec bc) e) = Ok e"
  using assms entries_wf_index[of "r_entries R" e] unfolding rlog_wf_def raft_codec_ok_def by fastforce

lemma r_get_mem: "r_get R i = Some e \<Longrightarrow> e \<in> set (r_entries R)"
  by (auto simp: r_get_def split: if_splits)

text \<open>A store is determined by what it holds: the entries, then the two metadata keys.\<close>

definition log_memory :: "raft_codec \<Rightarrow> rlog \<Rightarrow> memory" where
  "log_memory bc R =
     map (\<lambda>e. (encode_log_key (LEntry (e_index e)), encode (entry_codec bc) e)) (r_entries R) @
     (case lookup_log bc R LTermVote of None \<Rightarrow> [] | Some v \<Rightarrow> [(encode_log_key LTermVote, v)]) @
     (case lookup_log bc R LCommitIndex of None \<Rightarrow> [] | Some v \<Rightarrow> [(encode_log_key LCommitIndex, v)])"

lemma ordered_log_memory:
  assumes "rlog_wf R"
  shows "ordered (log_memory bc R)"
proof -
  have wf: "entries_wf (r_entries R)" "length (r_entries R) < u64_limit"
    using assms by (auto simp: rlog_wf_def)
  have "map (\<lambda>e. encode_log_key (LEntry (e_index e))) (r_entries R)
      = map (\<lambda>i. encode_log_key (LEntry i)) [1..<length (r_entries R) + 1]"
    unfolding entries_wf_map[OF wf(1), symmetric] by simp
  moreover have "sorted_wrt (<) (map (\<lambda>i. encode_log_key (LEntry i)) [1..<length (r_entries R) + 1])"
    unfolding sorted_wrt_map
    by (rule sorted_wrt_mono_rel[OF _ sorted_wrt_upt[of 1 "length (r_entries R) + 1"]]) (use wf(2) in auto)
  ultimately have "sorted_wrt (<) (map (\<lambda>e. encode_log_key (LEntry (e_index e))) (r_entries R))"
    by simp
  then show ?thesis
    unfolding log_memory_def
    by (auto simp: sorted_wrt_append entry_key_least comp_def split: option.splits)
qed

lemma map_of_log_memory:
  assumes "rlog_wf R" "log_key_ok K"
  shows "map_of (log_memory bc R) (encode_log_key K) = lookup_log bc R K"
proof -
  have wf: "entries_wf (r_entries R)" "length (r_entries R) < u64_limit"
    using assms by (auto simp: rlog_wf_def)
  have iff: "map_of (log_memory bc R) k = Some v \<longleftrightarrow> (k, v) \<in> set (log_memory bc R)" for k v
    by (rule ordered_map_of_iff[OF ordered_log_memory[OF assms(1)]])
  have key: "encode_log_key K = encode_log_key (LEntry (e_index e)) \<longleftrightarrow> K = LEntry (e_index e)"
    if "e \<in> set (r_entries R)" for e
    using encode_log_key_inject[OF assms(2), of "LEntry (e_index e)"] entries_wf_index[OF wf(1) that] wf(2)
    by auto
  have inj: "encode_log_key K = encode_log_key LTermVote \<longleftrightarrow> K = LTermVote"
    "encode_log_key K = encode_log_key LCommitIndex \<longleftrightarrow> K = LCommitIndex"
    using encode_log_key_inject[OF assms(2)] by simp_all
  have "(encode_log_key K, v) \<in> set (log_memory bc R) \<longleftrightarrow> lookup_log bc R K = Some v" for v
  proof (cases K)
    case (LEntry i)
    have get: "r_get R i = Some e \<longleftrightarrow> e \<in> set (r_entries R) \<and> e_index e = i" for e
      using entries_wf_index[OF wf(1), of e] entries_wf_nth[OF wf(1), of i] r_get_mem[of R i e]
      by (auto simp: r_get_def split: if_splits)
    have "(encode_log_key K, v) \<in> set (log_memory bc R) \<longleftrightarrow>
        (\<exists>e\<in>set (r_entries R). K = LEntry (e_index e) \<and> v = encode (entry_codec bc) e)"
      using key inj LEntry unfolding log_memory_def by (auto split: option.splits)
    then show ?thesis using get LEntry by auto
  qed (use key inj in \<open>auto simp: log_memory_def split: option.splits\<close>)
  then show ?thesis using iff by (metis not_Some_eq)
qed

lemma log_memory_keys:
  assumes "rlog_wf R" "k \<in> fst ` set (log_memory bc R)"
  shows "\<exists>K. log_key_ok K \<and> k = encode_log_key K"
proof -
  consider e where "e \<in> set (r_entries R)" "k = encode_log_key (LEntry (e_index e))"
    | "k = encode_log_key LTermVote" | "k = encode_log_key LCommitIndex"
    using assms(2) unfolding log_memory_def by (auto split: option.splits if_splits)
  then show ?thesis
  proof cases
    case 1
    then have "log_key_ok (LEntry (e_index e))"
      using entries_wf_index[of "r_entries R" e] assms(1) by (auto simp: rlog_wf_def)
    then show ?thesis using 1 by blast
  qed (metis log_key_ok.simps)+
qed

lemma log_store_iff:
  assumes "rlog_wf R"
  shows "log_store bc R m \<longleftrightarrow> m = log_memory bc R"
proof
  assume m: "log_store bc R m"
  have "map_of m k = map_of (log_memory bc R) k" for k
  proof (cases "\<exists>K. log_key_ok K \<and> k = encode_log_key K")
    case True
    then show ?thesis using map_of_log_memory[OF assms] log_store_get[OF m] by auto
  next
    case False
    then have "k \<notin> fst ` set (log_memory bc R)" "k \<notin> fst ` set m"
      using log_memory_keys[OF assms] m unfolding log_store_def by blast+
    then show ?thesis by (metis map_of_eq_None_iff)
  qed
  then show "m = log_memory bc R"
    using ordered_log_memory[OF assms] m by (intro ordered_unique) (auto simp: log_store_def)
next
  assume "m = log_memory bc R"
  then show "log_store bc R m"
    using ordered_log_memory[OF assms] map_of_log_memory[OF assms] log_memory_keys[OF assms]
    unfolding log_store_def by blast
qed

section \<open>The operations on the in-memory engine\<close>

text \<open>A log in memory that represents \<open>R\<close> holds exactly the encoded \<open>R\<close>.\<close>

fun index_bound_ok :: "nat bound \<Rightarrow> bool" where
  "index_bound_ok (Included i) = (i < u64_limit)"
| "index_bound_ok (Excluded i) = (i < u64_limit)"
| "index_bound_ok Unbounded = True"

lemma u64_limit_pos [simp]: "0 < u64_limit" "u64_limit - Suc 0 < u64_limit"
  by (simp_all add: u64_limit_def)

lemma log_rel_memory:
  "log_rel bc R l \<Longrightarrow> log_engine l = log_memory bc R"
  using log_store_iff by (auto simp: log_rel_def)

lemma log_rel_get:
  "log_rel bc R l \<Longrightarrow> log_key_ok K \<Longrightarrow> map_of (log_engine l) (encode_log_key K) = lookup_log bc R K"
  by (auto simp: log_rel_def log_store_get)

lemma log_get_mem:
  assumes "log_rel bc R l" "raft_codec_ok bc" "i < u64_limit"
  shows "log_get memory_ops bc i l = (Ok (r_get R i), l)"
proof -
  have "rlog_wf R" using assms(1) by (simp add: log_rel_def)
  then have "decode (entry_codec bc) (encode (entry_codec bc) e) = Ok e" if "r_get R i = Some e" for e
    using rlog_entry_ok[OF _ assms(2)] r_get_mem[OF that] by blast
  then show ?thesis
    using log_rel_get[OF assms(1), of "LEntry i"] assms(3)
    by (cases "r_get R i") (auto simp: log_get_def monad_simps on_engine_def mem_simps)
qed

lemma log_has_mem:
  assumes "log_rel bc R l" "raft_codec_ok bc" "i < u64_limit"
  shows "log_has memory_ops bc i t l = (Ok (r_has R i t), l)"
  using assms log_get_mem[OF assms]
  by (auto simp: log_has_def monad_simps read_log_def get_last_index_def r_has_def log_rel_def r_get_def term_at_def)

definition key_bounds :: "nat bound \<times> nat bound \<Rightarrow> key_range" where
  "key_bounds r =
     (case fst r of
        Excluded i \<Rightarrow> Excluded (encode_log_key (LEntry i))
      | Included i \<Rightarrow> Included (encode_log_key (LEntry i))
      | Unbounded \<Rightarrow> Included (encode_log_key (LEntry 0)),
      case snd r of
        Excluded i \<Rightarrow> Excluded (encode_log_key (LEntry i))
      | Included i \<Rightarrow> Included (encode_log_key (LEntry i))
      | Unbounded \<Rightarrow> Included (encode_log_key (LEntry (u64_limit - 1))))"

lemma key_bounds_entry:
  assumes "index_bound_ok (fst r)" "index_bound_ok (snd r)" "i < u64_limit"
  shows "in_range (key_bounds r) (encode_log_key (LEntry i)) \<longleftrightarrow> in_range r i"
proof -
  have "i \<le> u64_limit - Suc 0" using assms(3) by simp
  then show ?thesis
    using assms by (cases r; cases "fst r"; cases "snd r") (auto simp: key_bounds_def in_range_def)
qed

lemma key_bounds_valid:
  assumes "index_bound_ok (fst r)" "index_bound_ok (snd r)"
  shows "range_valid (key_bounds r) \<longleftrightarrow> range_valid r"
proof -
  have "i \<le> u64_limit - Suc 0" if "i < u64_limit" for i using that by simp
  then show ?thesis
    using assms by (cases r; cases "fst r"; cases "snd r") (auto simp: key_bounds_def)
qed

lemma key_bounds_meta:
  "\<not> in_range (key_bounds r) (encode_log_key LTermVote)"
  "\<not> in_range (key_bounds r) (encode_log_key LCommitIndex)"
  by (cases r; cases "snd r"; simp add: key_bounds_def in_range_def not_le not_less entry_key_least less_imp_le)+

lemma filter_log_memory:
  assumes "rlog_wf R" "index_bound_ok (fst r)" "index_bound_ok (snd r)"
  shows "filter (\<lambda>p. in_range (key_bounds r) (fst p)) (log_memory bc R) =
    map (\<lambda>e. (encode_log_key (LEntry (e_index e)), encode (entry_codec bc) e))
      (filter (\<lambda>e. in_range r (e_index e)) (r_entries R))"
proof -
  have "in_range (key_bounds r) (encode_log_key (LEntry (e_index e))) \<longleftrightarrow> in_range r (e_index e)"
    if "e \<in> set (r_entries R)" for e
    using key_bounds_entry[OF assms(2,3)] entries_wf_index[OF _ that] assms(1)
    by (auto simp: rlog_wf_def)
  then show ?thesis
    by (auto simp: log_memory_def key_bounds_meta filter_map comp_def split: option.splits
        intro!: arg_cong[where f = "map _"] filter_cong)
qed

lemma log_scan_mem:
  assumes "log_rel bc R l" "raft_codec_ok bc" "index_bound_ok (fst r)" "index_bound_ok (snd r)"
  shows "log_scan memory_ops bc r l = (fst (r_scan r R), l)"
proof -
  have wf: "rlog_wf R" using assms(1) by (simp add: log_rel_def)
  have "log_scan memory_ops bc r = sbind (on_engine (eng_scan memory_ops (key_bounds r)))
      (\<lambda>scan. sret (log_iterator bc scan))"
    by (simp add: log_scan_def key_bounds_def Let_def)
  moreover have "log_iterator bc (map Ok (map (\<lambda>e. (encode_log_key (LEntry (e_index e)), encode (entry_codec bc) e))
      (filter P (r_entries R)))) = map Ok (filter P (r_entries R))" for P
    using rlog_entry_ok[OF wf assms(2)] by (simp add: log_iterator_def)
  ultimately show ?thesis
    using filter_log_memory[OF wf assms(3,4)] key_bounds_valid[OF assms(3,4)] log_rel_memory[OF assms(1)]
    by (simp add: monad_simps on_engine_def mem_simps btree_range_def r_scan_def)
qed

lemma sorted_terms_snoc:
  "sorted (map e_term (es @ [e])) \<longleftrightarrow> sorted (map e_term es) \<and> (\<forall>a\<in>set es. e_term a \<le> e_term e)"
  by (simp add: sorted_append)

lemma entries_wf_snoc:
  "entries_wf (es @ [e]) \<longleftrightarrow> entries_wf es \<and> e_index e = length es + 1 \<and> 0 < e_term e \<and>
     (\<forall>a\<in>set es. e_term a \<le> e_term e)"
  unfolding entries_wf_def sorted_terms_snoc by (auto simp: nth_append less_Suc_eq)

lemma filter_index_range:
  assumes "entries_wf es"
  shows "filter (\<lambda>e. in_range (Included a, Included b) (e_index e)) es = drop (a - 1) (take b es)"
  using assms
proof (induction es rule: rev_induct)
  case (snoc e es)
  have "entries_wf es" "e_index e = length es + 1"
    using snoc.prems by (simp_all add: entries_wf_snoc)
  then show ?case using snoc.IH by (auto simp: in_range_def)
qed simp

lemma log_scan_apply_mem:
  assumes "log_rel bc R l" "raft_codec_ok bc"
  shows "log_scan_apply memory_ops bc a l = (fst (r_scan_apply a R), l)"
proof (cases "a < r_commit R")
  case True
  have wf: "entries_wf (r_entries R)" "r_commit R \<le> length (r_entries R)" "length (r_entries R) < u64_limit"
    using assms(1) by (auto simp: log_rel_def rlog_wf_def)
  have "log_scan memory_ops bc (Included (a + 1), Included (r_commit R)) l =
      (fst (r_scan (Included (a + 1), Included (r_commit R)) R), l)"
    using True wf by (intro log_scan_mem[OF assms]) auto
  then show ?thesis
    using True assms(1) filter_index_range[OF wf(1), of "a + 1" "r_commit R"]
    by (simp add: log_scan_apply_def monad_simps read_log_def log_rel_def r_scan_def r_scan_apply_def)
next
  case False
  then show ?thesis
    using assms(1) by (simp add: log_scan_apply_def r_scan_apply_def log_rel_def monad_simps read_log_def)
qed

section \<open>Writes\<close>

text \<open>An action on the log in memory follows an action on the reference log: same result, and the
  new log represents the new reference log.\<close>

definition follows ::
    "raft_codec \<Rightarrow> (memory raft_log, 'a) action \<Rightarrow> (rlog, 'a) action \<Rightarrow> rlog \<Rightarrow> memory raft_log \<Rightarrow> bool" where
  "follows bc m m' R l = (\<exists>l'. m l = (fst (m' R), l') \<and> log_rel bc (snd (m' R)) l')"

lemma r_get_append:
  "r_get (R\<lparr>r_entries := r_entries R @ [e]\<rparr>) i = (if i = length (r_entries R) + 1 then Some e else r_get R i)"
  by (auto simp: r_get_def nth_append)

lemma term_at_append [simp]: "i \<le> length es \<Longrightarrow> term_at (es @ xs) i = term_at es i"
  by (auto simp: term_at_def nth_append)

lemma term_at_snoc [simp]: "term_at (es @ [e]) (Suc (length es)) = e_term e"
  by (simp add: term_at_def)

lemma set_term_vote_mem:
  assumes "log_rel bc R l" "trm < u64_limit"
  shows "follows bc (set_term_vote memory_ops bc trm vote) (r_set_term_vote trm vote) R l"
proof -
  have wf: "rlog_wf R" and store: "log_store bc R (log_engine l)" using assms(1) by (auto simp: log_rel_def)
  define R' where "R' = R\<lparr>r_term := trm, r_vote := vote\<rparr>"
  have R': "r_term R' = trm" "r_vote R' = vote" "r_entries R' = r_entries R" "r_commit R' = r_commit R"
    by (simp_all add: R'_def)
  have store': "log_store bc R'
      (btree_insert (encode_log_key LTermVote) (encode (term_vote_codec bc) (trm, vote)) (log_engine l))"
    if "trm > 0"
  proof (rule log_store_insert[OF store])
    fix K'
    show "lookup_log bc R' K' =
        (if K' = LTermVote then Some (encode (term_vote_codec bc) (trm, vote)) else lookup_log bc R K')"
      using that by (cases K') (auto simp: r_get_def R')
  qed simp
  have wf': "rlog_wf R'" if "trm > 0" "trm \<ge> r_term R"
    using wf assms(2) that by (fastforce simp: rlog_wf_def R')
  have same: "log_store bc R' (log_engine l)" if "trm = r_term R" "vote = r_vote R"
    using that store by (simp add: R'_def)
  show ?thesis
    using assms(1) store' wf' same
    by (auto simp: follows_def set_term_vote_def r_set_term_vote_def monad_simps on_engine_def mem_simps
        update_log_def read_log_def get_term_vote_def log_rel_def R' simp flip: R'_def)
qed

lemma maybe_flush_mem [simp]: "maybe_flush memory_ops l = (Ok (), l)"
  by (simp add: maybe_flush_def on_engine_def mem_simps monad_simps read_log_def)

lemma log_append_mem:
  assumes "log_rel bc R l"
  shows "follows bc (log_append memory_ops bc command) (r_append command) R l"
proof -
  have wf: "rlog_wf R" and store: "log_store bc R (log_engine l)" using assms by (auto simp: log_rel_def)
  let ?n = "length (r_entries R) + 1"
  let ?e = "\<lparr>e_index = ?n, e_term = r_term R, e_command = command\<rparr>"
  let ?R = "R\<lparr>r_entries := r_entries R @ [?e]\<rparr>"
  show ?thesis
  proof (cases "r_term R > 0 \<and> ?n < u64_limit")
    case True
    have "log_store bc ?R (btree_insert (encode_log_key (LEntry ?n)) (encode (entry_codec bc) ?e) (log_engine l))"
    proof (rule log_store_insert[OF store])
      fix K'
      show "lookup_log bc ?R K' =
          (if K' = LEntry ?n then Some (encode (entry_codec bc) ?e) else lookup_log bc R K')"
        using wf by (cases K') (auto simp: r_get_append rlog_wf_def)
    qed (use True in simp)
    moreover have "rlog_wf ?R"
      using wf True by (auto simp: rlog_wf_def entries_wf_snoc)
    ultimately show ?thesis
      using assms True
      by (auto simp: follows_def log_append_def r_append_def monad_simps on_engine_def mem_simps
          update_log_def read_log_def log_rel_def u64_succ_def rlog_wf_def)
  next
    case False
    then show ?thesis
      using assms
      by (auto simp: follows_def log_append_def r_append_def monad_simps read_log_def log_rel_def u64_succ_def)
  qed
qed

lemma r_get_index:
  "rlog_wf R \<Longrightarrow> r_get R i = Some e \<Longrightarrow> e_index e = i \<and> 0 < i \<and> i \<le> length (r_entries R) \<and>
     e_term e = term_at (r_entries R) i"
  by (auto simp: r_get_def term_at_def rlog_wf_def entries_wf_def split: if_splits)

lemma log_commit_mem:
  assumes "log_rel bc R l" "raft_codec_ok bc" "i < u64_limit"
  shows "follows bc (log_commit memory_ops bc i) (r_commit_to i) R l"
proof (cases "r_get R i")
  case None
  then have "\<not> (0 < i \<and> i \<le> length (r_entries R))" by (auto simp: r_get_def split: if_splits)
  then show ?thesis
    using None assms log_get_mem[OF assms]
    by (auto simp: follows_def log_commit_def r_commit_to_def monad_simps read_log_def)
next
  case (Some e)
  have wf: "rlog_wf R" and store: "log_store bc R (log_engine l)" using assms by (auto simp: log_rel_def)
  note e = r_get_index[OF wf Some]
  let ?R = "R\<lparr>r_commit := i\<rparr>"
  have "log_store bc ?R (btree_insert (encode_log_key LCommitIndex)
      (encode (commit_codec bc) (i, e_term e)) (log_engine l))"
  proof (rule log_store_insert[OF store])
    fix K'
    show "lookup_log bc ?R K' =
        (if K' = LCommitIndex then Some (encode (commit_codec bc) (i, e_term e)) else lookup_log bc R K')"
      using e by (cases K') (auto simp: r_get_def)
  qed simp
  moreover have "rlog_wf ?R" using wf e by (auto simp: rlog_wf_def)
  moreover have "R\<lparr>r_commit := r_commit R\<rparr> = R" by simp
  ultimately show ?thesis
    using e Some assms log_get_mem[OF assms]
    by (auto simp: follows_def log_commit_def r_commit_to_def monad_simps on_engine_def mem_simps
        update_log_def read_log_def log_rel_def)
qed

section \<open>Splicing\<close>

lemma windows_contiguous:
  "windows_all (\<lambda>a b. e_index a + 1 = e_index b) xs \<Longrightarrow> j < length xs \<Longrightarrow>
     e_index (xs ! j) = e_index (hd xs) + j"
proof (induction xs arbitrary: j)
  case (Cons a xs)
  then show ?case by (cases xs; cases j) auto
qed simp

lemma windows_sorted: "windows_all (\<lambda>a b. e_term a \<le> e_term b) xs \<longleftrightarrow> sorted (map e_term xs)"
proof (induction xs)
  case (Cons a xs)
  then show ?case by (cases xs) (auto intro: order_trans)
qed simp

lemma entries_wf_append:
  "entries_wf (xs @ ys) \<longleftrightarrow> entries_wf xs \<and>
     (\<forall>j<length ys. e_index (ys ! j) = length xs + j + 1 \<and> 0 < e_term (ys ! j)) \<and>
     sorted (map e_term ys) \<and> (\<forall>x\<in>set xs. \<forall>y\<in>set ys. e_term x \<le> e_term y)"
proof (induction ys rule: rev_induct)
  case (snoc y ys)
  show ?case
    unfolding append_assoc[symmetric] entries_wf_snoc snoc.IH sorted_terms_snoc
    by (auto simp: nth_append less_Suc_eq)
qed (simp add: entries_wf_def)

text \<open>The loop over the stored entries drops the ones already present, provided that they hold the
  same commands.\<close>

lemma skip_existing_scan:
  assumes "entries_wf es" "\<forall>j<length entries. e_index (entries ! j) = f + j" "0 < f"
    "n = f - 1 + length entries"
  shows "skip_existing (map Ok (drop (f - 1) (take n es))) entries =
    (if \<forall>e\<in>set (takeWhile (matches es) entries). e_command (es ! (e_index e - 1)) = e_command e
     then Ok (dropWhile (matches es) entries) else Panic ''command mismatch'')"
  using assms(2-)
proof (induction entries arbitrary: f)
  case (Cons e entries)
  have f: "e_index e = f" using Cons.prems(1) by fastforce
  show ?case
  proof (cases "f \<le> length es")
    case True
    have split: "drop (f - 1) (take n es) = es ! (f - 1) # drop f (take n es)"
      using Cons_nth_drop_Suc[of "f - 1" "take n es"] True Cons.prems(2,3)
      by (simp add: less_diff_conv2 Suc_le_eq flip: less_eq_Suc_le)
    have "e_index (es ! (f - 1)) = f" using entries_wf_nth[OF assms(1)] True Cons.prems(2) by simp
    moreover have "\<forall>j<length entries. e_index (entries ! j) = f + 1 + j"
    proof (intro allI impI)
      fix j assume "j < length entries"
      then show "e_index (entries ! j) = f + 1 + j"
        using Cons.prems(1)[rule_format, of "Suc j"] by simp
    qed
    moreover have "matches es e \<longleftrightarrow> e_term (es ! (f - 1)) = e_term e"
      using True f by (simp add: matches_def)
    moreover have "n = f + 1 - 1 + length entries" using Cons.prems(2,3) by simp
    ultimately show ?thesis
      using Cons.IH[of "f + 1"] unfolding split by (auto simp: f simp del: One_nat_def)
  next
    case False
    then have "\<not> matches es e" using f by (simp add: matches_def)
    then show ?thesis using False by simp
  qed
qed simp

lemma takeWhile_matches_eq:
  assumes "entries_wf es" "\<forall>j<length entries. e_index (entries ! j) = f + j" "0 < f" "f \<le> length es + 1"
    "\<forall>e\<in>set (takeWhile (matches es) entries). e_command (es ! (e_index e - 1)) = e_command e"
  shows "take (f - 1) es @ takeWhile (matches es) entries =
    take (f - 1 + length (takeWhile (matches es) entries)) es"
  using assms(2-)
proof (induction entries arbitrary: f)
  case (Cons e entries)
  have f: "e_index e = f" using Cons.prems(1) by fastforce
  show ?case
  proof (cases "matches es e")
    case True
    have le: "f \<le> length es" using True f by (simp add: matches_def)
    have "e_index (es ! (f - 1)) = f" using entries_wf_nth[OF assms(1)] le Cons.prems(2) by simp
    moreover have "e_command (es ! (f - 1)) = e_command e" using Cons.prems(4) True f by simp
    moreover have "e_term (es ! (f - 1)) = e_term e" using True f by (simp add: matches_def)
    ultimately have e: "es ! (f - 1) = e" using f by (intro entry.equality) simp_all
    have "\<forall>j<length entries. e_index (entries ! j) = f + 1 + j"
    proof (intro allI impI)
      fix j assume "j < length entries"
      then show "e_index (entries ! j) = f + 1 + j"
        using Cons.prems(1)[rule_format, of "Suc j"] by simp
    qed
    moreover have "take f es = take (f - 1) es @ [e]"
      using e le Cons.prems(2) take_Suc_conv_app_nth[of "f - 1" es] by simp
    moreover have "\<forall>a\<in>set (takeWhile (matches es) entries). e_command (es ! (e_index a - 1)) = e_command a"
      using Cons.prems(4) True by simp
    ultimately show ?thesis using Cons.IH[of "f + 1"] True Cons.prems(2) le by simp
  qed simp
qed simp

text \<open>So the spliced list is the old log up to the first new entry, followed by all new entries, unless
  every entry was already there.\<close>

lemma splice_list_eq:
  assumes "entries_wf es" "\<forall>j<length entries. e_index (entries ! j) = f + j" "0 < f" "f \<le> length es + 1"
    "\<forall>e\<in>set (takeWhile (matches es) entries). e_command (es ! (e_index e - 1)) = e_command e"
  shows "splice_list es entries =
    (if dropWhile (matches es) entries = [] then es else take (f - 1) es @ entries)"
proof (cases "dropWhile (matches es) entries")
  case (Cons e rest)
  let ?k = "length (takeWhile (matches es) entries)"
  have split: "entries = takeWhile (matches es) entries @ e # rest"
    using takeWhile_dropWhile_id[of "matches es" entries] Cons by simp
  have "?k < length entries \<and> e = entries ! ?k"
    using arg_cong[OF split, of length] arg_cong[OF split, of "\<lambda>xs. xs ! ?k"]
    by (simp only: nth_append_length) simp
  then have "e_index e - 1 = f - 1 + ?k" using assms(2,3) by simp
  then have "take (e_index e - 1) es @ e # rest = take (f - 1) es @ entries"
    using takeWhile_matches_eq[OF assms] split by (metis append_assoc)
  then show ?thesis using Cons by (simp add: splice_list_def)
next
  case Nil
  then show ?thesis unfolding splice_list_def by (simp only: if_True list.case refl)
qed

text \<open>What the two write loops leave in the engine.\<close>

lemma sfor_set_mem:
  "sfor (\<lambda>e. on_engine (eng_set memory_ops (key e) (val e))) es l =
     (Ok (), l\<lparr>log_engine := fold (\<lambda>e. btree_insert (key e) (val e)) es (log_engine l)\<rparr>)"
  by (induction es arbitrary: l) (simp_all add: monad_simps on_engine_def mem_simps)

lemma sfor_delete_mem:
  "sfor (\<lambda>i. on_engine (eng_delete memory_ops (key i))) is l =
     (Ok (), l\<lparr>log_engine := fold (\<lambda>i. btree_remove (key i)) is (log_engine l)\<rparr>)"
  by (induction "is" arbitrary: l) (simp_all add: monad_simps on_engine_def mem_simps)

lemma ordered_fold_insert: "ordered m \<Longrightarrow> ordered (fold (\<lambda>e. btree_insert (key e) (val e)) es m)"
  by (induction es arbitrary: m) simp_all

lemma ordered_fold_remove: "ordered m \<Longrightarrow> ordered (fold (\<lambda>i. btree_remove (key i)) is m)"
  by (induction "is" arbitrary: m) simp_all

lemma keys_fold_insert:
  "fst ` set (fold (\<lambda>e. btree_insert (key e) (val e)) es m) = fst ` set m \<union> key ` set es"
  by (induction es arbitrary: m) auto

lemma keys_fold_remove: "fst ` set (fold (\<lambda>i. btree_remove (key i)) is m) \<subseteq> fst ` set m"
proof (induction "is" arbitrary: m)
  case (Cons i "is")
  then show ?case by (fastforce simp: btree_remove_def)
qed simp

lemma map_of_fold_remove:
  "map_of (fold (\<lambda>i. btree_remove (key i)) is m) k = (if k \<in> key ` set is then None else map_of m k)"
  by (induction "is" arbitrary: m) auto

lemma map_of_fold_insert:
  assumes "\<forall>j<length es. e_index (es ! j) = f + j" "f + length es \<le> u64_limit" "log_key_ok K"
  shows "map_of (fold (\<lambda>e. btree_insert (encode_log_key (LEntry (e_index e))) (encode c e)) es m) (encode_log_key K) =
    (case K of
       LEntry i \<Rightarrow> if f \<le> i \<and> i < f + length es then Some (encode c (es ! (i - f))) else map_of m (encode_log_key K)
     | _ \<Rightarrow> map_of m (encode_log_key K))"
  using assms(1,2)
proof (induction es arbitrary: f m)
  case (Cons e es)
  have f: "e_index e = f" using Cons.prems(1) by fastforce
  have "\<forall>j<length es. e_index (es ! j) = f + 1 + j"
  proof (intro allI impI)
    fix j assume "j < length es"
    then show "e_index (es ! j) = f + 1 + j" using Cons.prems(1)[rule_format, of "Suc j"] by simp
  qed
  note IH = Cons.IH[OF this]
  have "encode_log_key K = encode_log_key (LEntry f) \<longleftrightarrow> K = LEntry f"
    using encode_log_key_inject[OF assms(3), of "LEntry f"] Cons.prems(2) by simp
  then show ?case
    using IH Cons.prems(2) by (cases K) (auto simp: f nth_Cons' Suc_le_eq)
qed (auto split: log_key.split)

text \<open>An accepted splice keeps the log well formed, and replaces a suffix above the commit position.\<close>

lemma splice_conditions:
  assumes "rlog_wf R" "entries \<noteq> []" "e_index (hd entries) > 0" "e_term (hd entries) > 0"
    "windows_all (\<lambda>a b. e_index a + 1 = e_index b) entries"
    "windows_all (\<lambda>a b. e_term a \<le> e_term b) entries" "e_term (last entries) \<le> r_term R"
    "e_index (hd entries) \<le> length (r_entries R) + 1"
    "term_at (r_entries R) (e_index (hd entries) - 1) \<le> e_term (hd entries)"
  shows "entries_wf (take (e_index (hd entries) - 1) (r_entries R) @ entries)"
    "\<forall>e\<in>set entries. e_term e \<le> r_term R"
proof -
  let ?es = "r_entries R" and ?f = "e_index (hd entries)"
  have wf: "entries_wf ?es" using assms(1) by (simp add: rlog_wf_def)
  have mono: "e_term (hd entries) \<le> e_term e \<and> e_term e \<le> e_term (last entries)" if e: "e \<in> set entries" for e
  proof -
    obtain k where k: "k < length entries" "e = entries ! k" using e by (metis in_set_conv_nth)
    have sorted: "sorted (map e_term entries)" using assms(6) by (simp only: windows_sorted)
    have "0 < length entries" using assms(2) by simp
    then show ?thesis
      using k sorted_nth_mono[OF sorted, of 0 k] sorted_nth_mono[OF sorted, of k "length entries - 1"]
      by (simp add: hd_conv_nth[OF assms(2)] last_conv_nth[OF assms(2)])
  qed
  have base: "e_term x \<le> term_at ?es (?f - 1)" if x: "x \<in> set (take (?f - 1) ?es)" for x
  proof -
    obtain k where k: "k < ?f - 1" "k < length ?es" "x = ?es ! k"
      using x by (auto simp: in_set_conv_nth)
    have sorted: "sorted (map e_term ?es)" using wf by (simp only: entries_wf_def)
    have "0 < ?f - 1" "?f - 1 \<le> length ?es" "k \<le> ?f - 1 - 1" "?f - 1 - 1 < length ?es"
      using k assms(8) by linarith+
    then show ?thesis
      using k sorted_nth_mono[OF sorted, of k "?f - 1 - 1"] by (simp add: term_at_def)
  qed
  have "e_index (entries ! j) = length (take (?f - 1) ?es) + j + 1 \<and> 0 < e_term (entries ! j)"
    if "j < length entries" for j
    using windows_contiguous[OF assms(5) that] mono[OF nth_mem[OF that]] assms(3,4,8) by simp
  moreover have "entries_wf (take n ?es)" for n
    using wf entries_wf_append[of "take n ?es" "drop n ?es"] by simp
  moreover have "e_term x \<le> e_term y" if "x \<in> set (take (?f - 1) ?es)" "y \<in> set entries" for x y
    using base[OF that(1)] mono[OF that(2)] assms(9) by linarith
  ultimately show "entries_wf (take (?f - 1) ?es @ entries)"
    using assms(6) by (simp only: entries_wf_append windows_sorted) blast
  show "\<forall>e\<in>set entries. e_term e \<le> r_term R" using mono assms(7) by (meson order_trans)
qed

lemma splice_store:
  assumes store: "log_store bc R m" and wf: "rlog_wf R"
    and new: "new \<noteq> []" "\<forall>j<length new. e_index (new ! j) = f + j" "0 < f" "f \<le> length (r_entries R) + 1"
      "f + length new \<le> u64_limit" "r_commit R < f"
    and R': "R' = R\<lparr>r_entries := take (f - 1) (r_entries R) @ new\<rparr>"
    and m1: "m1 = fold (\<lambda>e. btree_insert (encode_log_key (LEntry (e_index e))) (encode (entry_codec bc) e)) new m"
    and m2: "m2 = fold (\<lambda>i. btree_remove (encode_log_key (LEntry i))) is m1"
    and "is": "is = [e_index (last new) + 1..<length (r_entries R) + 1]"
  shows "log_store bc R' m2"
proof -
  have lst: "e_index (last new) + 1 = f + length new"
    using new(1,2) by (cases new) (auto simp: last_conv_nth)
  have len: "length (r_entries R) < u64_limit" using wf by (simp add: rlog_wf_def)
  have in_is: "i \<in> set is \<longleftrightarrow> f + length new \<le> i \<and> i \<le> length (r_entries R)" for i
    unfolding "is" lst by auto
  have new_keys: "log_key_ok (LEntry (e_index e))" if e: "e \<in> set new" for e
  proof -
    obtain j where "j < length new" "e = new ! j" using e by (metis in_set_conv_nth)
    then show ?thesis using new(2,5) by simp
  qed
  have keys: "\<exists>K. log_key_ok K \<and> k = encode_log_key K" if k: "k \<in> fst ` set m2" for k
  proof -
    have "k \<in> fst ` set m1" 
      using k unfolding m2 by (rule subsetD[OF keys_fold_remove, rotated])
    then have "k \<in> fst ` set m \<union> (\<lambda>e. encode_log_key (LEntry (e_index e))) ` set new"
      unfolding m1 keys_fold_insert .
    then show ?thesis using store new_keys unfolding log_store_def by blast
  qed
  have lookup: "map_of m2 (encode_log_key K) = lookup_log bc R' K" if K: "log_key_ok K" for K
  proof -
    have "encode_log_key K = encode_log_key (LEntry i) \<longleftrightarrow> K = LEntry i" if "i \<in> set is" for i
      using encode_log_key_inject[OF K, of "LEntry i"] that len in_is by simp
    then have removed: "map_of m2 (encode_log_key K) =
        (if \<exists>i\<in>set is. K = LEntry i then None else map_of m1 (encode_log_key K))"
      unfolding m2 map_of_fold_remove by (auto simp: image_iff)
    have inserted: "map_of m1 (encode_log_key K) = (case K of
        LEntry i \<Rightarrow> if f \<le> i \<and> i < f + length new then Some (encode (entry_codec bc) (new ! (i - f)))
          else lookup_log bc R K
      | _ \<Rightarrow> lookup_log bc R K)"
      unfolding m1 map_of_fold_insert[OF new(2,5) K] log_store_get[OF store K] ..
    have get: "r_get R' i = (if i < f then r_get R i else if i < f + length new then Some (new ! (i - f)) else None)"
      for i using new(3,4) by (auto simp: r_get_def nth_append R')
    have "term_at (r_entries R') (r_commit R) = term_at (r_entries R) (r_commit R)"
      using new(3,4,6) by (auto simp: term_at_def nth_append R')
    moreover have "r_get R i = None" if "\<not> i \<le> length (r_entries R)" for i using that by (simp add: r_get_def)
    ultimately show ?thesis
      unfolding removed inserted by (cases K) (simp_all add: get in_is, auto simp: R')
  qed
  have "ordered m2"
    unfolding m2 m1 using store by (intro ordered_fold_remove ordered_fold_insert) (simp add: log_store_def)
  then show ?thesis using keys lookup unfolding log_store_def by blast
qed

lemma term_at_r_get: "r_get R i = Some b \<Longrightarrow> term_at (r_entries R) i = e_term b"
  by (auto simp: r_get_def term_at_def split: if_splits)

text \<open>Rules to step through two actions at once.\<close>

lemma follows_eqI:
  "m l = n l \<Longrightarrow> m' R = n' R \<Longrightarrow> follows bc n n' R l \<Longrightarrow> follows bc m m' R l"
  by (simp add: follows_def)

lemma follows_fails: "log_rel bc R l \<Longrightarrow> follows bc (slift r) (slift r) R l"
  by (simp add: follows_def slift_def)

lemma follows_sret: "log_rel bc R l \<Longrightarrow> follows bc (sret a) (sret a) R l"
  by (simp add: follows_def sret_def)

lemma follows_assert:
  assumes "log_rel bc R l" "b \<Longrightarrow> follows bc (f ()) (f' ()) R l"
  shows "follows bc (sbind (sassert b msg) f) (sbind (sassert b msg) f') R l"
  using assms by (cases b) (simp_all add: follows_def monad_simps)

lemma follows_read:
  assumes "m l = (Ok a, l)" "follows bc (f a) m' R l"
  shows "follows bc (sbind m f) m' R l"
  using assms by (simp add: follows_def monad_simps)

lemma follows_base:
  assumes "log_rel bc R l" "r_entries R = es" "0 < i"
    "i \<le> length es + 1 \<Longrightarrow> term_at es (i - 1) \<le> t \<Longrightarrow> follows bc (f ()) (f' ()) R l"
  shows "follows bc
     (sbind (case r_get R (i - 1) of
          Some b \<Rightarrow> sassert (\<not> t < e_term b) ''splice term regression''
        | None \<Rightarrow> sassert (i = 1) ''first index must touch existing log'') f)
     (sbind (sassert (i \<le> length es + 1) ''first index must touch existing log'') (\<lambda>_.
      sbind (sassert (term_at es (i - 1) \<le> t) ''splice term regression'') f')) R l"
proof (cases "r_get R (i - 1)")
  case None
  then have "i \<noteq> 1 \<Longrightarrow> \<not> i \<le> length (r_entries R) + 1" "i = 1 \<Longrightarrow> term_at (r_entries R) (i - 1) = 0"
    using assms(3) by (auto simp: r_get_def term_at_def split: if_splits)
  then show ?thesis using assms(1,2,4) None by (auto simp: follows_def monad_simps)
next
  case (Some b)
  then have "i \<le> length (r_entries R) + 1" "term_at (r_entries R) (i - 1) = e_term b"
    using term_at_r_get[OF Some] by (auto simp: r_get_def split: if_splits)
  then show ?thesis using assms(1,2,4) Some by (auto simp: follows_def monad_simps)
qed

lemma follows_skip:
  assumes "log_rel bc R l" "r = (if c then Ok a else Panic msg)" "c \<Longrightarrow> follows bc (f a) (f' ()) R l"
  shows "follows bc (sbind (slift r) f) (sbind (sassert c msg) f') R l"
  using assms by (cases c) (simp_all add: follows_def monad_simps)

lemma term_at_take: "i \<le> n \<Longrightarrow> term_at (take n es) i = term_at es i"
  by (auto simp: term_at_def)

lemma splice_write_mem:
  assumes "log_rel bc R l" "raft_codec_ok bc" "\<forall>e\<in>set entries. e_index e < u64_limit"
    "entries \<noteq> []" "f = e_index (hd entries)" "0 < f" "f \<le> length (r_entries R) + 1"
    "\<forall>j<length entries. e_index (entries ! j) = f + j"
    "entries_wf (take (f - 1) (r_entries R) @ entries)" "\<forall>e\<in>set entries. e_term e \<le> r_term R"
    "\<forall>e\<in>set (takeWhile (matches (r_entries R)) entries). e_command (r_entries R ! (e_index e - 1)) = e_command e"
    and new: "new = dropWhile (matches (r_entries R)) entries"
  shows "follows bc (splice_write memory_ops bc (last entries) new)
    (sbind (sassert (new = [] \<or> e_index (hd new) > r_commit R) ''spliced entries below commit index'') (\<lambda>_.
      (\<lambda>R'. let es' = splice_list (r_entries R) entries in (Ok (length es'), R'\<lparr>r_entries := es'\<rparr>)))) R l"
proof (cases "new = [] \<or> \<not> e_index (hd new) > r_commit R")
  case True
  have "splice_list (r_entries R) entries = r_entries R" if "new = []"
    using that unfolding splice_list_def new by (simp only: list.case)
  then show ?thesis
    using True assms(1)
    by (cases new) (auto simp: follows_def splice_write_def monad_simps read_log_def log_rel_def)
next
  case False
  then have ne: "new \<noteq> []" and above: "r_commit R < e_index (hd new)" by auto
  let ?k = "length (takeWhile (matches (r_entries R)) entries)"
  have split: "entries = takeWhile (matches (r_entries R)) entries @ new"
    unfolding new by simp
  have len: "length entries = ?k + length new" using arg_cong[OF split, of length] by simp
  have wf: "rlog_wf R" and store: "log_store bc R (log_engine l)" using assms(1) by (auto simp: log_rel_def)
  have es: "entries_wf (r_entries R)" using wf by (simp add: rlog_wf_def)
  have nth: "new ! j = entries ! (?k + j)" for j
    using arg_cong[OF split, of "\<lambda>xs. xs ! (?k + j)"] by (simp only: nth_append_length_plus)
  have idx: "\<forall>j<length new. e_index (new ! j) = f + ?k + j"
    using assms(8) len by (simp add: nth)
  have kept: "take (f - 1) (r_entries R) @ takeWhile (matches (r_entries R)) entries =
      take (f - 1 + ?k) (r_entries R)"
    by (rule takeWhile_matches_eq[OF es assms(8,6,7,11)])
  have "length (take (f - 1 + ?k) (r_entries R)) = f - 1 + ?k"
    unfolding kept[symmetric] using assms(6,7) by simp
  then have touch: "f + ?k \<le> length (r_entries R) + 1" using assms(6) by simp
  have last_new: "last new = last entries" using split False by (metis last_appendR)
  have hd_new: "e_index (hd new) = f + ?k" using idx False by (simp add: hd_conv_nth)
  have "e_index (last new) < u64_limit" using assms(3,4) last_new by simp
  then have lim: "f + ?k + length new \<le> u64_limit"
    using idx False by (cases new rule: rev_cases) auto
  let ?es = "take (f - 1) (r_entries R) @ entries"
  have spliced: "splice_list (r_entries R) entries = ?es"
    using splice_list_eq[OF es assms(8,6,7,11)] ne unfolding new[symmetric] by (simp only: if_False)
  have eq: "take (f + ?k - 1) (r_entries R) @ new = ?es"
    using kept split assms(6) by (metis append_assoc Nat.add_diff_assoc2 Suc_leI One_nat_def)
  have st: "log_store bc (R\<lparr>r_entries := ?es\<rparr>)
    (fold (\<lambda>i. btree_remove (encode_log_key (LEntry i))) [e_index (last entries) + 1..<length (r_entries R) + 1]
      (fold (\<lambda>e. btree_insert (encode_log_key (LEntry (e_index e))) (encode (entry_codec bc) e)) new (log_engine l)))"
    by (rule splice_store[OF store wf _ idx _ touch lim, OF _ _ _ _ refl refl])
      (use False hd_new eq last_new assms(6) in simp_all)
  have len': "length ?es = e_index (last entries)"
    using assms(4,6,7,8) by (cases entries rule: rev_cases) (auto simp: nth_append)
  have lst: "f + ?k \<le> e_index (last entries)"
    using last_new idx ne by (cases new rule: rev_cases) auto
  have "length ?es < u64_limit" unfolding len' using assms(3,4) by simp
  moreover have "r_commit R \<le> length ?es" unfolding len' using lst above hd_new by simp
  moreover have "\<forall>e\<in>set ?es. e_term e \<le> r_term R"
    using wf assms(10) by (auto simp: rlog_wf_def dest: in_set_takeD)
  ultimately have "rlog_wf (R\<lparr>r_entries := ?es\<rparr>)"
    using wf assms(9) by (simp add: rlog_wf_def)
  moreover have "term_at ?es (r_commit R) = term_at (r_entries R) (r_commit R)"
    unfolding eq[symmetric] using touch hd_new above by (simp add: term_at_take)
  moreover have "term_at ?es (length ?es) = e_term (last entries)"
    using assms(4) by (cases entries rule: rev_cases) (auto simp: term_at_def nth_append)
  ultimately show ?thesis
    using False assms(1) st spliced len'
    by (cases new) (auto simp: follows_def splice_write_def monad_simps read_log_def update_log_def
        log_rel_def sfor_set_mem sfor_delete_mem Let_def simp del: sfor.simps upt_Suc)
qed

lemma filter_entries_scan:
  assumes "log_rel bc R l" "raft_codec_ok bc" "a < u64_limit" "b < u64_limit" "a \<le> b"
  shows "log_scan memory_ops bc (Included a, Included b) l =
    (Ok (map Ok (drop (a - 1) (take b (r_entries R)))), l)"
proof -
  have "entries_wf (r_entries R)" using assms(1) by (simp add: log_rel_def rlog_wf_def)
  then show ?thesis
    using log_scan_mem[OF assms(1,2), of "(Included a, Included b)"] assms(3-5)
    by (simp add: r_scan_def filter_index_range)
qed

lemma log_splice_mem:
  assumes "log_rel bc R l" "raft_codec_ok bc" "\<forall>e\<in>set entries. e_index e < u64_limit"
  shows "follows bc (log_splice memory_ops bc entries) (r_splice entries) R l"
proof (cases "entries = []")
  case True
  then show ?thesis
    using assms(1) by (simp add: follows_def log_splice_def r_splice_def r_splice_at_def monad_simps read_log_def log_rel_def)
next
  case ne: False
  obtain es trm ci where R: "r_entries R = es" "r_term R = trm" "r_commit R = ci" by blast
  let ?f = "e_index (hd entries)"
  have wf: "rlog_wf R" "log_term l = trm" "entries_wf es"
    using assms(1) R by (auto simp: log_rel_def rlog_wf_def)
  have lim: "?f - 1 < u64_limit" "?f < u64_limit" "e_index (last entries) < u64_limit"
    using assms(3) ne by (simp_all add: less_imp_diff_less)
  have r: "r_splice entries R = r_splice_at es trm ci entries R" by (simp add: r_splice_def R)
  have idx: "e_index (entries ! j) = ?f + j"
    if "windows_all (\<lambda>a b. e_index a + 1 = e_index b) entries" "j < length entries" for j
    using windows_contiguous[OF that] .
  show ?thesis
    apply (rule follows_eqI[where m' = "r_splice entries" and n' = "r_splice_at es trm ci entries", OF refl r])
    apply (simp only: r_splice_at_def log_splice_def ne if_False Let_def)
    apply (intro follows_assert[OF assms(1)])
    apply (rule follows_read[of _ _ trm], simp add: read_log_def wf(2))
    apply (rule follows_assert[OF assms(1)])
    apply (rule follows_read, rule log_get_mem[OF assms(1,2) lim(1)])
    apply (rule follows_base[OF assms(1) R(1)], blast)
    apply (rule follows_read, rule filter_entries_scan[OF assms(1,2) lim(2,3), unfolded R])
     apply (simp add: idx last_conv_nth[OF ne] ne)
    apply (rule follows_skip[OF assms(1) skip_existing_scan[OF wf(3)]])
       apply (simp add: idx)
      apply blast
     apply (simp add: idx last_conv_nth[OF ne] ne Suc_leI)
    apply (rule splice_write_mem[OF assms ne refl, unfolded R Let_def])
          apply blast
         apply assumption
        apply (simp add: idx)
       apply (rule splice_conditions(1)[OF wf(1) ne, unfolded R]; blast)
      apply (rule splice_conditions(2)[OF wf(1) ne, unfolded R]; blast)
     apply assumption
    apply (rule refl)
    done
qed

section \<open>Any engine\<close>

definition lift_log :: "('e \<Rightarrow> 'f) \<Rightarrow> 'e raft_log \<Rightarrow> 'f raft_log" where
  "lift_log f l = \<lparr>log_engine = f (log_engine l), log_term = log_term l, log_vote = log_vote l,
     last_index = last_index l, last_term = last_term l, commit_index = commit_index l,
     commit_term = commit_term l, fsync = fsync l\<rparr>"

abbreviation log_holds :: "('e \<Rightarrow> bool) \<Rightarrow> 'e raft_log \<Rightarrow> bool" where
  "log_holds invar \<equiv> \<lambda>l. invar (log_engine l)"

lemma sim_on_engine [sim_intros]:
  assumes "sim invar abst m m'"
  shows "sim (log_holds invar) (lift_log abst) (on_engine m) (on_engine m')"
  using assms by (auto simp: sim_def on_engine_def lift_log_def split: prod.splits)

lemma sim_read_log [sim_intros]:
  "sim I (lift_log abst) (read_log last_index) (read_log last_index)"
  "sim I (lift_log abst) (read_log commit_index) (read_log commit_index)"
  "sim I (lift_log abst) (read_log log_term) (read_log log_term)"
  "sim I (lift_log abst) (read_log fsync) (read_log fsync)"
  "sim I (lift_log abst) (read_log get_term_vote) (read_log get_term_vote)"
  "sim I (lift_log abst) (read_log get_last_index) (read_log get_last_index)"
  by (simp_all add: sim_def read_log_def lift_log_def get_term_vote_def get_last_index_def)

lemma sim_update_log [sim_intros]:
  assumes "\<And>l. invar (log_engine l) \<Longrightarrow> invar (log_engine (f l))"
    "\<And>l. lift_log abst (f l) = g (lift_log abst l)"
  shows "sim (log_holds invar) (lift_log abst) (update_log f) (update_log g)"
  using assms by (auto simp: sim_def update_log_def)

context engine
begin

lemma sim_maybe_flush [sim_intros]: "sim (log_holds invar) (lift_log abst) (maybe_flush ops) (maybe_flush memory_ops)"
  unfolding maybe_flush_def by (intro sim_intros)

lemma sim_log_get [sim_intros]: "sim (log_holds invar) (lift_log abst) (log_get ops bc i) (log_get memory_ops bc i)"
  unfolding log_get_def by (intro sim_intros)

lemma sim_log_scan [sim_intros]: "sim (log_holds invar) (lift_log abst) (log_scan ops bc r) (log_scan memory_ops bc r)"
  unfolding log_scan_def Let_def by (intro sim_intros)

lemma sim_set_term_vote:
  "sim (log_holds invar) (lift_log abst) (set_term_vote ops bc trm vote) (set_term_vote memory_ops bc trm vote)"
  unfolding set_term_vote_def by (intro sim_intros) (simp_all add: lift_log_def)

lemma sim_log_append: "sim (log_holds invar) (lift_log abst) (log_append ops bc c) (log_append memory_ops bc c)"
  unfolding log_append_def by (intro sim_intros) (simp_all add: lift_log_def)

lemma sim_log_commit: "sim (log_holds invar) (lift_log abst) (log_commit ops bc i) (log_commit memory_ops bc i)"
  unfolding log_commit_def by (intro sim_intros) (simp_all add: lift_log_def)

lemma sim_log_has: "sim (log_holds invar) (lift_log abst) (log_has ops bc i t) (log_has memory_ops bc i t)"
  unfolding log_has_def by (intro sim_intros)

lemma sim_log_scan_apply: "sim (log_holds invar) (lift_log abst) (log_scan_apply ops bc i) (log_scan_apply memory_ops bc i)"
  unfolding log_scan_apply_def by (intro sim_intros)

lemma sim_splice_write [sim_intros]:
  "sim (log_holds invar) (lift_log abst) (splice_write ops bc e es) (splice_write memory_ops bc e es)"
  unfolding splice_write_def by (intro sim_intros) (simp_all add: lift_log_def)

lemma sim_log_splice: "sim (log_holds invar) (lift_log abst) (log_splice ops bc es) (log_splice memory_ops bc es)"
  unfolding log_splice_def Let_def by (intro sim_intros)

end

end
