(* ===== verification/Raft_Protocol.thy ===== *)
theory Raft_Protocol
  imports Raft_Message Raft_Log_Ref
begin

text \<open>
  The Raft protocol as a transition system over all nodes of a cluster, with the network as the set of
  all messages ever sent, so that a message may be lost, delayed, duplicated and reordered. A step is
  one atomic action of one node: adopting a term, voting, campaigning, counting a vote, taking
  leadership, appending, accepting entries, acknowledging, committing, forgetting the commit position
  (which is not flushed to disk), or sending a message. The state
  carries history variables (the votes cast with the voters' logs, the elections, the log of each
  term's leader, the acknowledgements) that no guard of an honest action needs but the proofs do.
\<close>

section \<open>State\<close>

datatype arole = AFollower | ACandidate "node_id set" | ALeader "node_id \<Rightarrow> nat"

record rstate =
  a_term :: "node_id \<Rightarrow> nat"
  a_vote :: "node_id \<Rightarrow> node_id option"
  a_log :: "node_id \<Rightarrow> entry list"
  a_commit :: "node_id \<Rightarrow> nat"
  a_role :: "node_id \<Rightarrow> arole"
  a_net :: "envelope set"
  a_votes :: "(node_id \<times> nat \<times> node_id) set"
  a_vlog :: "node_id \<times> nat \<Rightarrow> entry list"
  a_elected :: "nat \<Rightarrow> node_id option"
  a_voters :: "nat \<Rightarrow> node_id set"
  a_elog :: "nat \<Rightarrow> entry list"
  a_llog :: "nat \<Rightarrow> entry list"
  a_acks :: "(node_id \<times> nat \<times> nat) set"

definition raft_init :: rstate where
  "raft_init = \<lparr>a_term = \<lambda>_. 0, a_vote = \<lambda>_. None, a_log = \<lambda>_. [], a_commit = \<lambda>_. 0,
     a_role = \<lambda>_. AFollower, a_net = {}, a_votes = {}, a_vlog = \<lambda>_. [], a_elected = \<lambda>_. None,
     a_voters = \<lambda>_. {}, a_elog = \<lambda>_. [], a_llog = \<lambda>_. [], a_acks = {}\<rparr>"

abbreviation last_term_of :: "entry list \<Rightarrow> nat" where
  "last_term_of es \<equiv> term_at es (length es)"

text \<open>The first log is at least as up to date as the second.\<close>

definition up_to_date :: "nat \<times> nat \<Rightarrow> entry list \<Rightarrow> bool" where
  "up_to_date p es = (case p of (li, lt) \<Rightarrow>
     last_term_of es < lt \<or> last_term_of es = lt \<and> length es \<le> li)"

definition quorum :: "node_id set \<Rightarrow> node_id set \<Rightarrow> bool" where
  "quorum M Q = (Q \<subseteq> M \<and> card M < 2 * card Q)"

lemma quorum_inter:
  assumes "quorum M Q" "quorum M Q'"
  shows "\<exists>n. n \<in> Q \<and> n \<in> Q'"
proof (rule ccontr)
  assume "\<nexists>n. n \<in> Q \<and> n \<in> Q'"
  then have "card (Q \<union> Q') = card Q + card Q'" by (intro card_Un_disjoint) auto
  moreover have "card (Q \<union> Q') \<le> card M" using assms by (intro card_mono) (auto simp: quorum_def)
  ultimately show False using assms by (simp add: quorum_def)
qed

section \<open>Steps\<close>

text \<open>What a node may send in its current state. The messages that carry no promise (rejections, read
  confirmations and client traffic) may always be sent.\<close>

fun may_send :: "rstate \<Rightarrow> node_id \<Rightarrow> message \<Rightarrow> node_id \<Rightarrow> bool" where
  "may_send G i (Campaign li lt) to =
     ((\<exists>V. a_role G i = ACandidate V) \<and> li = length (a_log G i) \<and> lt = last_term_of (a_log G i))"
| "may_send G i (CampaignResponse v) to = (v \<longrightarrow> a_vote G i = Some to)"
| "may_send G i (Heartbeat li ci seq) to =
     ((\<exists>mt. a_role G i = ALeader mt) \<and> to \<noteq> i \<and> li = length (a_log G i) \<and>
      last_term_of (a_log G i) = a_term G i \<and> ci = a_commit G i)"
| "may_send G i (HeartbeatResponse m seq) to = (m = 0 \<or> (i, a_term G i, m) \<in> a_acks G)"
| "may_send G i (Append b bt es) to =
     ((\<exists>mt. a_role G i = ALeader mt) \<and> to \<noteq> i \<and> b \<le> length (a_log G i) \<and> bt = term_at (a_log G i) b \<and>
      prefix es (drop b (a_log G i)))"
| "may_send G i (AppendResponse m r) to = (m = 0 \<or> (i, a_term G i, m) \<in> a_acks G)"
| "may_send G i _ to = True"

definition received :: "rstate \<Rightarrow> node_id \<Rightarrow> node_id \<Rightarrow> message \<Rightarrow> bool" where
  "received G i j m = (\<lparr>env_from = j, env_term = a_term G i, env_to = i, env_message = m\<rparr> \<in> a_net G)"

text \<open>A step of node \<open>i\<close> in a cluster with members \<open>M\<close>.\<close>

inductive raft_step :: "node_id set \<Rightarrow> node_id \<Rightarrow> rstate \<Rightarrow> rstate \<Rightarrow> bool" for M i where
  new_term: "a_term G i < t \<Longrightarrow>
    raft_step M i G (G\<lparr>a_term := (a_term G)(i := t), a_vote := (a_vote G)(i := None),
      a_role := (a_role G)(i := AFollower)\<rparr>)"
| step_down: "raft_step M i G (G\<lparr>a_role := (a_role G)(i := AFollower)\<rparr>)"
| vote: "received G i c (Campaign li lt) \<Longrightarrow> a_vote G i = None \<or> a_vote G i = Some c \<Longrightarrow>
    up_to_date (li, lt) (a_log G i) \<Longrightarrow>
    raft_step M i G (G\<lparr>a_vote := (a_vote G)(i := Some c), a_votes := insert (i, a_term G i, c) (a_votes G),
      a_vlog := (if a_vote G i = None then (a_vlog G)((i, a_term G i) := a_log G i) else a_vlog G)\<rparr>)"
| campaign: "raft_step M i G (G\<lparr>a_term := (a_term G)(i := a_term G i + 1), a_vote := (a_vote G)(i := Some i),
      a_role := (a_role G)(i := ACandidate {i}), a_votes := insert (i, a_term G i + 1, i) (a_votes G),
      a_vlog := (a_vlog G)((i, a_term G i + 1) := a_log G i)\<rparr>)"
| count_vote: "a_role G i = ACandidate V \<Longrightarrow> received G i j (CampaignResponse True) \<Longrightarrow>
    raft_step M i G (G\<lparr>a_role := (a_role G)(i := ACandidate (insert j V))\<rparr>)"
| elect: "a_role G i = ACandidate V \<Longrightarrow> quorum M V \<Longrightarrow>
    raft_step M i G (G\<lparr>a_role := (a_role G)(i := ALeader (\<lambda>_. 0)),
      a_elected := (a_elected G)(a_term G i := Some i), a_voters := (a_voters G)(a_term G i := V),
      a_elog := (a_elog G)(a_term G i := a_log G i), a_llog := (a_llog G)(a_term G i := a_log G i)\<rparr>)"
| append: "a_role G i = ALeader mt \<Longrightarrow> L = a_log G i @
      [\<lparr>e_index = length (a_log G i) + 1, e_term = a_term G i, e_command = c\<rparr>] \<Longrightarrow>
    raft_step M i G (G\<lparr>a_log := (a_log G)(i := L), a_llog := (a_llog G)(a_term G i := L)\<rparr>)"
| accept: "received G i j (Append b bt es) \<Longrightarrow> a_role G i = AFollower \<Longrightarrow>
    b = 0 \<or> b \<le> length (a_log G i) \<and> term_at (a_log G i) b = bt \<Longrightarrow>
    raft_step M i G (G\<lparr>a_log := (a_log G)(i := splice_list (a_log G i) es),
      a_acks := insert (i, a_term G i, b + length es) (a_acks G)\<rparr>)"
| match: "received G i j (Heartbeat li ci seq) \<Longrightarrow> li \<le> length (a_log G i) \<Longrightarrow>
    term_at (a_log G i) li = a_term G i \<Longrightarrow>
    raft_step M i G (G\<lparr>a_acks := insert (i, a_term G i, li) (a_acks G)\<rparr>)"
| follower_commit: "received G i j (Heartbeat li ci seq) \<Longrightarrow> li \<le> length (a_log G i) \<Longrightarrow>
    term_at (a_log G i) li = a_term G i \<Longrightarrow> ci \<le> li \<Longrightarrow> a_commit G i \<le> ci \<Longrightarrow>
    raft_step M i G (G\<lparr>a_commit := (a_commit G)(i := ci)\<rparr>)"
| count_match: "a_role G i = ALeader mt \<Longrightarrow>
    received G i j (AppendResponse m r) \<or> received G i j (HeartbeatResponse m seq) \<Longrightarrow>
    raft_step M i G (G\<lparr>a_role := (a_role G)(i := ALeader (mt(j := m)))\<rparr>)"
| leader_commit: "a_role G i = ALeader mt \<Longrightarrow> 0 < c \<Longrightarrow> a_commit G i \<le> c \<Longrightarrow> c \<le> length (a_log G i) \<Longrightarrow>
    term_at (a_log G i) c = a_term G i \<Longrightarrow> quorum M {j \<in> M. j = i \<or> c \<le> mt j} \<Longrightarrow>
    raft_step M i G (G\<lparr>a_commit := (a_commit G)(i := c), a_acks := insert (i, a_term G i, c) (a_acks G)\<rparr>)"
| lose_commit: "c \<le> a_commit G i \<Longrightarrow> raft_step M i G (G\<lparr>a_commit := (a_commit G)(i := c)\<rparr>)"
| send: "may_send G i m to \<Longrightarrow>
    raft_step M i G (G\<lparr>a_net :=
      insert \<lparr>env_from = i, env_term = a_term G i, env_to = to, env_message = m\<rparr> (a_net G)\<rparr>)"

inductive raft_reachable :: "node_id set \<Rightarrow> rstate \<Rightarrow> bool" for M where
  init: "raft_reachable M raft_init"
| step: "raft_reachable M G \<Longrightarrow> i \<in> M \<Longrightarrow> raft_step M i G G' \<Longrightarrow> raft_reachable M G'"

end
