(* ===== verification/Raft_Safety.thy ===== *)
theory Raft_Safety
  imports Raft_Protocol
begin

text \<open>
  Safety of the Raft protocol: its inductive invariant, and from it election safety, log matching,
  leader completeness and state machine safety for every reachable state.
\<close>

section \<open>The invariant\<close>

definition elected :: "rstate \<Rightarrow> nat \<Rightarrow> bool" where
  "elected G t = (a_elected G t \<noteq> None)"

text \<open>A log whose every prefix is a prefix of the log of the leader that created its last entry.\<close>

definition log_ok :: "rstate \<Rightarrow> entry list \<Rightarrow> bool" where
  "log_ok G L = (entries_wf L \<and> (\<forall>p. 0 < p \<and> p \<le> length L \<longrightarrow>
     elected G (term_at L p) \<and> p \<le> length (a_llog G (term_at L p)) \<and>
     take p L = take p (a_llog G (term_at L p))))"

text \<open>A vote that may still count, or has counted, in an election.\<close>

definition counts :: "rstate \<Rightarrow> node_id \<Rightarrow> nat \<Rightarrow> bool" where
  "counts G n t = (elected G t \<longrightarrow> n \<in> a_voters G t)"

text \<open>Every leader elected between two terms has the first \<open>p\<close> entries of the leader of \<open>t\<close>.\<close>

definition keeps :: "rstate \<Rightarrow> nat \<Rightarrow> nat \<Rightarrow> (nat \<Rightarrow> bool) \<Rightarrow> bool" where
  "keeps G t p T = (\<forall>t'. t < t' \<and> T t' \<and> elected G t' \<longrightarrow> take p (a_llog G t') = take p (a_llog G t))"

definition inv_votes :: "rstate \<Rightarrow> bool" where
  "inv_votes G =
     ((\<forall>i c. a_vote G i = Some c \<longrightarrow> (i, a_term G i, c) \<in> a_votes G) \<and>
      (\<forall>i t c. (i, t, c) \<in> a_votes G \<longrightarrow>
         t \<le> a_term G i \<and> t \<le> a_term G c \<and> (t = a_term G i \<longrightarrow> a_vote G i = Some c)) \<and>
      (\<forall>i t c c'. (i, t, c) \<in> a_votes G \<longrightarrow> (i, t, c') \<in> a_votes G \<longrightarrow> c = c'))"

definition inv_roles :: "node_id set \<Rightarrow> rstate \<Rightarrow> bool" where
  "inv_roles M G =
     ((\<forall>i V. a_role G i = ACandidate V \<longrightarrow> 0 < a_term G i \<and> (\<forall>n\<in>V. (n, a_term G i, i) \<in> a_votes G)) \<and>
      (\<forall>i mt. a_role G i = ALeader mt \<longrightarrow> a_elected G (a_term G i) = Some i \<and> a_llog G (a_term G i) = a_log G i \<and>
         (\<forall>j. 0 < mt j \<longrightarrow> (j, a_term G i, mt j) \<in> a_acks G)) \<and>
      (\<forall>t i. a_elected G t = Some i \<longrightarrow> 0 < t \<and> quorum M (a_voters G t) \<and> (\<forall>n\<in>a_voters G t. (n, t, i) \<in> a_votes G) \<and>
         t \<le> a_term G i \<and> (t = a_term G i \<longrightarrow> (\<forall>V. a_role G i \<noteq> ACandidate V))))"

definition llog_ok :: "rstate \<Rightarrow> nat \<Rightarrow> bool" where
  "llog_ok G t = (log_ok G (a_llog G t) \<and> (\<forall>e\<in>set (a_llog G t). e_term e \<le> t) \<and>
     prefix (a_elog G t) (a_llog G t) \<and> (\<forall>e\<in>set (a_elog G t). e_term e < t) \<and>
     (\<forall>p. length (a_elog G t) < p \<and> p \<le> length (a_llog G t) \<longrightarrow> term_at (a_llog G t) p = t))"

definition vlog_ok :: "rstate \<Rightarrow> node_id \<Rightarrow> nat \<Rightarrow> bool" where
  "vlog_ok G n t = (log_ok G (a_vlog G (n, t)) \<and> (\<forall>e\<in>set (a_vlog G (n, t)). e_term e < t))"

definition inv_logs :: "rstate \<Rightarrow> bool" where
  "inv_logs G =
     ((\<forall>i. log_ok G (a_log G i) \<and> (\<forall>e\<in>set (a_log G i). e_term e \<le> a_term G i)) \<and>
      (\<forall>t. elected G t \<longrightarrow> llog_ok G t) \<and>
      (\<forall>n t c. (n, t, c) \<in> a_votes G \<longrightarrow> counts G n t \<longrightarrow> vlog_ok G n t))"

definition inv_acks :: "rstate \<Rightarrow> bool" where
  "inv_acks G =
     (\<forall>n t m p. (n, t, m) \<in> a_acks G \<longrightarrow> p \<le> m \<longrightarrow>
        elected G t \<and> m \<le> length (a_llog G t) \<and> t \<le> a_term G n \<and>
        (keeps G t p (\<lambda>t'. t' \<le> a_term G n) \<longrightarrow> take p (a_log G n) = take p (a_llog G t)) \<and>
        (\<forall>t' c. (n, t', c) \<in> a_votes G \<longrightarrow> t < t' \<longrightarrow> counts G n t' \<longrightarrow>
           keeps G t p (\<lambda>t''. t'' < t') \<longrightarrow> take p (a_vlog G (n, t')) = take p (a_llog G t)))"

abbreviation log_end :: "entry list \<Rightarrow> nat \<times> nat" where
  "log_end es \<equiv> (length es, last_term_of es)"

definition inv_up_to_date :: "rstate \<Rightarrow> bool" where
  "inv_up_to_date G =
     ((\<forall>n t c V. (n, t, c) \<in> a_votes G \<longrightarrow> a_term G c = t \<longrightarrow> a_role G c = ACandidate V \<longrightarrow>
         up_to_date (log_end (a_log G c)) (a_vlog G (n, t))) \<and>
      (\<forall>t. elected G t \<longrightarrow> (\<forall>n\<in>a_voters G t. up_to_date (log_end (a_elog G t)) (a_vlog G (n, t)))))"

text \<open>An entry position is committed in a term when a quorum has acknowledged an entry of that term at
  or above it.\<close>

definition committed :: "node_id set \<Rightarrow> rstate \<Rightarrow> nat \<Rightarrow> nat \<Rightarrow> bool" where
  "committed M G t c =
     (elected G t \<and> 0 < c \<and> c \<le> length (a_llog G t) \<and> term_at (a_llog G t) c = t \<and>
      (\<exists>Q. quorum M Q \<and> (\<forall>n\<in>Q. \<exists>p\<ge>c. (n, t, p) \<in> a_acks G)))"

definition commit_ok :: "node_id set \<Rightarrow> rstate \<Rightarrow> nat \<Rightarrow> entry list \<Rightarrow> nat \<Rightarrow> bool" where
  "commit_ok M G t L c = (c \<le> length L \<and>
     (0 < c \<longrightarrow> (\<exists>t0 c0. committed M G t0 c0 \<and> t0 \<le> t \<and> c \<le> c0 \<and> take c L = take c (a_llog G t0))))"

definition inv_commit :: "node_id set \<Rightarrow> rstate \<Rightarrow> bool" where
  "inv_commit M G = (\<forall>i. commit_ok M G (a_term G i) (a_log G i) (a_commit G i))"

fun msg_ok :: "node_id set \<Rightarrow> rstate \<Rightarrow> node_id \<Rightarrow> nat \<Rightarrow> node_id \<Rightarrow> message \<Rightarrow> bool" where
  "msg_ok M G i t to (Campaign li lt) =
     (t \<le> a_term G i \<and> (t = a_term G i \<longrightarrow> (\<forall>V. a_role G i = ACandidate V \<longrightarrow> (li, lt) = log_end (a_log G i))))"
| "msg_ok M G i t to (CampaignResponse v) = (v \<longrightarrow> (i, t, to) \<in> a_votes G)"
| "msg_ok M G i t to (Heartbeat li ci seq) =
     (a_elected G t = Some i \<and> to \<noteq> i \<and> 0 < li \<and> li \<le> length (a_llog G t) \<and> term_at (a_llog G t) li = t \<and>
      commit_ok M G t (a_llog G t) ci)"
| "msg_ok M G i t to (HeartbeatResponse m seq) = (m = 0 \<or> (i, t, m) \<in> a_acks G)"
| "msg_ok M G i t to (Append b bt es) =
     (a_elected G t = Some i \<and> to \<noteq> i \<and> b \<le> length (a_llog G t) \<and> bt = term_at (a_llog G t) b \<and>
      prefix es (drop b (a_llog G t)))"
| "msg_ok M G i t to (AppendResponse m r) = (m = 0 \<or> (i, t, m) \<in> a_acks G)"
| "msg_ok M G i t to _ = True"

definition inv_net :: "node_id set \<Rightarrow> rstate \<Rightarrow> bool" where
  "inv_net M G = (\<forall>e\<in>a_net G. msg_ok M G (env_from e) (env_term e) (env_to e) (env_message e))"

definition raft_inv :: "node_id set \<Rightarrow> rstate \<Rightarrow> bool" where
  "raft_inv M G = (inv_votes G \<and> inv_roles M G \<and> inv_logs G \<and> inv_acks G \<and> inv_up_to_date G \<and>
     inv_commit M G \<and> inv_net M G)"

lemma raft_inv_init: "raft_inv M raft_init"
  by (auto simp: raft_inv_def raft_init_def inv_votes_def inv_roles_def inv_logs_def inv_acks_def
      inv_up_to_date_def inv_commit_def inv_net_def commit_ok_def log_ok_def elected_def entries_wf_def)

section \<open>Facts about logs\<close>

lemma term_at_bound: "\<forall>e\<in>set L. e_term e \<le> t \<Longrightarrow> term_at L p \<le> t"
  by (auto simp: term_at_def)

lemma term_at_less: "\<forall>e\<in>set L. e_term e < t \<Longrightarrow> 0 < p \<Longrightarrow> p \<le> length L \<Longrightarrow> term_at L p < t"
  by (auto simp: term_at_def)

lemma term_at_mono:
  assumes "entries_wf L" "0 < p" "p \<le> q" "q \<le> length L"
  shows "term_at L p \<le> term_at L q"
proof -
  have "sorted (map e_term L)" using assms(1) by (simp only: entries_wf_def)
  from sorted_nth_mono[OF this, of "p - 1" "q - 1"] show ?thesis
    using assms(2-) by (simp add: term_at_def)
qed

lemma term_at_prefix: "prefix L L' \<Longrightarrow> p \<le> length L \<Longrightarrow> term_at L' p = term_at L p"
  by (auto simp: prefix_def)

lemma take_prefix: "prefix L L' \<Longrightarrow> p \<le> length L \<Longrightarrow> take p L' = take p L"
  by (auto simp: prefix_def)

lemma take_eq_mono: "take q L = take q L' \<Longrightarrow> p \<le> q \<Longrightarrow> take p L = take p L'"
  by (metis min.absorb1 take_take)

lemma take_eq_length: "take p L = take p L' \<Longrightarrow> p \<le> length L' \<Longrightarrow> p \<le> length L"
  by (metis length_take min.absorb2 min.cobounded1)

lemma term_at_take_eq: "take q L = take q L' \<Longrightarrow> p \<le> q \<Longrightarrow> term_at L p = term_at L' p"
  by (metis term_at_take)

lemma log_ok_prefixD:
  "log_ok G L \<Longrightarrow> 0 < p \<Longrightarrow> p \<le> length L \<Longrightarrow>
     elected G (term_at L p) \<and> p \<le> length (a_llog G (term_at L p)) \<and> take p L = take p (a_llog G (term_at L p))"
  by (simp add: log_ok_def)

text \<open>Two logs that agree on the term at a position agree up to it.\<close>

lemma log_ok_match:
  assumes "log_ok G L" "log_ok G L'" "p \<le> length L" "p \<le> length L'" "term_at L p = term_at L' p"
  shows "take p L = take p L'"
  using log_ok_prefixD[OF assms(1), of p] log_ok_prefixD[OF assms(2), of p] assms(3-)
  by (cases "p = 0") simp_all

lemma log_ok_take:
  assumes "log_ok G L"
  shows "log_ok G (take m L)"
proof -
  have "entries_wf (take m L)"
    using assms entries_wf_append[of "take m L" "drop m L"] by (simp add: log_ok_def)
  moreover have "elected G (term_at (take m L) p) \<and> p \<le> length (a_llog G (term_at (take m L) p)) \<and>
      take p (take m L) = take p (a_llog G (term_at (take m L) p))" if p: "0 < p" "p \<le> length (take m L)" for p
  proof -
    have "p \<le> m" "p \<le> length L" using p(2) by simp_all
    then show ?thesis using log_ok_prefixD[OF assms p(1)] by (simp add: term_at_take min.absorb1)
  qed
  ultimately show ?thesis unfolding log_ok_def by blast
qed

section \<open>Leader completeness\<close>

text \<open>A position committed in a term is in the log of every later leader.\<close>

lemma leader_completeness_inv:
  assumes inv: "inv_votes G" "inv_roles M G" "inv_logs G" "inv_acks G" "inv_up_to_date G"
    and "committed M G t c"
  shows "elected G t' \<Longrightarrow> t < t' \<Longrightarrow> take c (a_llog G t') = take c (a_llog G t)"
proof (induction t' rule: less_induct)
  case (less t')
  obtain Q where Q: "quorum M Q" "\<forall>n\<in>Q. \<exists>p\<ge>c. (n, t, p) \<in> a_acks G"
    and t: "elected G t" "0 < c" "c \<le> length (a_llog G t)" "term_at (a_llog G t) c = t"
    using assms(6) unfolding committed_def by blast
  obtain i where i: "a_elected G t' = Some i" using less.prems(1) by (auto simp: elected_def)
  have voters: "quorum M (a_voters G t')" "\<forall>n\<in>a_voters G t'. (n, t', i) \<in> a_votes G"
    using inv(2) i unfolding inv_roles_def by blast+
  have pos: "0 < t" using inv(2) t(1) unfolding inv_roles_def elected_def by blast
  obtain n where n: "n \<in> Q" "n \<in> a_voters G t'" using quorum_inter[OF Q(1) voters(1)] by blast
  obtain m where m: "(n, t, m) \<in> a_acks G" "c \<le> m" using Q(2) n(1) by blast
  have vote: "(n, t', i) \<in> a_votes G" "counts G n t'" using voters(2) n(2) by (auto simp: counts_def)
  let ?W = "a_vlog G (n, t')" and ?E = "a_elog G t'"
  have "keeps G t c (\<lambda>t''. t'' < t')" using less.IH by (auto simp: keeps_def)
  then have W: "take c ?W = take c (a_llog G t)"
    using inv(4) m vote less.prems(2) unfolding inv_acks_def by blast
  have logs: "log_ok G (a_llog G t')" "prefix ?E (a_llog G t')" "\<forall>e\<in>set ?E. e_term e < t'"
    "\<forall>e\<in>set (a_llog G t). e_term e \<le> t" "log_ok G ?W"
    using inv(3) less.prems(1) t(1) vote unfolding inv_logs_def llog_ok_def vlog_ok_def by blast+
  have E: "up_to_date (log_end ?E) ?W"
    using inv(5) less.prems(1) n(2) unfolding inv_up_to_date_def by blast
  have lenW: "c \<le> length ?W" using take_eq_length[OF W t(3)] .
  have "t \<le> last_term_of ?W"
    using term_at_mono[of ?W c "length ?W"] logs(5) t(2,4) lenW term_at_take_eq[OF W, of c] by (simp add: log_ok_def)
  then have ge: "t \<le> last_term_of ?E" using E by (auto simp: up_to_date_def)
  then have ne: "0 < length ?E" using pos by (cases ?E) (auto simp: term_at_def)
  let ?lt = "last_term_of ?E"
  have lt: "?lt < t'" using term_at_less[OF logs(3) ne] by simp
  have E': "elected G ?lt" "length ?E \<le> length (a_llog G ?lt)" "?E = take (length ?E) (a_llog G ?lt)"
    using log_ok_prefixD[OF logs(1) ne] prefix_length_le[OF logs(2)] term_at_prefix[OF logs(2), of "length ?E"]
      take_prefix[OF logs(2), of "length ?E"] by auto
  have "c \<le> length ?E \<and> take c (a_llog G ?lt) = take c (a_llog G t)"
  proof (cases "?lt = t")
    case True
    then have "length ?W \<le> length ?E"
      using E \<open>t \<le> last_term_of ?W\<close> by (auto simp: up_to_date_def)
    then show ?thesis using lenW True by simp
  next
    case False
    then have IH: "take c (a_llog G ?lt) = take c (a_llog G t)"
      using less.IH[OF lt E'(1)] ge by simp
    have "\<not> length ?E < c"
    proof
      assume short: "length ?E < c"
      have "term_at (a_llog G ?lt) (length ?E) = term_at (a_llog G t) (length ?E)"
        using term_at_take_eq[OF IH] short by simp
      moreover have "term_at (a_llog G ?lt) (length ?E) = ?lt"
        using E'(3) term_at_take[of "length ?E" "length ?E" "a_llog G ?lt"] by simp
      ultimately have "?lt \<le> t" using term_at_bound[OF logs(4)] by metis
      then show False using False ge by simp
    qed
    then show ?thesis using IH by simp
  qed
  moreover have "take c (a_llog G t') = take c ?E" if "c \<le> length ?E"
    using take_prefix[OF logs(2) that] .
  moreover have "take c ?E = take c (a_llog G ?lt)" if "c \<le> length ?E"
    using E'(3) that by (metis take_take min.absorb1)
  ultimately show ?case by simp
qed

section \<open>What a step keeps\<close>

definition ext :: "rstate \<Rightarrow> rstate \<Rightarrow> bool" where
  "ext G G' =
     ((\<forall>t i. a_elected G t = Some i \<longrightarrow> a_elected G' t = Some i \<and> a_elog G' t = a_elog G t \<and>
         a_voters G' t = a_voters G t \<and> prefix (a_llog G t) (a_llog G' t)) \<and>
      a_acks G \<subseteq> a_acks G' \<and> a_votes G \<subseteq> a_votes G' \<and> (\<forall>i. a_term G i \<le> a_term G' i) \<and>
      (\<forall>n t c. (n, t, c) \<in> a_votes G \<longrightarrow> a_vlog G' (n, t) = a_vlog G (n, t)))"

lemma candidate_not_elected:
  assumes "inv_votes G" "inv_roles M G" "a_role G i = ACandidate V" "quorum M V"
  shows "a_elected G (a_term G i) = None"
proof (rule ccontr)
  assume "a_elected G (a_term G i) \<noteq> None"
  then obtain j where j: "a_elected G (a_term G i) = Some j" by blast
  then have voters: "quorum M (a_voters G (a_term G i))" "\<forall>n\<in>a_voters G (a_term G i). (n, a_term G i, j) \<in> a_votes G"
    "a_term G i = a_term G j \<longrightarrow> (\<forall>V. a_role G j \<noteq> ACandidate V)"
    using assms(2) unfolding inv_roles_def by blast+
  obtain n where n: "n \<in> V" "n \<in> a_voters G (a_term G i)" using quorum_inter[OF assms(4) voters(1)] by blast
  have "(n, a_term G i, i) \<in> a_votes G" using assms(2,3) n(1) unfolding inv_roles_def by blast
  then have "j = i" using assms(1) voters(2) n(2) unfolding inv_votes_def by blast
  then show False using voters(3) assms(3) by blast
qed

lemma ext_refl: "ext G G"
  by (simp add: ext_def)

lemma step_ext:
  assumes "raft_inv M G" "raft_step M i G G'"
  shows "ext G G'"
proof -
  have inv: "inv_votes G" "inv_roles M G" using assms(1) by (simp_all add: raft_inv_def)
  show ?thesis using assms(2)
  proof cases
    case (vote c li lt)
    have "(n, t, c') \<in> a_votes G \<Longrightarrow> a_vote G i = None \<Longrightarrow> (n, t) \<noteq> (i, a_term G i)" for n t c'
      using inv(1) unfolding inv_votes_def by fastforce
    then show ?thesis using vote by (auto simp: ext_def)
  next
    case campaign
    have "(n, t, c') \<in> a_votes G \<Longrightarrow> (n, t) \<noteq> (i, a_term G i + 1)" for n t c'
      using inv(1) unfolding inv_votes_def by fastforce
    then show ?thesis using campaign by (auto simp: ext_def)
  next
    case (elect V)
    then show ?thesis using candidate_not_elected[OF inv elect(2,3)] by (auto simp: ext_def)
  next
    case (append mt L c)
    then have "a_llog G (a_term G i) = a_log G i" using inv(2) unfolding inv_roles_def by blast
    then show ?thesis using append by (auto simp: ext_def)
  qed (auto simp: ext_def)
qed

lemma ext_elected: "ext G G' \<Longrightarrow> elected G t \<Longrightarrow> elected G' t"
  by (auto simp: ext_def elected_def)

lemma ext_llog: "ext G G' \<Longrightarrow> elected G t \<Longrightarrow> prefix (a_llog G t) (a_llog G' t)"
  by (auto simp: ext_def elected_def)

lemma ext_llog_take:
  assumes "ext G G'" "elected G t" "p \<le> length (a_llog G t)"
  shows "take p (a_llog G' t) = take p (a_llog G t)" "p \<le> length (a_llog G' t)"
    "term_at (a_llog G' t) p = term_at (a_llog G t) p"
  using take_prefix[OF ext_llog[OF assms(1,2)] assms(3)] prefix_length_le[OF ext_llog[OF assms(1,2)]] assms(3)
    term_at_prefix[OF ext_llog[OF assms(1,2)] assms(3)] by simp_all

lemma ext_counts: "ext G G' \<Longrightarrow> counts G' n t \<Longrightarrow> counts G n t"
  by (auto simp: ext_def counts_def elected_def)

lemma log_ok_ext:
  assumes "ext G G'" "log_ok G L"
  shows "log_ok G' L"
proof -
  have "elected G' (term_at L p) \<and> p \<le> length (a_llog G' (term_at L p)) \<and> take p L = take p (a_llog G' (term_at L p))"
    if "0 < p" "p \<le> length L" for p
    using log_ok_prefixD[OF assms(2) that] ext_llog_take[OF assms(1)] ext_elected[OF assms(1)] by metis
  then show ?thesis using assms(2) unfolding log_ok_def by blast
qed

lemma committed_ext:
  assumes "ext G G'" "committed M G t c"
  shows "committed M G' t c"
proof -
  have "a_acks G \<subseteq> a_acks G'" using assms(1) by (simp add: ext_def)
  then have "(\<exists>Q. quorum M Q \<and> (\<forall>n\<in>Q. \<exists>p\<ge>c. (n, t, p) \<in> a_acks G'))"
    using assms(2) unfolding committed_def by (meson subsetD)
  then show ?thesis
    using assms(2) ext_elected[OF assms(1)] ext_llog_take[OF assms(1)] unfolding committed_def by metis
qed

lemma commit_ok_ext:
  assumes "ext G G'" "commit_ok M G t L c" "t \<le> t'" "prefix L L'"
  shows "commit_ok M G' t' L' c"
proof -
  have c: "c \<le> length L" using assms(2) by (simp add: commit_ok_def)
  have "\<exists>t0 c0. committed M G' t0 c0 \<and> t0 \<le> t' \<and> c \<le> c0 \<and> take c L' = take c (a_llog G' t0)" if "0 < c"
  proof -
    obtain t0 c0 where *: "committed M G t0 c0" "t0 \<le> t" "c \<le> c0" "take c L = take c (a_llog G t0)"
      using assms(2) \<open>0 < c\<close> unfolding commit_ok_def by blast
    then have "elected G t0" "c \<le> length (a_llog G t0)" by (auto simp: committed_def)
    then have "take c L' = take c (a_llog G' t0)"
      using *(4) take_prefix[OF assms(4) c] ext_llog_take(1)[OF assms(1)] by simp
    then show ?thesis using * committed_ext[OF assms(1) *(1)] assms(3) order_trans by blast
  qed
  then show ?thesis using c prefix_length_le[OF assms(4)] by (auto simp: commit_ok_def)
qed

text \<open>Only the claim of a campaign message can be undone by its sender, and only in a later term.\<close>

lemma msg_ok_ext:
  assumes "ext G G'" "msg_ok M G i t to m" "\<And>li lt. m \<noteq> Campaign li lt"
  shows "msg_ok M G' i t to m"
proof (cases m)
  case (Heartbeat li ci seq)
  have e: "elected G t" "a_elected G' t = Some i"
    using assms(1,2) Heartbeat by (auto simp: ext_def elected_def)
  then show ?thesis
    using assms(2) Heartbeat ext_llog_take[OF assms(1) e(1), of li]
      commit_ok_ext[OF assms(1) _ order_refl ext_llog[OF assms(1) e(1)], of M t ci] by simp
next
  case (Append b bt es)
  have e: "elected G t" "a_elected G' t = Some i"
    using assms(1,2) Append by (auto simp: ext_def elected_def)
  obtain ys where "a_llog G' t = a_llog G t @ ys" using ext_llog[OF assms(1) e(1)] by (auto simp: prefix_def)
  then show ?thesis
    using assms(2) Append e ext_llog_take[OF assms(1) e(1), of b] by (auto simp: prefix_def)
qed (use assms in \<open>auto simp: ext_def\<close>)

lemma inv_logs_llog:
  assumes "inv_logs G" "elected G t"
  shows "log_ok G (a_llog G t)" "\<forall>e\<in>set (a_llog G t). e_term e \<le> t" "prefix (a_elog G t) (a_llog G t)"
    "\<forall>e\<in>set (a_elog G t). e_term e < t"
    "length (a_elog G t) < p \<Longrightarrow> p \<le> length (a_llog G t) \<Longrightarrow> term_at (a_llog G t) p = t"
  using assms unfolding inv_logs_def llog_ok_def by blast+

lemma inv_logs_log:
  assumes "inv_logs G"
  shows "log_ok G (a_log G i)" "\<forall>e\<in>set (a_log G i). e_term e \<le> a_term G i"
  using assms unfolding inv_logs_def by blast+

lemma inv_logs_vlog:
  assumes "inv_logs G" "(n, t, c) \<in> a_votes G" "counts G n t"
  shows "log_ok G (a_vlog G (n, t))" "\<forall>e\<in>set (a_vlog G (n, t)). e_term e < t"
  using assms unfolding inv_logs_def vlog_ok_def by blast+

lemma keeps_back:
  assumes "ext G G'" "inv_logs G" "inv_logs G'" "elected G t" "p \<le> length (a_llog G t)"
    "keeps G' t p T'" "\<And>x. T x \<Longrightarrow> T' x"
  shows "keeps G t p T"
  unfolding keeps_def
proof (intro allI impI)
  fix t' assume "t < t' \<and> T t' \<and> elected G t'"
  then have t': "t < t'" "T' t'" "elected G t'" using assms(7) by blast+
  have e': "elected G' t'" by (rule ext_elected[OF assms(1) t'(3)])
  have "take p (a_llog G' t') = take p (a_llog G' t)" using assms(6) t' e' unfolding keeps_def by blast
  then have eq: "take p (a_llog G' t') = take p (a_llog G t)" using ext_llog_take(1)[OF assms(1,4,5)] by simp
  have "p \<le> length (a_llog G t')"
  proof (rule ccontr)
    assume short: "\<not> p \<le> length (a_llog G t')"
    let ?q = "length (a_llog G t') + 1"
    have "p \<le> length (a_llog G' t')" using take_eq_length[OF eq assms(5)] .
    moreover have "a_elog G' t' = a_elog G t'" using assms(1) t'(3) by (auto simp: ext_def elected_def)
    moreover have "length (a_elog G t') \<le> length (a_llog G t')"
      by (rule prefix_length_le[OF inv_logs_llog(3)[OF assms(2) t'(3)]])
    ultimately have "term_at (a_llog G' t') ?q = t'"
      using inv_logs_llog(5)[OF assms(3) e', of ?q] short by simp
    then have "term_at (a_llog G t) ?q = t'" using term_at_take_eq[OF eq, of ?q] short by simp
    moreover have "term_at (a_llog G t) ?q \<le> t"
      by (rule term_at_bound[OF inv_logs_llog(2)[OF assms(2,4)]])
    ultimately show False using t'(1) by simp
  qed
  then show "take p (a_llog G t') = take p (a_llog G t)"
    using eq ext_llog_take(1)[OF assms(1) t'(3)] by simp
qed

section \<open>Preservation\<close>

lemma inv_net_received:
  assumes "inv_net M G" "received G i j m"
  shows "msg_ok M G j (a_term G i) i m"
  using assms unfolding inv_net_def received_def by force

lemma step_votes:
  assumes "inv_votes G" "inv_net M G" "raft_step M i G G'"
  shows "inv_votes G'"
  using assms(3)
proof cases
  case (new_term t)
  then show ?thesis using assms(1) unfolding inv_votes_def by (auto dest: le_less_trans) fastforce+
next
  case (vote c li lt)
  have "a_term G i \<le> a_term G c" using inv_net_received[OF assms(2) vote(2)] by simp
  then show ?thesis using assms(1) vote unfolding inv_votes_def by auto
next
  case campaign
  have "(i, a_term G i + 1, c) \<notin> a_votes G" for c
    using assms(1) unfolding inv_votes_def by fastforce
  then show ?thesis using campaign assms(1) unfolding inv_votes_def by (auto simp: le_Suc_eq)
qed (use assms(1) in \<open>simp_all add: inv_votes_def\<close>)

lemma role_candidate:
  assumes "inv_roles M G" "a_role G i = ACandidate V"
  shows "0 < a_term G i" "n \<in> V \<Longrightarrow> (n, a_term G i, i) \<in> a_votes G"
  using assms unfolding inv_roles_def by blast+

lemma role_leader:
  assumes "inv_roles M G" "a_role G i = ALeader mt"
  shows "a_elected G (a_term G i) = Some i" "a_llog G (a_term G i) = a_log G i" "elected G (a_term G i)"
    "0 < mt j \<Longrightarrow> (j, a_term G i, mt j) \<in> a_acks G"
  using assms unfolding inv_roles_def elected_def by blast+

lemma role_elected:
  assumes "inv_roles M G" "a_elected G t = Some i"
  shows "0 < t" "quorum M (a_voters G t)" "n \<in> a_voters G t \<Longrightarrow> (n, t, i) \<in> a_votes G" "t \<le> a_term G i"
    "t = a_term G i \<Longrightarrow> a_role G i \<noteq> ACandidate V"
  using assms unfolding inv_roles_def by blast+

lemma step_roles:
  assumes "raft_inv M G" "raft_step M i G G'"
  shows "inv_roles M G'"
proof -
  have inv: "inv_votes G" "inv_roles M G" "inv_net M G" using assms(1) by (simp_all add: raft_inv_def)
  note e = role_elected[OF inv(2)] and c = role_candidate[OF inv(2)] and l = role_leader[OF inv(2)]
  show ?thesis using assms(2)
  proof cases
    case (new_term t)
    have "t' \<le> t" if "a_elected G t' = Some i" for t' using e(4)[OF that] new_term by simp
    then show ?thesis
      using inv(2) new_term unfolding inv_roles_def by (auto split: if_splits)
  next
    case step_down
    then show ?thesis using inv(2) unfolding inv_roles_def by (auto split: if_splits)
  next
    case (vote c li lt)
    then show ?thesis using inv(2) unfolding inv_roles_def by (auto split: if_splits)
  next
    case campaign
    have "t' \<le> Suc (a_term G i) \<and> t' \<noteq> Suc (a_term G i)" if "a_elected G t' = Some i" for t'
      using e(4)[OF that] by simp
    then show ?thesis using inv(2) campaign unfolding inv_roles_def by (auto split: if_splits)
  next
    case (count_vote V j)
    have "(j, a_term G i, i) \<in> a_votes G" using inv_net_received[OF inv(3) count_vote(3)] by simp
    then show ?thesis using inv(2) count_vote unfolding inv_roles_def by (auto split: if_splits)
  next
    case (elect V)
    have none: "a_elected G (a_term G i) = None" by (rule candidate_not_elected[OF inv(1,2) elect(2,3)])
    have "a_term G j \<noteq> a_term G i" if "a_role G j = ALeader mt" for j mt using l(1)[OF that] none by auto
    with none show ?thesis
      using inv(2) elect c[OF elect(2)] unfolding inv_roles_def by (auto split: if_splits)
  next
    case (append mt L c)
    have "a_term G j \<noteq> a_term G i" if "a_role G j = ALeader mt'" "j \<noteq> i" for j mt'
      using l(1)[OF that(1)] l(1)[OF append(2)] that(2) by auto
    then show ?thesis using inv(2) append unfolding inv_roles_def by (auto split: if_splits)
  next
    case (accept j b bt es)
    then show ?thesis using inv(2) unfolding inv_roles_def by (auto split: if_splits)
  next
    case (count_match mt j m r seq)
    have "0 < m \<Longrightarrow> (j, a_term G i, m) \<in> a_acks G"
      using count_match(3) inv_net_received[OF inv(3), of i j] by fastforce
    then show ?thesis using inv(2) count_match unfolding inv_roles_def by (auto split: if_splits)
  qed (use inv(2) in \<open>auto simp: inv_roles_def\<close>)
qed

text \<open>Splicing a segment of a leader's log at a matching base: the log stays as it is when it already
  holds the segment, and otherwise becomes the leader's log up to the end of the segment.\<close>

lemma splice_segment:
  assumes "log_ok G L" "log_ok G X"
  shows "prefix es (drop b X) \<Longrightarrow> b \<le> length L \<Longrightarrow> take b L = take b X \<Longrightarrow>
    splice_list L es = (if take (b + length es) L = take (b + length es) X then L else take (b + length es) X)"
proof (induction es arbitrary: b)
  case Nil
  then show ?case by (simp add: splice_list_def)
next
  case (Cons e es)
  have len: "b < length X" using Cons.prems(1) by (cases "b < length X") auto
  have drop: "drop b X = X ! b # drop (b + 1) X" using len by (simp add: Cons_nth_drop_Suc)
  then have e: "e = X ! b" and es: "prefix es (drop (b + 1) X)" using Cons.prems(1) by auto
  have idx: "e_index e = b + 1" using assms(2) len e by (simp add: log_ok_def entries_wf_def)
  have tm: "term_at X (b + 1) = e_term e" using len e by (simp add: term_at_def)
  have m: "matches L e \<longleftrightarrow> b + 1 \<le> length L \<and> term_at L (b + 1) = term_at X (b + 1)"
    using idx tm by (auto simp: matches_def term_at_def)
  show ?case
  proof (cases "matches L e")
    case True
    have "take (b + 1) L = take (b + 1) X"
      using log_ok_match[OF assms, of "b + 1"] True m len by simp
    then have "splice_list L es = (if take (b + 1 + length es) L = take (b + 1 + length es) X then L
        else take (b + 1 + length es) X)"
      using Cons.IH[OF es] True m by blast
    moreover have "splice_list L (e # es) = splice_list L es" using True by (simp add: splice_list_def)
    ultimately show ?thesis by simp
  next
    case False
    have "take (b + length (e # es)) L \<noteq> take (b + length (e # es)) X"
    proof
      assume eq: "take (b + length (e # es)) L = take (b + length (e # es)) X"
      have 1: "take (b + 1) L = take (b + 1) X" by (rule take_eq_mono[OF eq]) simp
      have "b + 1 \<le> length L" using take_eq_length[OF 1] len by simp
      then show False using False m term_at_take_eq[OF 1, of "b + 1"] by simp
    qed
    moreover have "take (b + length (e # es)) X = take b X @ e # es"
    proof -
      obtain zs where "drop b X = (e # es) @ zs" using Cons.prems(1) by (auto simp: prefix_def)
      then have "take (length (e # es)) (drop b X) = e # es" by simp
      then show ?thesis by (simp only: take_add)
    qed
    ultimately show ?thesis using False idx Cons.prems(3) by (simp add: splice_list_def)
  qed
qed

text \<open>What a received append says of the leader's log and of the log after the splice.\<close>

lemma accept_facts:
  assumes "raft_inv M G" "received G i j (Append b bt es)"
    "b = 0 \<or> b \<le> length (a_log G i) \<and> term_at (a_log G i) b = bt"
  defines "X \<equiv> a_llog G (a_term G i)" and "m \<equiv> b + length es"
  shows "elected G (a_term G i)" "a_elected G (a_term G i) = Some j" "j \<noteq> i" "m \<le> length X" "log_ok G X"
    "splice_list (a_log G i) es = (if take m (a_log G i) = take m X then a_log G i else take m X)"
proof -
  have inv: "inv_logs G" "inv_net M G" using assms(1) by (simp_all add: raft_inv_def)
  have msg: "a_elected G (a_term G i) = Some j" "j \<noteq> i" "b \<le> length X" "bt = term_at X b" "prefix es (drop b X)"
    using inv_net_received[OF inv(2) assms(2)] by (auto simp: X_def)
  show el: "elected G (a_term G i)" "a_elected G (a_term G i) = Some j" "j \<noteq> i" using msg(1,2) by (auto simp: elected_def)
  show "m \<le> length X" using prefix_length_le[OF msg(5)] msg(3) by (simp add: m_def)
  show X: "log_ok G X" unfolding X_def by (rule inv_logs_llog(1)[OF inv(1) el(1)])
  have "b \<le> length (a_log G i) \<and> take b (a_log G i) = take b X"
    using assms(3) log_ok_match[OF inv_logs_log(1)[OF inv(1), of i] X, of b] msg(3,4) by auto
  then show "splice_list (a_log G i) es = (if take m (a_log G i) = take m X then a_log G i else take m X)"
    using splice_segment[OF inv_logs_log(1)[OF inv(1), of i] X msg(5)] by (simp add: m_def)
qed

text \<open>An agreement with the leader's log survives the splice.\<close>

lemma splice_keeps:
  assumes "L' = (if take m L = take m X then L else take m X)" "m \<le> length X"
    "take p L = take p X" "p \<le> length X"
  shows "take p L' = take p X"
proof (cases "p \<le> m")
  case True
  then show ?thesis using assms by (auto simp: min_def)
next
  case False
  then have "take m L = take m X" using take_eq_mono[OF assms(3)] by simp
  then show ?thesis using assms by simp
qed

lemma inv_logsI:
  assumes "\<And>i. log_ok G (a_log G i)" "\<And>i. \<forall>e\<in>set (a_log G i). e_term e \<le> a_term G i"
    "\<And>t. elected G t \<Longrightarrow> llog_ok G t" "\<And>n t c. (n, t, c) \<in> a_votes G \<Longrightarrow> counts G n t \<Longrightarrow> vlog_ok G n t"
  shows "inv_logs G"
  using assms unfolding inv_logs_def by blast

lemma step_logs:
  assumes "raft_inv M G" "raft_step M i G G'"
  shows "inv_logs G'"
proof -
  have inv: "inv_votes G" "inv_roles M G" "inv_logs G" using assms(1) by (simp_all add: raft_inv_def)
  have ext: "ext G G'" by (rule step_ext[OF assms])
  have ok: "log_ok G L \<Longrightarrow> log_ok G' L" for L by (rule log_ok_ext[OF ext])
  have votes: "vlog_ok G' n t"
    if "(n, t, c) \<in> a_votes G" "counts G' n t" for n t c
  proof -
    have "a_vlog G' (n, t) = a_vlog G (n, t)" using ext that(1) unfolding ext_def by blast
    then show ?thesis using inv_logs_vlog[OF inv(3) that(1) ext_counts[OF ext that(2)]] ok by (simp add: vlog_ok_def)
  qed
  have logs: "log_ok G' (a_log G n)" "\<forall>e\<in>set (a_log G n). e_term e \<le> a_term G' n" for n
    using ok[OF inv_logs_log(1)[OF inv(3)]] inv_logs_log(2)[OF inv(3), of n] ext
    by (auto simp: ext_def intro: order_trans)
  have strict: "\<forall>e\<in>set (a_log G n). e_term e < t" if "\<not> elected G t" "a_term G n \<le> t" for n t
  proof
    fix e assume e: "e \<in> set (a_log G n)"
    then obtain k where k: "k < length (a_log G n)" "e = a_log G n ! k" by (metis in_set_conv_nth)
    then have "elected G (e_term e)"
      using log_ok_prefixD[OF inv_logs_log(1)[OF inv(3), of n], of "Suc k"] by (simp add: term_at_def)
    moreover have "e_term e \<le> t" using bspec[OF inv_logs_log(2)[OF inv(3), of n] e] that(2) by simp
    ultimately show "e_term e < t" using that(1) by (cases "e_term e = t") auto
  qed
  have llog: "llog_ok G' t"
    if "elected G t" "a_llog G' t = a_llog G t" "a_elog G' t = a_elog G t" for t
    using inv_logs_llog[OF inv(3) that(1)] that(2,3) ok by (simp add: llog_ok_def)
  have unchanged: "inv_logs G'" if "a_log G' = a_log G" "a_llog G' = a_llog G" "a_elog G' = a_elog G"
      "a_elected G' = a_elected G" "a_votes G' = a_votes G"
  proof -
    have "elected G' = elected G" using that(4) by (simp add: fun_eq_iff elected_def)
    then show ?thesis using that logs votes llog by (intro inv_logsI) simp_all
  qed
  show ?thesis using assms(2)
  proof cases
    case (new_term t)
    then show ?thesis by (intro unchanged) simp_all
  next
    case step_down
    then show ?thesis by (intro unchanged) simp_all
  next
    case (vote c li lt)
    have "vlog_ok G' n t"
      if v: "(n, t, c') \<in> a_votes G'" "counts G' n t" for n t c'
    proof (cases "(n, t, c') \<in> a_votes G")
      case False
      then have n: "n = i" "t = a_term G i" "c' = c" using v(1) vote by auto
      then have none: "a_vote G i = None"
        using vote(3) False inv(1) unfolding inv_votes_def by blast
      have "\<not> elected G t"
      proof
        assume "elected G t"
        then obtain j where j: "a_elected G t = Some j" by (auto simp: elected_def)
        have "i \<in> a_voters G t" using ext_counts[OF ext v(2)] \<open>elected G t\<close> n by (simp add: counts_def)
        then have "(i, t, j) \<in> a_votes G" by (rule role_elected(3)[OF inv(2) j])
        then show False using inv(1) none n unfolding inv_votes_def by fastforce
      qed
      then show ?thesis using none n vote logs(1)[of i] strict[of t i] by (simp add: vlog_ok_def)
    qed (use votes v(2) in blast)
    moreover have "elected G' = elected G" using vote by (simp add: fun_eq_iff elected_def)
    ultimately show ?thesis using logs llog vote by (intro inv_logsI) simp_all
  next
    case campaign
    have "vlog_ok G' n t"
      if v: "(n, t, c') \<in> a_votes G'" "counts G' n t" for n t c'
    proof (cases "(n, t, c') \<in> a_votes G")
      case False
      then have n: "n = i" "t = a_term G i + 1" using v(1) campaign by auto
      have "\<forall>e\<in>set (a_log G i). e_term e < t"
        using inv_logs_log(2)[OF inv(3), of i] n(2) by (auto simp: less_Suc_eq_le)
      then show ?thesis using n campaign logs(1)[of i] by (simp add: vlog_ok_def)
    qed (use votes v(2) in blast)
    moreover have "elected G' = elected G" using campaign by (simp add: fun_eq_iff elected_def)
    ultimately show ?thesis using logs llog campaign by (intro inv_logsI) simp_all
  next
    case (elect V)
    have none: "\<not> elected G (a_term G i)"
      using candidate_not_elected[OF inv(1,2) elect(2,3)] by (simp add: elected_def)
    have el: "elected G' t \<longleftrightarrow> t = a_term G i \<or> elected G t" for t using elect by (simp add: elected_def)
    have "llog_ok G' t"
      if "elected G' t" for t
    proof (cases "t = a_term G i")
      case True
      then show ?thesis using elect logs[of i] strict[OF none, of i] by (simp add: llog_ok_def)
    next
      case False
      then show ?thesis using that el llog[of t] elect by simp
    qed
    then show ?thesis using logs votes elect by (intro inv_logsI) simp_all
  next
    case (append mt L c)
    have el: "elected G' = elected G" using append by (simp add: fun_eq_iff elected_def)
    note l = role_leader[OF inv(2) append(2)]
    have "entries_wf L"
      using append inv_logs_log[OF inv(3), of i] by (simp add: entries_wf_snoc log_ok_def role_elected(1)[OF inv(2) l(1)])
    moreover have "elected G' (term_at L p) \<and> p \<le> length (a_llog G' (term_at L p)) \<and>
        take p L = take p (a_llog G' (term_at L p))" if "0 < p" "p \<le> length L" for p
    proof (cases "p = length L")
      case True
      then show ?thesis using append l(3) el by simp
    next
      case False
      then have "p \<le> length (a_log G i)" using that(2) append by simp
      then show ?thesis using log_ok_prefixD[OF logs(1)[of i] that(1)] append(3) by simp
    qed
    ultimately have L: "log_ok G' L" "\<forall>e\<in>set L. e_term e \<le> a_term G i"
      using append inv_logs_log(2)[OF inv(3), of i] by (auto simp: log_ok_def)
    note ll = inv_logs_llog[OF inv(3) l(3), unfolded l(2)]
    have "prefix (a_elog G (a_term G i)) L" using ll(3) append(3) by (auto simp: prefix_def)
    moreover have "term_at L p = a_term G i" if "length (a_elog G (a_term G i)) < p" "p \<le> length L" for p
      using ll(5)[of p] that append(3) by (cases "p = length L") auto
    ultimately have "llog_ok G' t"
      if "elected G' t" for t
      using that el llog[of t] append L ll(4) by (cases "t = a_term G i") (simp_all add: llog_ok_def)
    then show ?thesis using logs votes append L by (intro inv_logsI) simp_all
  next
    case (accept j b bt es)
    have el: "elected G' = elected G" using accept by (simp add: fun_eq_iff elected_def)
    note a = accept_facts[OF assms(1) accept(2,4)]
    have "a_log G' i = splice_list (a_log G i) es" using accept(1) by simp
    then have log': "a_log G' i = a_log G i \<or> a_log G' i = take (b + length es) (a_llog G (a_term G i))"
      unfolding a(6) by metis
    then have "log_ok G' (a_log G' i)" using ok[OF log_ok_take[OF a(5)]] logs(1)[of i] by metis
    moreover have "\<forall>e\<in>set (a_log G' i). e_term e \<le> a_term G i"
      using log' inv_logs_llog(2)[OF inv(3) a(1)] inv_logs_log(2)[OF inv(3), of i] by (metis in_set_takeD)
    ultimately show ?thesis using logs votes llog accept el by (intro inv_logsI) simp_all
  qed (intro unchanged; simp)+
qed

lemma inv_acksD:
  assumes "inv_acks G" "(n, t, m) \<in> a_acks G"
  shows "elected G t" "m \<le> length (a_llog G t)" "t \<le> a_term G n"
    "p \<le> m \<Longrightarrow> keeps G t p (\<lambda>t'. t' \<le> a_term G n) \<Longrightarrow> take p (a_log G n) = take p (a_llog G t)"
    "p \<le> m \<Longrightarrow> (n, t', c) \<in> a_votes G \<Longrightarrow> t < t' \<Longrightarrow> counts G n t' \<Longrightarrow>
       keeps G t p (\<lambda>t''. t'' < t') \<Longrightarrow> take p (a_vlog G (n, t')) = take p (a_llog G t)"
  using assms unfolding inv_acks_def by blast+

text \<open>A prefix that a node shares with the leader of its term survives every step.\<close>

lemma log_prefix_step:
  assumes "raft_inv M G" "raft_step M i G G'" "take p (a_log G n) = take p X" "p \<le> length X"
    "elected G (a_term G n) \<Longrightarrow> take p (a_llog G (a_term G n)) = take p X"
  shows "take p (a_log G' n) = take p X"
proof -
  have len: "p \<le> length (a_log G n)" by (rule take_eq_length[OF assms(3,4)])
  show ?thesis using assms(2)
  proof cases
    case (append mt L c)
    then show ?thesis using assms(3) len by auto
  next
    case (accept j b bt es)
    note a = accept_facts[OF assms(1) accept(2,4)]
    show ?thesis
    proof (cases "n = i")
      case True
      have X: "take p (a_llog G (a_term G i)) = take p X" using assms(5) a(1) True by simp
      have "take p (splice_list (a_log G i) es) = take p (a_llog G (a_term G i))"
        using splice_keeps[OF a(6,4)] assms(3,4) X True take_eq_length[OF X assms(4)] by simp
      then show ?thesis using accept True X by simp
    qed (use accept assms(3) in simp)
  qed (use assms(3) in simp_all)
qed

text \<open>A vote that a step casts is recorded with the voter's log, and no leader is elected in its term
  unless the vote does not count.\<close>

lemma new_vote:
  assumes "raft_inv M G" "raft_step M i G G'" "(n, t, c) \<in> a_votes G'" "(n, t, c) \<notin> a_votes G" "counts G' n t"
  shows "n = i" "a_vlog G' (n, t) = a_log G i" "a_log G' i = a_log G i" "a_llog G' = a_llog G"
    "a_elected G' = a_elected G" "keeps G t0 p (\<lambda>t'. t' < t) \<Longrightarrow> keeps G t0 p (\<lambda>t'. t' \<le> a_term G i)"
    "a_term G i \<le> t"
proof -
  have inv: "inv_votes G" "inv_roles M G" using assms(1) by (simp_all add: raft_inv_def)
  have "n = i \<and> a_vlog G' (n, t) = a_log G i \<and> a_log G' i = a_log G i \<and> a_llog G' = a_llog G \<and>
      a_elected G' = a_elected G \<and> a_term G i \<le> t \<and> (t = a_term G i \<longrightarrow> \<not> elected G t)"
    using assms(2)
  proof cases
    case (vote c' li lt)
    have n: "n = i" "t = a_term G i" "c = c'" using assms(3,4) vote by auto
    then have none: "a_vote G i = None" using vote(3) assms(4) inv(1) unfolding inv_votes_def by blast
    have "\<not> elected G t"
    proof
      assume el: "elected G t"
      then obtain j where j: "a_elected G t = Some j" by (auto simp: elected_def)
      have "i \<in> a_voters G t" using ext_counts[OF step_ext[OF assms(1,2)] assms(5)] el n by (simp add: counts_def)
      then have "(i, t, j) \<in> a_votes G" by (rule role_elected(3)[OF inv(2) j])
      then show False using inv(1) none n unfolding inv_votes_def by fastforce
    qed
    then show ?thesis using none n vote by simp
  next
    case campaign
    then show ?thesis using assms(3,4) by auto
  qed (use assms(3,4) in simp_all)
  then show "n = i" "a_vlog G' (n, t) = a_log G i" "a_log G' i = a_log G i" "a_llog G' = a_llog G"
    "a_elected G' = a_elected G" "a_term G i \<le> t"
    "keeps G t0 p (\<lambda>t'. t' < t) \<Longrightarrow> keeps G t0 p (\<lambda>t'. t' \<le> a_term G i)"
    unfolding keeps_def by (auto simp: le_less)
qed

text \<open>An acknowledgement is given for a prefix that the node shares with the leader of its term.\<close>

lemma new_ack:
  assumes "raft_inv M G" "raft_step M i G G'" "(n, t, m) \<in> a_acks G'" "(n, t, m) \<notin> a_acks G"
  shows "n = i" "t = a_term G i" "a_term G' i = a_term G i" "a_votes G' = a_votes G" "elected G t"
    "m \<le> length (a_llog G t)" "a_llog G' = a_llog G" "take m (a_log G' i) = take m (a_llog G t)"
proof -
  have inv: "inv_roles M G" "inv_logs G" "inv_net M G" using assms(1) by (simp_all add: raft_inv_def)
  have "n = i \<and> t = a_term G i \<and> a_term G' i = a_term G i \<and> a_votes G' = a_votes G \<and> elected G t \<and>
      m \<le> length (a_llog G t) \<and> a_llog G' = a_llog G \<and> take m (a_log G' i) = take m (a_llog G t)"
    using assms(2)
  proof cases
    case (accept j b bt es)
    have n: "n = i" "t = a_term G i" "m = b + length es" using assms(3,4) accept by auto
    note a = accept_facts[OF assms(1) accept(2,4)]
    have "take m (splice_list (a_log G i) es) = take m (a_llog G t)" unfolding a(6) n by simp
    then show ?thesis using n a(1,4) accept by simp
  next
    case (match j li ci seq)
    have n: "n = i" "t = a_term G i" "m = li" using assms(3,4) match by auto
    have msg: "elected G t" "li \<le> length (a_llog G t)" "term_at (a_llog G t) li = t"
      using inv_net_received[OF inv(3) match(2)] n by (auto simp: elected_def)
    have "take li (a_log G i) = take li (a_llog G t)"
      by (rule log_ok_match[OF inv_logs_log(1)[OF inv(2)] inv_logs_llog(1)[OF inv(2) msg(1)]]) (use match n msg in simp_all)
    then show ?thesis using n msg match by simp
  next
    case (leader_commit mt c)
    have n: "n = i" "t = a_term G i" "m = c" using assms(3,4) leader_commit by auto
    then show ?thesis using leader_commit role_leader[OF inv(1) leader_commit(2)] by simp
  qed (use assms(3,4) in simp_all)
  then show "n = i" "t = a_term G i" "a_term G' i = a_term G i" "a_votes G' = a_votes G" "elected G t"
    "m \<le> length (a_llog G t)" "a_llog G' = a_llog G" "take m (a_log G' i) = take m (a_llog G t)" by blast+
qed

lemma step_acks:
  assumes "raft_inv M G" "raft_step M i G G'"
  shows "inv_acks G'"
  unfolding inv_acks_def
proof (intro allI impI)
  fix n t m p assume ack: "(n, t, m) \<in> a_acks G'" and p: "p \<le> m"
  have inv: "inv_votes G" "inv_logs G" "inv_acks G" using assms(1) by (simp_all add: raft_inv_def)
  note ext = step_ext[OF assms] and logs' = step_logs[OF assms]
  show "elected G' t \<and> m \<le> length (a_llog G' t) \<and> t \<le> a_term G' n \<and>
      (keeps G' t p (\<lambda>t'. t' \<le> a_term G' n) \<longrightarrow> take p (a_log G' n) = take p (a_llog G' t)) \<and>
      (\<forall>t' c. (n, t', c) \<in> a_votes G' \<longrightarrow> t < t' \<longrightarrow> counts G' n t' \<longrightarrow>
         keeps G' t p (\<lambda>t''. t'' < t') \<longrightarrow> take p (a_vlog G' (n, t')) = take p (a_llog G' t))"
  proof (cases "(n, t, m) \<in> a_acks G")
    case True
    note A = inv_acksD[OF inv(3) True]
    have plen: "p \<le> length (a_llog G t)" using A(2) p by simp
    note kback = keeps_back[OF ext inv(2) logs' A(1) plen]
    note llog = ext_llog_take(1)[OF ext A(1) plen]
    have "t \<le> a_term G' n" using A(3) ext unfolding ext_def by (meson order_trans)
    moreover have "take p (a_log G' n) = take p (a_llog G' t)" if k: "keeps G' t p (\<lambda>t'. t' \<le> a_term G' n)"
    proof -
      have k': "keeps G t p (\<lambda>t'. t' \<le> a_term G n)"
        by (rule kback[OF k]) (use ext in \<open>auto simp: ext_def intro: order_trans\<close>)
      have "take p (a_llog G (a_term G n)) = take p (a_llog G t)" if "elected G (a_term G n)"
        using k' A(3) that unfolding keeps_def by (cases "t = a_term G n") auto
      then show ?thesis
        using log_prefix_step[OF assms A(4)[OF p k'] plen] llog by simp
    qed
    moreover have "take p (a_vlog G' (n, t')) = take p (a_llog G' t)"
      if v: "(n, t', c) \<in> a_votes G'" "t < t'" "counts G' n t'" "keeps G' t p (\<lambda>t''. t'' < t')" for t' c
    proof -
      have k: "keeps G t p (\<lambda>t''. t'' < t')" by (rule kback[OF v(4)])
      show ?thesis
      proof (cases "(n, t', c) \<in> a_votes G")
        case True
        have "a_vlog G' (n, t') = a_vlog G (n, t')" using ext True unfolding ext_def by blast
        then show ?thesis using A(5)[OF p True v(2) ext_counts[OF ext v(3)] k] llog by simp
      next
        case False
        note nv = new_vote[OF assms v(1) False v(3)]
        show ?thesis using A(4)[OF p] nv(6)[OF k] nv(1,2) llog by simp
      qed
    qed
    ultimately show ?thesis using ext_elected[OF ext A(1)] ext_llog_take(2)[OF ext A(1,2)] by blast
  next
    case False
    note N = new_ack[OF assms ack False]
    have "take p (a_log G' n) = take p (a_llog G' t)" using take_eq_mono[OF N(8) p] N(1,7) by simp
    moreover have "\<not> (\<exists>t' c. (n, t', c) \<in> a_votes G' \<and> t < t')"
      using inv(1) N(1,2,4) unfolding inv_votes_def by (metis leD)
    ultimately show ?thesis using N ext_elected[OF ext N(5)] by auto
  qed
qed

lemma candidate_step:
  assumes "raft_step M i G G'" "a_role G' n = ACandidate V" "a_term G' n \<le> a_term G n"
  shows "a_term G' n = a_term G n \<and> a_log G' n = a_log G n \<and> (\<exists>V. a_role G n = ACandidate V)"
  using assms by cases (auto split: if_splits)

lemma step_up_to_date:
  assumes "raft_inv M G" "raft_step M i G G'"
  shows "inv_up_to_date G'"
proof -
  have inv: "inv_votes G" "inv_roles M G" "inv_up_to_date G" "inv_net M G"
    using assms(1) by (simp_all add: raft_inv_def)
  note ext = step_ext[OF assms]
  have vlog: "a_vlog G' (n, t) = a_vlog G (n, t)" if "(n, t, c) \<in> a_votes G" for n t c
    using ext that unfolding ext_def by blast
  have U: "up_to_date (log_end (a_log G c)) (a_vlog G (n, t))"
    if "(n, t, c) \<in> a_votes G" "a_term G c = t" "a_role G c = ACandidate V" for n t c V
    using inv(3) that unfolding inv_up_to_date_def by blast
  have bound: "t \<le> a_term G c" if "(n, t, c) \<in> a_votes G" for n t c
    using inv(1) that unfolding inv_votes_def by blast
  have elec: "up_to_date (log_end (a_elog G' t)) (a_vlog G' (n, t))"
    if el: "elected G t" "n \<in> a_voters G' t" for n t
  proof -
    obtain j where j: "a_elected G t = Some j" using el(1) by (auto simp: elected_def)
    have n: "n \<in> a_voters G t" "a_elog G' t = a_elog G t" using ext el(2) j unfolding ext_def by metis+
    have "(n, t, j) \<in> a_votes G" by (rule role_elected(3)[OF inv(2) j n(1)])
    then show ?thesis using inv(3) el(1) n vlog unfolding inv_up_to_date_def by metis
  qed
  have same: "inv_up_to_date G'" if eq: "a_votes G' = a_votes G" "a_elected G' = a_elected G"
      "\<And>c V. a_role G' c = ACandidate V \<Longrightarrow>
         a_term G' c = a_term G c \<and> a_log G' c = a_log G c \<and> (\<exists>V. a_role G c = ACandidate V)"
  proof -
    have "elected G' t = elected G t" for t using eq(2) by (simp add: elected_def)
    moreover have "up_to_date (log_end (a_log G' c)) (a_vlog G' (n, t))"
      if v: "(n, t, c) \<in> a_votes G'" "a_term G' c = t" "a_role G' c = ACandidate V" for n t c V
    proof -
      obtain V' where h: "a_term G' c = a_term G c" "a_log G' c = a_log G c" "a_role G c = ACandidate V'"
        using eq(3)[OF v(3)] by blast
      have "(n, t, c) \<in> a_votes G" "a_term G c = t" using v(1,2) eq(1) h(1) by metis+
      then show ?thesis using U[OF _ _ h(3)] unfolding h(2) by (metis vlog)
    qed
    ultimately show ?thesis using elec unfolding inv_up_to_date_def by simp
  qed
  show ?thesis using assms(2)
  proof cases
    case (vote c li lt)
    have "up_to_date (log_end (a_log G c')) (a_vlog G' (n, t))"
      if v: "(n, t, c') \<in> a_votes G'" "a_term G c' = t" "a_role G c' = ACandidate V" for n t c' V
    proof (cases "(n, t, c') \<in> a_votes G")
      case True
      then show ?thesis using U[OF True v(2,3)] vlog by simp
    next
      case False
      then have n: "n = i" "t = a_term G i" "c' = c" using v(1) vote by auto
      then have none: "a_vote G i = None" using vote(3) False inv(1) unfolding inv_votes_def by blast
      have "(li, lt) = log_end (a_log G c)"
        using inv_net_received[OF inv(4) vote(2)] v(2,3) n by simp
      then show ?thesis using vote none n by simp
    qed
    moreover have "elected G' t = elected G t" for t using vote by (simp add: elected_def)
    ultimately show ?thesis using elec vote unfolding inv_up_to_date_def by simp
  next
    case campaign
    have "up_to_date (log_end (a_log G c')) (a_vlog G' (n, t))"
      if v: "(n, t, c') \<in> a_votes G'" "a_term G' c' = t" "a_role G' c' = ACandidate V" for n t c' V
    proof (cases "(n, t, c') \<in> a_votes G")
      case True
      have "c' \<noteq> i" using bound[OF True] v(2) campaign by auto
      then show ?thesis using U[OF True] v(2,3) campaign vlog[OF True] by simp
    next
      case False
      then show ?thesis using v(1) campaign by (auto simp: up_to_date_def)
    qed
    moreover have "elected G' t = elected G t" for t using campaign by (simp add: elected_def)
    ultimately show ?thesis using elec campaign unfolding inv_up_to_date_def by simp
  next
    case (elect V)
    have "up_to_date (log_end (a_elog G' t)) (a_vlog G' (n, t))" if "elected G' t" "n \<in> a_voters G' t" for n t
    proof (cases "t = a_term G i")
      case True
      then have "(n, t, i) \<in> a_votes G" using role_candidate(2)[OF inv(2) elect(2)] that(2) elect by simp
      from U[OF this True[symmetric] elect(2)] show ?thesis using True elect(1) by simp
    next
      case False
      then show ?thesis using elec[of t n] that elect by (simp add: elected_def)
    qed
    moreover have "up_to_date (log_end (a_log G c)) (a_vlog G (n, t))"
      if "(n, t, c) \<in> a_votes G" "a_term G c = t" "a_role G' c = ACandidate V'" for n t c V'
      using U[OF that(1,2)] that(3) elect by (auto split: if_splits)
    ultimately show ?thesis using elect unfolding inv_up_to_date_def by simp
  next
    case (new_term t)
    have "a_term G' c \<le> a_term G c" if "a_role G' c = ACandidate V" for c V
      using that new_term by (cases "c = i") simp_all
    then show ?thesis using new_term candidate_step[OF assms(2)] by (intro same) (simp, simp, blast)
  qed (rule same, simp, simp, rule candidate_step[OF assms(2)], assumption, simp)+
qed

lemma commit_ok_follower:
  assumes "commit_ok M G t X c" "take c L = take c X"
  shows "commit_ok M G t L c"
  using assms take_eq_length[OF assms(2)] unfolding commit_ok_def by auto

lemma commit_ok_less:
  assumes "commit_ok M G t L c" "c' \<le> c"
  shows "commit_ok M G t L c'"
proof -
  have "\<exists>t0 c0. committed M G t0 c0 \<and> t0 \<le> t \<and> c' \<le> c0 \<and> take c' L = take c' (a_llog G t0)" if "0 < c'"
  proof -
    have "0 < c" using that assms(2) by simp
    then show ?thesis
      using assms unfolding commit_ok_def by (meson order_trans take_eq_mono)
  qed
  then show ?thesis using assms by (simp add: commit_ok_def)
qed

lemma step_commit:
  assumes "raft_inv M G" "raft_step M i G G'"
  shows "inv_commit M G'"
  unfolding inv_commit_def
proof
  fix n
  have inv: "inv_votes G" "inv_roles M G" "inv_logs G" "inv_acks G" "inv_up_to_date G" "inv_commit M G" "inv_net M G"
    using assms(1) by (simp_all add: raft_inv_def)
  note ext = step_ext[OF assms]
  have old: "commit_ok M G (a_term G n) (a_log G n) (a_commit G n)" using inv(6) by (simp add: inv_commit_def)
  have mono: "commit_ok M G' (a_term G' n) L (a_commit G n)" if "prefix (a_log G n) L" for L
    by (rule commit_ok_ext[OF ext old _ that]) (use ext in \<open>simp add: ext_def\<close>)
  show "commit_ok M G' (a_term G' n) (a_log G' n) (a_commit G' n)" using assms(2)
  proof cases
    case (append mt L c)
    have "prefix (a_log G n) (a_log G' n)" using append by auto
    from mono[OF this] show ?thesis using append by simp
  next
    case (accept j b bt es)
    note a = accept_facts[OF assms(1) accept(2,4)]
    have "commit_ok M G (a_term G i) (splice_list (a_log G i) es) (a_commit G i)"
    proof (cases "a_commit G i = 0")
      case False
      have c: "commit_ok M G (a_term G i) (a_log G i) (a_commit G i)" using inv(6) by (simp add: inv_commit_def)
      let ?c = "a_commit G i" and ?X = "a_llog G (a_term G i)"
      obtain t0 c0 where t0: "committed M G t0 c0" "t0 \<le> a_term G i" "?c \<le> c0" "take ?c (a_log G i) = take ?c (a_llog G t0)"
        using c False unfolding commit_ok_def by blast
      have "take c0 ?X = take c0 (a_llog G t0)"
        using leader_completeness_inv[OF inv(1-5) t0(1) a(1)] t0(2) by (cases "t0 = a_term G i") simp_all
      then have X: "take ?c ?X = take ?c (a_llog G t0)" using take_eq_mono t0(3) by blast
      have len: "?c \<le> length (a_llog G t0)" using t0(1,3) by (simp add: committed_def)
      have "take ?c (splice_list (a_log G i) es) = take ?c ?X"
        using splice_keeps[OF a(6,4)] t0(4) X take_eq_length[OF X len] by simp
      then have "take ?c (splice_list (a_log G i) es) = take ?c (a_log G i)" using X t0(4) by simp
      then show ?thesis using commit_ok_follower[OF c] by simp
    qed (simp add: commit_ok_def)
    then have "commit_ok M G' (a_term G i) (splice_list (a_log G i) es) (a_commit G i)"
      using commit_ok_ext[OF ext _ order_refl] by (metis prefix_order.refl)
    then show ?thesis using mono[of "a_log G n"] accept by (cases "n = i") simp_all
  next
    case (follower_commit j li ci seq)
    have msg: "elected G (a_term G i)" "li \<le> length (a_llog G (a_term G i))"
      "term_at (a_llog G (a_term G i)) li = a_term G i" "commit_ok M G (a_term G i) (a_llog G (a_term G i)) ci"
      using inv_net_received[OF inv(7) follower_commit(2)] by (auto simp: elected_def)
    have "take li (a_log G i) = take li (a_llog G (a_term G i))"
      by (rule log_ok_match[OF inv_logs_log(1)[OF inv(3)] inv_logs_llog(1)[OF inv(3) msg(1)]])
        (use follower_commit msg in simp_all)
    then have "commit_ok M G (a_term G i) (a_log G i) ci"
      by (intro commit_ok_follower[OF msg(4)]) (rule take_eq_mono[OF _ follower_commit(5)])
    then have "commit_ok M G' (a_term G i) (a_log G i) ci"
      using commit_ok_ext[OF ext _ order_refl] by (metis prefix_order.refl)
    then show ?thesis using mono[of "a_log G n"] follower_commit by (cases "n = i") simp_all
  next
    case (leader_commit mt c)
    note l = role_leader[OF inv(2) leader_commit(2)]
    have "\<exists>p\<ge>c. (j, a_term G i, p) \<in> a_acks G'" if "j \<in> {j \<in> M. j = i \<or> c \<le> mt j}" for j
      using that l(4)[of j] leader_commit by (auto intro: exI[of _ "mt j"])
    then have "committed M G' (a_term G i) c"
      using leader_commit l(2,3) unfolding committed_def by (auto simp: elected_def)
    moreover have "take c (a_log G i) = take c (a_llog G' (a_term G i))" using leader_commit(1) l(2) by simp
    ultimately have "commit_ok M G' (a_term G i) (a_log G i) c"
      using leader_commit(5) unfolding commit_ok_def by blast
    then show ?thesis using mono[of "a_log G n"] leader_commit by (cases "n = i") simp_all
  next
    case (lose_commit c)
    have "commit_ok M G (a_term G i) (a_log G i) c"
      using inv(6) commit_ok_less[OF _ lose_commit(2)] unfolding inv_commit_def by blast
    then have "commit_ok M G' (a_term G i) (a_log G i) c"
      using commit_ok_ext[OF ext _ order_refl] by (metis prefix_order.refl)
    then show ?thesis using mono[of "a_log G n"] lose_commit by (cases "n = i") simp_all
  qed (use mono[of "a_log G n"] in simp_all)
qed

lemma send_ok:
  assumes "raft_inv M G" "may_send G i m to"
  shows "msg_ok M G i (a_term G i) to m"
proof -
  have inv: "inv_votes G" "inv_roles M G" "inv_commit M G"
    using assms(1) by (simp_all add: raft_inv_def)
  show ?thesis
  proof (cases m)
    case (CampaignResponse v)
    then show ?thesis using assms(2) inv(1) unfolding inv_votes_def by auto
  next
    case (Heartbeat li ci seq)
    then obtain mt where l: "a_role G i = ALeader mt" using assms(2) by auto
    note l = role_leader[OF inv(2) l]
    have "0 < a_term G i" using role_elected(1)[OF inv(2) l(1)] .
    then have "a_log G i \<noteq> []" using assms(2) Heartbeat by (auto simp: term_at_def)
    then show ?thesis using assms(2) Heartbeat l inv(3) by (simp add: inv_commit_def)
  next
    case (Append b bt es)
    then obtain mt where l: "a_role G i = ALeader mt" using assms(2) by auto
    then show ?thesis using assms(2) Append role_leader[OF inv(2) l] by simp
  qed (use assms(2) in auto)
qed

lemma step_net:
  assumes "raft_inv M G" "raft_step M i G G'"
  shows "inv_net M G'"
  unfolding inv_net_def
proof
  fix e assume e: "e \<in> a_net G'"
  have inv: "inv_net M G" using assms(1) by (simp add: raft_inv_def)
  note ext = step_ext[OF assms]
  show "msg_ok M G' (env_from e) (env_term e) (env_to e) (env_message e)"
  proof (cases "e \<in> a_net G")
    case True
    then have old: "msg_ok M G (env_from e) (env_term e) (env_to e) (env_message e)"
      using inv by (simp add: inv_net_def)
    show ?thesis
    proof (cases "\<exists>li lt. env_message e = Campaign li lt")
      case True
      then obtain li lt where m: "env_message e = Campaign li lt" by blast
      have "env_term e \<le> a_term G (env_from e)" using old m by simp
      also have "\<dots> \<le> a_term G' (env_from e)" using ext by (simp add: ext_def)
      finally have "env_term e \<le> a_term G' (env_from e)" .
      moreover have "(li, lt) = log_end (a_log G' n)"
        if n: "n = env_from e" "env_term e = a_term G' n" "a_role G' n = ACandidate V" for n V
      proof -
        have "env_term e \<le> a_term G n" using old m n(1) by simp
        then have "a_term G' n = a_term G n \<and> a_log G' n = a_log G n \<and> (\<exists>V. a_role G n = ACandidate V)"
          using candidate_step[OF assms(2) n(3)] n(2) by simp
        then show ?thesis using old m n by auto
      qed
      ultimately show ?thesis using m by simp
    next
      case False
      then show ?thesis using msg_ok_ext[OF ext old] by blast
    qed
  next
    case False
    show ?thesis using assms(2)
    proof cases
      case (send m to)
      have "e = \<lparr>env_from = i, env_term = a_term G i, env_to = to, env_message = m\<rparr>" using e False send by auto
      moreover have "msg_ok M G' i (a_term G i) to m"
      proof (cases "\<exists>li lt. m = Campaign li lt")
        case True
        then show ?thesis using send_ok[OF assms(1) send(2)] send(1) by auto
      next
        case False
        then show ?thesis using msg_ok_ext[OF ext send_ok[OF assms(1) send(2)]] by blast
      qed
      ultimately show ?thesis by simp
    qed (use e False in simp_all)
  qed
qed

lemma raft_inv_step: "raft_inv M G \<Longrightarrow> raft_step M i G G' \<Longrightarrow> raft_inv M G'"
  using step_votes step_roles step_logs step_acks step_up_to_date step_commit step_net
  unfolding raft_inv_def by metis

lemma raft_reachable_inv: "raft_reachable M G \<Longrightarrow> raft_inv M G"
  by (induction rule: raft_reachable.induct) (auto intro: raft_inv_init raft_inv_step)

section \<open>Safety of reachable states\<close>

lemma inv_election_safety:
  assumes "raft_inv M G" "a_role G i = ALeader mt" "a_role G j = ALeader mt'" "a_term G i = a_term G j"
  shows "i = j"
proof -
  have inv: "inv_roles M G" using assms(1) by (simp add: raft_inv_def)
  have "Some i = Some j"
    using role_leader(1)[OF inv assms(2)] role_leader(1)[OF inv assms(3)] unfolding assms(4) by (rule subst)
  then show ?thesis by simp
qed

lemma inv_log_matching:
  assumes "raft_inv M G" "p \<le> length (a_log G i)" "p \<le> length (a_log G j)"
    "term_at (a_log G i) p = term_at (a_log G j) p"
  shows "take p (a_log G i) = take p (a_log G j)"
proof -
  have inv: "inv_logs G" using assms(1) by (simp add: raft_inv_def)
  show ?thesis by (rule log_ok_match[OF inv_logs_log(1)[OF inv] inv_logs_log(1)[OF inv] assms(2-4)])
qed

lemma committed_agree:
  assumes "raft_inv M G" "committed M G t c" "committed M G t' c'" "t \<le> t'"
  shows "take c (a_llog G t') = take c (a_llog G t)"
proof -
  have inv: "inv_votes G" "inv_roles M G" "inv_logs G" "inv_acks G" "inv_up_to_date G"
    using assms(1) by (simp_all add: raft_inv_def)
  have "elected G t'" using assms(3) by (simp add: committed_def)
  from leader_completeness_inv[OF inv assms(2) this] show ?thesis using assms(4) by (cases "t = t'") simp_all
qed

text \<open>Committed positions agree on any two nodes.\<close>

lemma inv_state_machine_safety:
  assumes "raft_inv M G" "p \<le> a_commit G i" "p \<le> a_commit G j"
  shows "take p (a_log G i) = take p (a_log G j)"
proof -
  have *: "take p (a_log G i) = take p (a_log G j)"
    if c: "committed M G t c" "p \<le> c" "take (a_commit G i) (a_log G i) = take (a_commit G i) (a_llog G t)"
      "committed M G t' c'" "p \<le> c'" "take (a_commit G j) (a_log G j) = take (a_commit G j) (a_llog G t')"
      "p \<le> a_commit G i" "p \<le> a_commit G j" "t \<le> t'" for i j t t' c c'
    using take_eq_mono[OF c(3,7)] take_eq_mono[OF c(6,8)] take_eq_mono[OF committed_agree[OF assms(1) c(1,4,9)] c(2)]
    by simp
  show ?thesis
  proof (cases "p = 0")
    case False
    have ok: "commit_ok M G (a_term G n) (a_log G n) (a_commit G n)" for n
      using assms(1) by (simp add: raft_inv_def inv_commit_def)
    obtain t c where t: "committed M G t c" "a_commit G i \<le> c"
        "take (a_commit G i) (a_log G i) = take (a_commit G i) (a_llog G t)"
      using ok[of i] assms(2) False unfolding commit_ok_def by auto
    obtain t' c' where t': "committed M G t' c'" "a_commit G j \<le> c'"
        "take (a_commit G j) (a_log G j) = take (a_commit G j) (a_llog G t')"
      using ok[of j] assms(3) False unfolding commit_ok_def by auto
    show ?thesis
    proof (cases "t \<le> t'")
      case True
      then show ?thesis using *[OF t(1) _ t(3) t'(1) _ t'(3) assms(2,3)] assms(2,3) t(2) t'(2) by simp
    next
      case False
      then show ?thesis using *[OF t'(1) _ t'(3) t(1) _ t(3) assms(3,2)] assms(2,3) t(2) t'(2) by simp
    qed
  qed simp
qed

lemma inv_commit_length: "raft_inv M G \<Longrightarrow> a_commit G i \<le> length (a_log G i)"
  by (simp add: raft_inv_def inv_commit_def commit_ok_def)

text \<open>The leader of a term holds everything that is committed on any node of an earlier or the same
  term.\<close>

lemma inv_leader_complete:
  assumes "raft_inv M G" "a_role G i = ALeader mt" "a_term G j \<le> a_term G i"
  shows "a_commit G j \<le> length (a_log G i) \<and> take (a_commit G j) (a_log G i) = take (a_commit G j) (a_log G j)"
proof (cases "a_commit G j = 0")
  case False
  have inv: "inv_votes G" "inv_roles M G" "inv_logs G" "inv_acks G" "inv_up_to_date G"
    using assms(1) by (simp_all add: raft_inv_def)
  note l = role_leader[OF inv(2) assms(2)]
  have "commit_ok M G (a_term G j) (a_log G j) (a_commit G j)"
    using assms(1) by (simp add: raft_inv_def inv_commit_def)
  then obtain t c where t: "committed M G t c" "t \<le> a_term G j" "a_commit G j \<le> c"
      "take (a_commit G j) (a_log G j) = take (a_commit G j) (a_llog G t)"
    using False unfolding commit_ok_def by auto
  have "take c (a_log G i) = take c (a_llog G t)"
    using leader_completeness_inv[OF inv t(1) l(3)] l(2) t(2) assms(3) by (cases "t = a_term G i") simp_all
  then have eq: "take (a_commit G j) (a_log G i) = take (a_commit G j) (a_llog G t)"
    using take_eq_mono t(3) by blast
  moreover have "a_commit G j \<le> length (a_llog G t)" using t(1,3) by (simp add: committed_def)
  ultimately show ?thesis using take_eq_length[OF eq] t(4) by simp
qed simp

end
