(* ===== verification/Raft_Log_Contract.thy ===== *)
theory Raft_Log_Contract
  imports Raft_Log_Ref BitCask
begin

text \<open>
  The interface between the Raft node and its log: a locale with one law per method, stated against
  the reference log, and the proof that the log of \<^verbatim>\<open>src/raft/log.rs\<close> satisfies it on every storage
  engine.
\<close>

section \<open>The contract\<close>

text \<open>The reference log that a log in memory represents, read off the engine and the cached fields.\<close>

definition stored_entry :: "raft_codec \<Rightarrow> memory \<Rightarrow> nat \<Rightarrow> entry" where
  "stored_entry bc m i = (case map_of m (encode_log_key (LEntry i)) of
       Some v \<Rightarrow> (case decode (entry_codec bc) v of Ok e \<Rightarrow> e | _ \<Rightarrow> \<lparr>e_index = i, e_term = 0, e_command = None\<rparr>)
     | None \<Rightarrow> \<lparr>e_index = i, e_term = 0, e_command = None\<rparr>)"

definition rlog_of :: "raft_codec \<Rightarrow> memory raft_log \<Rightarrow> rlog" where
  "rlog_of bc l = \<lparr>r_term = log_term l, r_vote = log_vote l,
     r_entries = map (stored_entry bc (log_engine l)) [1..<last_index l + 1], r_commit = commit_index l\<rparr>"

definition log_invar :: "raft_codec \<Rightarrow> memory raft_log \<Rightarrow> bool" where
  "log_invar bc l = log_rel bc (rlog_of bc l) l"

lemma rlog_of_rel:
  assumes "log_rel bc R l" "raft_codec_ok bc"
  shows "rlog_of bc l = R"
proof -
  have wf: "rlog_wf R" "last_index l = length (r_entries R)" using assms(1) by (auto simp: log_rel_def)
  have "stored_entry bc (log_engine l) (Suc i) = r_entries R ! i" if "i < length (r_entries R)" for i
  proof -
    have "map_of (log_engine l) (encode_log_key (LEntry (Suc i))) = Some (encode (entry_codec bc) (r_entries R ! i))"
      using log_rel_get[OF assms(1), of "LEntry (Suc i)"] that wf(1) by (simp add: r_get_def rlog_wf_def)
    then show ?thesis
      using rlog_entry_ok[OF wf(1) assms(2) nth_mem[OF that]] by (simp add: stored_entry_def)
  qed
  then have "map (stored_entry bc (log_engine l)) [1..<last_index l + 1] = r_entries R"
    unfolding wf(2) by (intro nth_equalityI) (simp_all del: upt_Suc)
  then show ?thesis using assms(1) by (simp add: rlog_of_def log_rel_def del: upt_Suc)
qed

lemma log_invarI: "log_rel bc R l \<Longrightarrow> raft_codec_ok bc \<Longrightarrow> log_invar bc l"
  by (simp add: log_invar_def rlog_of_rel)

lemma log_invarD: "log_invar bc l \<Longrightarrow> log_rel bc (rlog_of bc l) l"
  by (simp add: log_invar_def)

lemma follows_sim:
  assumes "raft_codec_ok bc" "\<And>R l. log_rel bc R l \<Longrightarrow> follows bc m m' R l"
  shows "sim (log_invar bc) (rlog_of bc) m m'"
  unfolding sim_def
proof (intro allI impI)
  fix l assume "log_invar bc l"
  then obtain l' where l': "m l = (fst (m' (rlog_of bc l)), l')" "log_rel bc (snd (m' (rlog_of bc l))) l'"
    using assms(2)[OF log_invarD] unfolding follows_def by blast
  then show "fst (m l) = fst (m' (rlog_of bc l)) \<and> log_invar bc (snd (m l)) \<and>
      rlog_of bc (snd (m l)) = snd (m' (rlog_of bc l))"
    using rlog_of_rel[OF l'(2) assms(1)] log_invarI[OF l'(2) assms(1)] by simp
qed

lemma sim_trans:
  assumes "sim I f m m'" "sim J g m' m''"
  shows "sim (\<lambda>c. I c \<and> J (f c)) (\<lambda>c. g (f c)) m m''"
  using assms by (auto simp: sim_def)

lemma lift_log_simps [simp]:
  "last_index (lift_log f l) = last_index l" "last_term (lift_log f l) = last_term l"
  "commit_index (lift_log f l) = commit_index l" "commit_term (lift_log f l) = commit_term l"
  "log_term (lift_log f l) = log_term l" "log_vote (lift_log f l) = log_vote l"
  "log_engine (lift_log f l) = f (log_engine l)"
  by (simp_all add: lift_log_def)

text \<open>What a node relies on. The three getters are reads of the reference log; the other methods
  behave as the reference operations, for indexes and terms that fit the machine type.\<close>

locale log_contract =
  fixes L :: "'l log_ops" and invar :: "'l \<Rightarrow> bool" and abst :: "'l \<Rightarrow> rlog"
  assumes wf_law: "invar l \<Longrightarrow> rlog_wf (abst l)"
    and term_vote_law: "invar l \<Longrightarrow> l_get_term_vote L l = (r_term (abst l), r_vote (abst l))"
    and last_index_law: "invar l \<Longrightarrow> l_get_last_index L l =
      (length (r_entries (abst l)), term_at (r_entries (abst l)) (length (r_entries (abst l))))"
    and commit_index_law: "invar l \<Longrightarrow> l_get_commit_index L l =
      (r_commit (abst l), term_at (r_entries (abst l)) (r_commit (abst l)))"
    and set_term_vote_law: "trm < u64_limit \<Longrightarrow> sim invar abst (l_set_term_vote L trm vote) (r_set_term_vote trm vote)"
    and append_law: "sim invar abst (l_append L c) (r_append c)"
    and commit_law: "i < u64_limit \<Longrightarrow> sim invar abst (l_commit L i) (r_commit_to i)"
    and splice_law: "\<forall>e\<in>set es. e_index e < u64_limit \<Longrightarrow> sim invar abst (l_splice L es) (r_splice es)"
    and get_law: "invar l \<Longrightarrow> i < u64_limit \<Longrightarrow> l_get L i l = (Ok (r_get (abst l) i), l)"
    and has_law: "invar l \<Longrightarrow> i < u64_limit \<Longrightarrow> l_has L i t l = (Ok (r_has (abst l) i t), l)"
    and scan_law: "invar l \<Longrightarrow> index_bound_ok (fst r) \<Longrightarrow> index_bound_ok (snd r) \<Longrightarrow>
      l_scan L r l = (fst (r_scan r (abst l)), l)"
    and scan_apply_law: "invar l \<Longrightarrow> l_scan_apply L i l = (fst (r_scan_apply i (abst l)), l)"
    and status_law: "invar l \<Longrightarrow> \<exists>st. l_status L l = (Ok st, l)"

text \<open>The log of \<^verbatim>\<open>log.rs\<close> satisfies it on any engine that satisfies the engine contract.\<close>

locale engine_codec = engine ops invar abst for ops :: "'e engine_ops" and invar abst +
  fixes bc :: raft_codec
  assumes codec: "raft_codec_ok bc"
begin

lemma sim_log:
  assumes "sim (log_holds invar) (lift_log abst) m m'" "\<And>R l. log_rel bc R l \<Longrightarrow> follows bc m' m'' R l"
  shows "sim (\<lambda>l. invar (log_engine l) \<and> log_invar bc (lift_log abst l)) (\<lambda>l. rlog_of bc (lift_log abst l)) m m''"
  using sim_trans[OF assms(1) follows_sim[OF codec assms(2)]] .

lemma read_only:
  assumes "sim (log_holds invar) (lift_log abst) m m'" "m' (lift_log abst l) = (r, lift_log abst l)"
    "invar (log_engine l)" "snd (m l) = l"
  shows "m l = (r, l)"
  using simD(1)[OF assms(1,3)] assms(2,4) by (simp add: prod_eq_iff)

lemma reads_keep_log:
  assumes "invar (log_engine l)"
  shows "snd (log_get ops bc i l) = l" "snd (log_has ops bc i t l) = l" "snd (log_scan ops bc r l) = l"
    "snd (log_scan_apply ops bc i l) = l"
proof -
  show get: "snd (log_get ops bc i l) = l"
    by (simp add: log_get_def monad_simps on_engine_def get_law[OF assms])
  show "snd (log_has ops bc i t l) = l"
    using get by (auto simp: log_has_def monad_simps read_log_def split: prod.splits result.splits)
  have scan: "snd (log_scan ops bc r l) = l" for r
    by (auto simp: log_scan_def monad_simps on_engine_def scan_law[OF assms] Let_def
        split: prod.splits result.splits)
  then show "snd (log_scan ops bc r l) = l" .
  show "snd (log_scan_apply ops bc i l) = l"
    using scan by (simp add: log_scan_apply_def monad_simps read_log_def)
qed

end

sublocale engine_codec \<subseteq> log: log_contract "engine_log ops bc"
  "\<lambda>l. invar (log_engine l) \<and> log_invar bc (lift_log abst l)" "\<lambda>l. rlog_of bc (lift_log abst l)"
proof
  fix l r assume "invar (log_engine l) \<and> log_invar bc (lift_log abst l)"
  then have l: "invar (log_engine l)" and rel: "log_rel bc (rlog_of bc (lift_log abst l)) (lift_log abst l)"
    by (auto simp: log_invar_def)
  show "rlog_wf (rlog_of bc (lift_log abst l))" using rel by (simp add: log_rel_def)
  show "l_get_term_vote (engine_log ops bc) l =
      (r_term (rlog_of bc (lift_log abst l)), r_vote (rlog_of bc (lift_log abst l)))"
    by (simp add: engine_log_def get_term_vote_def rlog_of_def lift_log_def)
  show "l_get_last_index (engine_log ops bc) l = (length (r_entries (rlog_of bc (lift_log abst l))),
      term_at (r_entries (rlog_of bc (lift_log abst l))) (length (r_entries (rlog_of bc (lift_log abst l)))))"
    using rel by (simp add: engine_log_def get_last_index_def log_rel_def)
  show "l_get_commit_index (engine_log ops bc) l = (r_commit (rlog_of bc (lift_log abst l)),
      term_at (r_entries (rlog_of bc (lift_log abst l))) (r_commit (rlog_of bc (lift_log abst l))))"
    using rel by (simp add: engine_log_def get_commit_index_def log_rel_def)
  show "l_get (engine_log ops bc) i l = (Ok (r_get (rlog_of bc (lift_log abst l)) i), l)" if "i < u64_limit" for i
    using read_only[OF sim_log_get log_get_mem[OF rel codec that] l reads_keep_log(1)[OF l]]
    by (simp add: engine_log_def)
  show "l_has (engine_log ops bc) i t l = (Ok (r_has (rlog_of bc (lift_log abst l)) i t), l)"
    if "i < u64_limit" for i t
    using read_only[OF sim_log_has log_has_mem[OF rel codec that] l reads_keep_log(2)[OF l]]
    by (simp add: engine_log_def)
  show "l_scan (engine_log ops bc) r l = (fst (r_scan r (rlog_of bc (lift_log abst l))), l)"
    if "index_bound_ok (fst r)" "index_bound_ok (snd r)"
    using read_only[OF sim_log_scan log_scan_mem[OF rel codec that] l reads_keep_log(3)[OF l]]
    by (simp add: engine_log_def)
  show "l_scan_apply (engine_log ops bc) i l = (fst (r_scan_apply i (rlog_of bc (lift_log abst l))), l)" for i
    using read_only[OF sim_log_scan_apply log_scan_apply_mem[OF rel codec] l reads_keep_log(4)[OF l]]
    by (simp add: engine_log_def)
  show "\<exists>st. l_status (engine_log ops bc) l = (Ok st, l)"
    using status_law[OF l] by (auto simp: engine_log_def log_status_def on_engine_def)
next
  fix trm vote assume "trm < u64_limit"
  then show "sim (\<lambda>l. invar (log_engine l) \<and> log_invar bc (lift_log abst l)) (\<lambda>l. rlog_of bc (lift_log abst l))
      (l_set_term_vote (engine_log ops bc) trm vote) (r_set_term_vote trm vote)"
    using sim_log[OF sim_set_term_vote set_term_vote_mem] by (simp add: engine_log_def)
next
  fix c
  show "sim (\<lambda>l. invar (log_engine l) \<and> log_invar bc (lift_log abst l)) (\<lambda>l. rlog_of bc (lift_log abst l))
      (l_append (engine_log ops bc) c) (r_append c)"
    using sim_log[OF sim_log_append log_append_mem] by (simp add: engine_log_def)
next
  fix i assume "i < u64_limit"
  then show "sim (\<lambda>l. invar (log_engine l) \<and> log_invar bc (lift_log abst l)) (\<lambda>l. rlog_of bc (lift_log abst l))
      (l_commit (engine_log ops bc) i) (r_commit_to i)"
    using sim_log[OF sim_log_commit log_commit_mem[OF _ codec]] by (simp add: engine_log_def)
next
  fix es :: "entry list" assume "\<forall>e\<in>set es. e_index e < u64_limit"
  then show "sim (\<lambda>l. invar (log_engine l) \<and> log_invar bc (lift_log abst l)) (\<lambda>l. rlog_of bc (lift_log abst l))
      (l_splice (engine_log ops bc) es) (r_splice es)"
    using sim_log[OF sim_log_splice log_splice_mem[OF _ codec]] by (simp add: engine_log_def)
qed

section \<open>Restart\<close>

lemma last_log_memory:
  assumes "rlog_wf R" "raft_codec_ok bc" "r_entries R \<noteq> []"
  shows "rbind (last (map Ok (map (\<lambda>e. (k e, encode (entry_codec bc) e)) (r_entries R))))
    (\<lambda>(_, v). rmap (\<lambda>e. (e_index e, e_term e)) (decode (entry_codec bc) v)) =
    Ok (length (r_entries R), term_at (r_entries R) (length (r_entries R)))"
proof -
  have "e_index (last (r_entries R)) = length (r_entries R)"
    using assms(1,3) entries_wf_nth[of "r_entries R" "length (r_entries R)"]
    by (simp add: rlog_wf_def last_conv_nth Suc_le_eq)
  then show ?thesis
    using assms(3) rlog_entry_ok[OF assms(1,2) last_in_set[OF assms(3)]]
    by (simp add: last_map term_at_def last_conv_nth Suc_le_eq)
qed

lemma term_at_le: "rlog_wf R \<Longrightarrow> term_at (r_entries R) i \<le> r_term R"
  using nth_mem[of "i - 1" "r_entries R"] by (auto simp: rlog_wf_def term_at_def)

lemma log_new_mem:
  assumes "log_rel bc R l" "raft_codec_ok bc"
  shows "log_new memory_ops bc (log_engine l) = (Ok (l\<lparr>fsync := True\<rparr>), log_engine l)"
proof -
  let ?m = "log_engine l"
  have wf: "rlog_wf R" using assms(1) by (simp add: log_rel_def)
  have lim: "r_term R < u64_limit" "r_commit R < u64_limit" "term_at (r_entries R) (r_commit R) < u64_limit"
    using wf term_at_le[OF wf, of "r_commit R"] by (simp_all add: rlog_wf_def)
  have tv: "decode_option (term_vote_codec bc) (0, None) (map_of ?m (encode_log_key LTermVote)) = Ok (log_term l, log_vote l)"
    using log_rel_get[OF assms(1), of LTermVote] assms lim wf
    by (auto simp: decode_option_def log_rel_def rlog_wf_def raft_codec_ok_def)
  have ci: "decode_option (commit_codec bc) (0, 0) (map_of ?m (encode_log_key LCommitIndex)) =
      Ok (commit_index l, commit_term l)"
    using log_rel_get[OF assms(1), of LCommitIndex] assms lim
    by (auto simp: decode_option_def log_rel_def raft_codec_ok_def term_at_def)
  have range: "btree_range (Included (encode_log_key (LEntry 0)), Included (encode_log_key (LEntry (u64_limit - 1)))) ?m =
      Ok (map (\<lambda>e. (encode_log_key (LEntry (e_index e)), encode (entry_codec bc) e)) (r_entries R))"
    using filter_log_memory[OF wf, of "(Unbounded, Unbounded)" bc] log_rel_memory[OF assms(1)]
    by (simp add: btree_range_def key_bounds_def in_range_def)
  show ?thesis
  proof (cases "r_entries R = []")
    case True
    then show ?thesis
      using assms(1) by (simp add: log_new_def monad_simps mem_simps tv ci range[unfolded One_nat_def] log_rel_def term_at_def)
  next
    case False
    then show ?thesis
      using assms(1) last_log_memory[OF wf assms(2) False, of "\<lambda>e. encode_log_key (LEntry (e_index e))"]
      by (auto simp: log_new_def monad_simps mem_simps tv ci range[unfolded One_nat_def] log_rel_def)
  qed
qed

context engine_codec
begin

lemma log_new_engine:
  assumes "invar (log_engine l)" "log_invar bc (lift_log abst l)"
  shows "log_new ops bc (log_engine l) = (Ok (l\<lparr>fsync := True\<rparr>), log_engine l)"
proof -
  note mem = log_new_mem[OF log_invarD[OF assms(2)] codec]
  have "fst (log_new ops bc (log_engine l)) = rmap (\<lambda>m. m\<lparr>log_engine := log_engine l\<rparr>)
      (rmap (lift_log (\<lambda>_. log_engine l)) (fst (log_new memory_ops bc (abst (log_engine l)))))"
    by (auto simp: log_new_def monad_simps get_law[OF assms(1)] scan_law[OF assms(1)] mem_simps lift_log_def
        split: prod.splits result.splits)
  moreover have "snd (log_new ops bc (log_engine l)) = log_engine l"
    by (auto simp: log_new_def monad_simps get_law[OF assms(1)] scan_law[OF assms(1)]
        split: prod.splits result.splits)
  ultimately show ?thesis using mem by (simp add: prod_eq_iff lift_log_def)
qed

end

section \<open>A concrete codec\<close>

text \<open>Fixed-width integers followed by an optional payload: an instance of the codecs that the
  development takes as parameters.\<close>

definition sample_raft_codec :: raft_codec where
  "sample_raft_codec = \<lparr>
     entry_codec = \<lparr>
       encode = (\<lambda>e. u64_to_be_bytes (of_nat (e_index e)) @ u64_to_be_bytes (of_nat (e_term e)) @
         (case e_command e of None \<Rightarrow> [] | Some c \<Rightarrow> 0 # c)),
       decode = (\<lambda>b. Ok \<lparr>e_index = unat (u64_from_be_bytes (take 8 b)),
         e_term = unat (u64_from_be_bytes (take 8 (drop 8 b))),
         e_command = (case drop 16 b of [] \<Rightarrow> None | _ # c \<Rightarrow> Some c)\<rparr>)\<rparr>,
     term_vote_codec = \<lparr>
       encode = (\<lambda>(t, v). u64_to_be_bytes (of_nat t) @ (case v of None \<Rightarrow> [] | Some n \<Rightarrow> [n])),
       decode = (\<lambda>b. Ok (unat (u64_from_be_bytes (take 8 b)), case drop 8 b of [] \<Rightarrow> None | n # _ \<Rightarrow> Some n))\<rparr>,
     commit_codec = \<lparr>
       encode = (\<lambda>(i, t). u64_to_be_bytes (of_nat i) @ u64_to_be_bytes (of_nat t)),
       decode = (\<lambda>b. Ok (unat (u64_from_be_bytes (take 8 b)), unat (u64_from_be_bytes (drop 8 b))))\<rparr>\<rparr>"

lemma sample_raft_codec_ok: "raft_codec_ok sample_raft_codec"
  by (auto simp: raft_codec_ok_def sample_raft_codec_def u64_limit_def unat_of_nat split: option.split)

interpretation mlog: engine_codec memory_ops "\<lambda>m. ordered m" "\<lambda>m. m" sample_raft_codec
  by unfold_locales (rule sample_raft_codec_ok)

interpretation blog: engine_codec bitcask_ops bc_invar bc_abs sample_raft_codec
  by unfold_locales (rule sample_raft_codec_ok)

section \<open>Properties\<close>

text \<open>The representation of a reference log by a log over an engine, as the properties state it.\<close>

definition represents ::
    "('e \<Rightarrow> bool) \<Rightarrow> ('e \<Rightarrow> memory) \<Rightarrow> raft_codec \<Rightarrow> 'e raft_log \<Rightarrow> rlog \<Rightarrow> bool" where
  "represents invar abst bc l R = (invar (log_engine l) \<and> log_rel bc R (lift_log abst l))"

lemma engine_codecI: "engine ops invar abst \<Longrightarrow> raft_codec_ok bc \<Longrightarrow> engine_codec ops invar abst bc"
  by (simp add: engine_codec_def engine_codec_axioms_def)

lemma represents_iff:
  "raft_codec_ok bc \<Longrightarrow> represents invar abst bc l R \<longleftrightarrow>
     invar (log_engine l) \<and> log_invar bc (lift_log abst l) \<and> rlog_of bc (lift_log abst l) = R"
  unfolding represents_def using rlog_of_rel log_invarI log_invarD by metis

text \<open>One call: same result, and the logs still correspond.\<close>

definition agrees ::
    "('e \<Rightarrow> bool) \<Rightarrow> ('e \<Rightarrow> memory) \<Rightarrow> raft_codec \<Rightarrow> 'e raft_log \<Rightarrow> rlog \<Rightarrow>
     ('e raft_log, 'a) action \<Rightarrow> (rlog, 'a) action \<Rightarrow> bool" where
  "agrees invar abst bc l R m m' =
     (fst (m l) = fst (m' R) \<and> represents invar abst bc (snd (m l)) (snd (m' R)))"

lemma agrees_sim:
  assumes "raft_codec_ok bc" "represents invar abst bc l R"
    "sim (\<lambda>l. invar (log_engine l) \<and> log_invar bc (lift_log abst l)) (\<lambda>l. rlog_of bc (lift_log abst l)) m m'"
  shows "agrees invar abst bc l R m m'"
  using assms(2) simD[OF assms(3), of l] unfolding represents_iff[OF assms(1)] agrees_def by auto

context engine_codec
begin

lemma log_agrees:
  assumes "represents invar abst bc l R"
  shows "trm < u64_limit \<Longrightarrow> agrees invar abst bc l R (set_term_vote ops bc trm vote) (r_set_term_vote trm vote)"
    "agrees invar abst bc l R (log_append ops bc command) (r_append command)"
    "i < u64_limit \<Longrightarrow> agrees invar abst bc l R (log_commit ops bc i) (r_commit_to i)"
    "\<forall>e\<in>set es. e_index e < u64_limit \<Longrightarrow> agrees invar abst bc l R (log_splice ops bc es) (r_splice es)"
  using agrees_sim[OF codec assms log.set_term_vote_law, of trm vote] agrees_sim[OF codec assms log.append_law, of command]
    agrees_sim[OF codec assms log.commit_law, of i] agrees_sim[OF codec assms log.splice_law, of es]
  by (simp_all add: engine_log_def)

lemma log_reads:
  assumes "represents invar abst bc l R"
  shows "i < u64_limit \<Longrightarrow> log_get ops bc i l = (Ok (r_get R i), l)"
    "i < u64_limit \<Longrightarrow> log_has ops bc i t l = (Ok (r_has R i t), l)"
    "log_scan_apply ops bc a l = (Ok (map Ok (drop a (take (r_commit R) (r_entries R)))), l)"
  using assms log.get_law[of l i] log.has_law[of l i t] log.scan_apply_law[of l a]
  unfolding represents_iff[OF codec] by (auto simp: engine_log_def r_scan_apply_def)

lemma log_restart:
  assumes "represents invar abst bc l R"
  shows "\<exists>l'. log_new ops bc (log_engine l) = (Ok l', log_engine l) \<and> represents invar abst bc l' R"
proof -
  have l: "invar (log_engine l)" "log_rel bc R (lift_log abst l)"
    using assms by (auto simp: represents_def)
  have "represents invar abst bc (l\<lparr>fsync := True\<rparr>) R"
    using l by (simp add: represents_def log_rel_def)
  then show ?thesis using log_new_engine[OF l(1) log_invarI[OF l(2) codec]] by blast
qed

end

lemma represents_new:
  assumes "invar e" "abst e = []"
  shows "represents invar abst bc \<lparr>log_engine = e, log_term = 0, log_vote = None, last_index = 0, last_term = 0,
      commit_index = 0, commit_term = 0, fsync = True\<rparr> \<lparr>r_term = 0, r_vote = None, r_entries = [], r_commit = 0\<rparr>"
proof -
  have wf: "rlog_wf \<lparr>r_term = 0, r_vote = None, r_entries = [], r_commit = 0\<rparr>"
    by (simp add: rlog_wf_def entries_wf_def)
  have "log_store bc \<lparr>r_term = 0, r_vote = None, r_entries = [], r_commit = 0\<rparr> []"
    by (subst log_store_iff[OF wf]) (simp add: log_memory_def)
  then show ?thesis using assms wf by (simp add: represents_def log_rel_def lift_log_def term_at_def)
qed

text \<open>C21 The Raft log refines its contract on every storage engine: from a log that represents a
  reference log, storing the term and vote, appending, committing and splicing return the result of
  the reference operation (errors and assertion failures included) and end in a log that represents
  the resulting reference log; lookups and the scan of the entries to apply return what the list of
  entries holds.\<close>
theorem raft_log_refines:
  assumes "engine ops invar abst" "raft_codec_ok bc" "represents invar abst bc l R"
    "trm < u64_limit" "i < u64_limit" "\<forall>e\<in>set es. e_index e < u64_limit"
  shows "agrees invar abst bc l R (set_term_vote ops bc trm vote) (r_set_term_vote trm vote) \<and>
    agrees invar abst bc l R (log_append ops bc command) (r_append command) \<and>
    agrees invar abst bc l R (log_commit ops bc i) (r_commit_to i) \<and>
    agrees invar abst bc l R (log_splice ops bc es) (r_splice es) \<and>
    log_get ops bc i l = (Ok (r_get R i), l) \<and>
    log_has ops bc i t l = (Ok (r_has R i t), l) \<and>
    log_scan_apply ops bc a l = (Ok (map Ok (drop a (take (r_commit R) (r_entries R)))), l)"
  using engine_codec.log_agrees[OF engine_codecI[OF assms(1,2)] assms(3)]
    engine_codec.log_reads[OF engine_codecI[OF assms(1,2)] assms(3)] assms(4-6) by blast

text \<open>C22 Opening the log again after a restart recovers it: from an engine that holds a log, \<^verbatim>\<open>Log::new\<close>
  succeeds and gives a log that represents the same term, vote, entries and commit position.\<close>
theorem raft_log_restart:
  assumes "engine ops invar abst" "raft_codec_ok bc" "represents invar abst bc l R"
  shows "\<exists>l'. log_new ops bc (log_engine l) = (Ok l', log_engine l) \<and> represents invar abst bc l' R"
  using engine_codec.log_restart[OF engine_codecI[OF assms(1,2)] assms(3)] .

text \<open>A log with one committed and one uncommitted entry, for the witnesses.\<close>

definition sample_rlog :: rlog where
  "sample_rlog = \<lparr>r_term = 2, r_vote = Some 1,
     r_entries = [\<lparr>e_index = 1, e_term = 1, e_command = None\<rparr>, \<lparr>e_index = 2, e_term = 2, e_command = Some [7]\<rparr>],
     r_commit = 1\<rparr>"

definition sample_raft_log :: "memory raft_log" where
  "sample_raft_log = \<lparr>log_engine = log_memory sample_raft_codec sample_rlog, log_term = 2, log_vote = Some 1,
     last_index = 2, last_term = 2, commit_index = 1, commit_term = 1, fsync = True\<rparr>"

lemma sample_represents:
  "represents (\<lambda>m. ordered m) (\<lambda>m. m) sample_raft_codec sample_raft_log sample_rlog"
proof -
  have wf: "rlog_wf sample_rlog"
    by (auto simp: rlog_wf_def sample_rlog_def entries_wf_def less_Suc_eq u64_limit_def)
  have "log_store sample_raft_codec sample_rlog (log_memory sample_raft_codec sample_rlog)"
    using log_store_iff[OF wf] by simp
  then show ?thesis
    using wf ordered_log_memory[OF wf]
    by (simp add: represents_def log_rel_def sample_raft_log_def sample_rlog_def term_at_def lift_log_def)
qed

theorem raft_log_refines_witness:
  "agrees (\<lambda>m. ordered m) (\<lambda>m. m) sample_raft_codec sample_raft_log sample_rlog
     (log_splice memory_ops sample_raft_codec [\<lparr>e_index = 2, e_term = 2, e_command = Some [7]\<rparr>])
     (r_splice [\<lparr>e_index = 2, e_term = 2, e_command = Some [7]\<rparr>])"
  using raft_log_refines[OF mem.engine_axioms sample_raft_codec_ok sample_represents,
      of 3 1 "[\<lparr>e_index = 2, e_term = 2, e_command = Some [7]\<rparr>]"]
  by (simp add: u64_limit_def)

theorem raft_log_restart_witness:
  "\<exists>l'. log_new memory_ops sample_raft_codec (log_memory sample_raft_codec sample_rlog) =
     (Ok l', log_memory sample_raft_codec sample_rlog) \<and>
     represents (\<lambda>m. ordered m) (\<lambda>m. m) sample_raft_codec l' sample_rlog"
  using raft_log_restart[OF mem.engine_axioms sample_raft_codec_ok sample_represents]
  by (simp add: sample_raft_log_def)

end
