(* ===== verification/Raft_Simulation.thy ===== *)
theory Raft_Simulation
  imports Raft_Cluster Raft_Safety Raft_Log_Contract
begin

text \<open>
  The nodes of a cluster follow the Raft protocol: every handler of \<^verbatim>\<open>src/raft/node.rs\<close>, whatever its
  outcome, is a sequence of protocol steps of its node. The proofs follow the handlers with rules for
  the state-result monad: \<open>sat M i P m Q\<close> says that from a node and a protocol state that correspond and
  satisfy \<open>P\<close>, running \<open>m\<close> is matched by steps of node \<open>i\<close> after which they correspond again, and satisfy
  \<open>Q\<close> when \<open>m\<close> succeeded.
\<close>

section \<open>Correspondence\<close>

definition rl :: "rstate \<Rightarrow> node_id \<Rightarrow> rlog" where
  "rl G i = \<lparr>r_term = a_term G i, r_vote = a_vote G i, r_entries = a_log G i, r_commit = a_commit G i\<rparr>"

definition progress_match :: "(node_id \<times> progress) list \<Rightarrow> node_id \<Rightarrow> nat" where
  "progress_match ps j = (case map_of ps j of Some p \<Rightarrow> p_match_index p | None \<Rightarrow> 0)"

fun role_view :: "role \<Rightarrow> arole" where
  "role_view (Follower f) = AFollower"
| "role_view (Candidate c) = ACandidate (c_votes c)"
| "role_view (Leader l) = ALeader (progress_match (ld_progress l))"

fun role_ok :: "node_id set \<Rightarrow> node_id \<Rightarrow> role \<Rightarrow> bool" where
  "role_ok M i (Follower f) = True"
| "role_ok M i (Candidate c) = (c_votes c \<subseteq> M)"
| "role_ok M i (Leader l) = (map fst (ld_progress l) = sorted_list_of_set (M - {i}) \<and>
     (\<forall>j. progress_match (ld_progress l) j < u64_limit))"

definition synced :: "node_id set \<Rightarrow> node_id \<Rightarrow> ('l, 's) node \<Rightarrow> rstate \<Rightarrow> bool" where
  "synced M i n G = (a_role G i = role_view (n_role n) \<and> role_ok M i (n_role n))"

fun is_follower :: "role \<Rightarrow> bool" where
  "is_follower (Follower f) = True" | "is_follower _ = False"

fun is_candidate :: "node_id set \<Rightarrow> role \<Rightarrow> bool" where
  "is_candidate V (Candidate c) = (c_votes c = V)" | "is_candidate V _ = False"

fun is_some_candidate :: "role \<Rightarrow> bool" where
  "is_some_candidate (Candidate c) = True" | "is_some_candidate _ = False"

fun is_leader :: "role \<Rightarrow> bool" where
  "is_leader (Leader l) = True" | "is_leader _ = False"

text \<open>The leader's progress of a peer.\<close>

definition at_progress :: "node_id \<Rightarrow> progress \<Rightarrow> role \<Rightarrow> bool" where
  "at_progress j p r = (\<exists>l. r = Leader l \<and> map_of (ld_progress l) j = Some p)"

text \<open>Messages that promise nothing.\<close>

fun idle_message :: "message \<Rightarrow> bool" where
  "idle_message (CampaignResponse v) = (\<not> v)"
| "idle_message (HeartbeatResponse m s) = (m = 0)"
| "idle_message (AppendResponse m r) = (m = 0)"
| "idle_message (Read s) = True"
| "idle_message (ReadResponse s) = True"
| "idle_message (ClientRequest k r) = True"
| "idle_message (ClientResponse k r) = True"
| "idle_message _ = False"

lemma idle_may_send: "idle_message m \<Longrightarrow> may_send G i m to"
  by (cases m) auto

text \<open>The node runs in a role and a term, with messages \<open>E\<close> on the network.\<close>

definition runs :: "node_id set \<Rightarrow> node_id \<Rightarrow> envelope set \<Rightarrow> nat \<Rightarrow> (role \<Rightarrow> bool) \<Rightarrow> ('l, 's) node \<Rightarrow> rstate \<Rightarrow> bool" where
  "runs M i E t R n G = (synced M i n G \<and> R (n_role n) \<and> E \<subseteq> a_net G \<and> a_term G i = t)"

lemma runs_synced: "runs M i E t R n G \<Longrightarrow> synced M i n G"
  by (simp add: runs_def)

lemma runs_fields [simp]:
  "runs M i E t R (n\<lparr>n_log := l\<rparr>) G = runs M i E t R n G"
  "runs M i E t R (n\<lparr>n_state := s\<rparr>) G = runs M i E t R n G"
  "runs M i E t R (n\<lparr>n_rng := r\<rparr>) G = runs M i E t R n G"
  by (simp_all add: runs_def synced_def)

lemma runs_send [simp]:
  "runs M i E t R n G \<Longrightarrow> runs M i E t R (n\<lparr>n_tx := x\<rparr>) (G\<lparr>a_net := insert e (a_net G)\<rparr>)"
  by (auto simp: runs_def synced_def)

lemma runs_follower:
  assumes "runs M i E t is_follower n G"
  shows "runs M i E t is_follower (n\<lparr>n_role := Follower f\<rparr>) G" "a_role G i = AFollower"
  using assms by (cases "n_role n"; simp add: runs_def synced_def)+

text \<open>The progress of the peers.\<close>

lemma map_fst_btree_insert:
  assumes "ordered m" "k \<in> set (map fst m)"
  shows "map fst (btree_insert k v m) = map fst m"
  using assms by (intro strict_sorted_equal) auto

lemma progress_match_insert:
  "progress_match (btree_insert j p ps) = (progress_match ps)(j := p_match_index p)"
  by (auto simp: progress_match_def fun_eq_iff)

lemma runs_mono: "runs M i E t R n G \<Longrightarrow> R' (n_role n) \<Longrightarrow> runs M i E t R' n G"
  by (simp add: runs_def)

lemma runs_leader:
  assumes "runs M i E t (\<lambda>r. r = Leader l) n G" "ld_progress l' = ld_progress l"
  shows "runs M i E t (\<lambda>r. r = Leader l') (n\<lparr>n_role := Leader l'\<rparr>) G"
  using assms by (auto simp: runs_def synced_def)

text \<open>At least \<open>k + 1\<close> elements reach the element at position \<open>k\<close> in descending order.\<close>

lemma rank_count:
  assumes "k < length xs"
  shows "k + 1 \<le> length (filter (\<lambda>x. rev (sort xs) ! k \<le> x) xs)"
proof -
  let ?d = "rev (sort xs)"
  have k: "k < length ?d" using assms by simp
  have sorted: "sorted (rev ?d)" by simp
  have "\<forall>x\<in>set (take (k + 1) ?d). ?d ! k \<le> x"
  proof
    fix x assume "x \<in> set (take (k + 1) ?d)"
    then obtain a where "a \<le> k" "x = ?d ! a" using k by (auto simp: in_set_conv_nth less_Suc_eq_le)
    then show "?d ! k \<le> x" using k sorted_rev_nth_mono[OF sorted, of a k] by simp
  qed
  then have "filter (\<lambda>x. ?d ! k \<le> x) (take (k + 1) ?d) = take (k + 1) ?d" by simp
  then have "k + 1 \<le> length (filter (\<lambda>x. ?d ! k \<le> x) (take (k + 1) ?d @ drop (k + 1) ?d))"
    using k by (simp del: append_take_drop_id)
  also have "\<dots> = length (filter (\<lambda>x. ?d ! k \<le> x) xs)"
    by (simp only: append_take_drop_id rev_filter[symmetric] filter_sort length_rev length_sort)
  finally show ?thesis .
qed

lemma quorum_of_values:
  assumes "map fst ps = sorted_list_of_set (M - {i})" "finite M" "i \<in> M"
    "c = rev (sort (map (p_match_index \<circ> snd) ps @ [li])) ! (card M div 2)"
  shows "quorum M {j \<in> M. j = i \<or> c \<le> progress_match ps j}"
proof -
  let ?vs = "map (p_match_index \<circ> snd) ps @ [li]" and ?Q = "{j \<in> M. j = i \<or> c \<le> progress_match ps j}"
  let ?P = "{j \<in> M - {i}. c \<le> progress_match ps j}"
  have d: "distinct (map fst ps)" "set (map fst ps) = M - {i}" using assms(1,2) by simp_all
  have "length ps = card (M - {i})" using d distinct_card by (metis length_map)
  then have "length ?vs = card M" using card_Suc_Diff1[OF assms(2,3)] by simp
  moreover have "0 < card M" using assms(2,3) card_gt_0_iff by blast
  ultimately have "card M div 2 + 1 \<le> length (filter (\<lambda>x. c \<le> x) ?vs)"
    using rank_count[of "card M div 2" ?vs] assms(4) by simp
  also have "\<dots> \<le> length (filter (\<lambda>p. c \<le> p_match_index (snd p)) ps) + 1"
    by (simp add: filter_map comp_def)
  also have "length (filter (\<lambda>p. c \<le> p_match_index (snd p)) ps) = card (fst ` set (filter (\<lambda>p. c \<le> p_match_index (snd p)) ps))"
    using d(1) by (metis distinct_card distinct_map_filter length_map list.set_map)
  also have "fst ` set (filter (\<lambda>p. c \<le> p_match_index (snd p)) ps) = ?P"
  proof -
    have key: "progress_match ps (fst p) = p_match_index (snd p)" if "p \<in> set ps" for p
    proof -
      have "map_of ps (fst p) = Some (snd p)" by (rule map_of_is_SomeI[OF d(1)]) (simp add: that)
      then show ?thesis by (simp only: progress_match_def option.case)
    qed
    show ?thesis
    proof (intro set_eqI iffI)
      fix j assume "j \<in> ?P"
      then have "j \<in> fst ` set ps" using d(2) by simp
      then obtain p where "p \<in> set ps" "j = fst p" by blast
      then show "j \<in> fst ` set (filter (\<lambda>p. c \<le> p_match_index (snd p)) ps)" using \<open>j \<in> ?P\<close> key[of p] by auto
    next
      fix j assume "j \<in> fst ` set (filter (\<lambda>p. c \<le> p_match_index (snd p)) ps)"
      then obtain p where "p \<in> set ps" "j = fst p" "c \<le> p_match_index (snd p)" by auto
      then show "j \<in> ?P" using d(2) key[of p] by auto
    qed
  qed
  also have "card ?P + 1 = card (insert i ?P)" using assms(2) by simp
  also have "insert i ?P = ?Q" using assms(3) by auto
  finally show ?thesis using assms(2) by (auto simp: quorum_def)
qed

abbreviation raft_steps :: "node_id set \<Rightarrow> node_id \<Rightarrow> rstate \<Rightarrow> rstate \<Rightarrow> bool" where
  "raft_steps M i \<equiv> (raft_step M i)\<^sup>*\<^sup>*"

lemma raft_step_others:
  assumes "raft_step M i G G'"
  shows "j \<noteq> i \<Longrightarrow> rl G' j = rl G j \<and> a_role G' j = a_role G j" "a_net G \<subseteq> a_net G'"
  using assms by (cases; auto simp: rl_def)+

lemma raft_steps_others:
  assumes "raft_steps M i G G'"
  shows "(j \<noteq> i \<longrightarrow> rl G' j = rl G j \<and> a_role G' j = a_role G j) \<and> a_net G \<subseteq> a_net G'"
  using assms
proof (induction rule: rtranclp_induct)
  case (step G1 G2)
  then show ?case using raft_step_others[OF step(2)] by (metis subset_trans)
qed simp

context log_contract
begin

definition corr :: "node_id set \<Rightarrow> node_id \<Rightarrow> ('l, 's) node \<Rightarrow> rstate \<Rightarrow> bool" where
  "corr M i n G = (invar (n_log n) \<and> abst (n_log n) = rl G i \<and> n_id n = i \<and> n_peers n = M - {i} \<and> i \<in> M \<and> finite M \<and>
     set (n_tx n) \<subseteq> a_net G)"

definition sat :: "node_id set \<Rightarrow> node_id \<Rightarrow> (('l, 's) node \<Rightarrow> rstate \<Rightarrow> bool) \<Rightarrow> (('l, 's) node, 'a) action \<Rightarrow>
    ('a \<Rightarrow> ('l, 's) node \<Rightarrow> rstate \<Rightarrow> bool) \<Rightarrow> bool" where
  "sat M i P m Q = (\<forall>n G. corr M i n G \<longrightarrow> P n G \<longrightarrow>
     (\<exists>G'. raft_steps M i G G' \<and> corr M i (snd (m n)) G' \<and> (\<forall>a. fst (m n) = Ok a \<longrightarrow> Q a (snd (m n)) G')))"

lemma satI:
  assumes "\<And>n G. corr M i n G \<Longrightarrow> P n G \<Longrightarrow>
    \<exists>G'. raft_steps M i G G' \<and> corr M i (snd (m n)) G' \<and> (\<forall>a. fst (m n) = Ok a \<longrightarrow> Q a (snd (m n)) G')"
  shows "sat M i P m Q"
  using assms unfolding sat_def by blast

lemma sat_stay:
  assumes "\<And>n G. corr M i n G \<Longrightarrow> P n G \<Longrightarrow> corr M i (snd (m n)) G \<and> (\<forall>a. fst (m n) = Ok a \<longrightarrow> Q a (snd (m n)) G)"
  shows "sat M i P m Q"
  using assms by (intro satI) blast

lemma sat_sret:
  assumes "\<And>n G. corr M i n G \<Longrightarrow> P n G \<Longrightarrow> Q a n G"
  shows "sat M i P (sret a) Q"
  by (rule sat_stay) (use assms in \<open>auto simp: sret_def\<close>)

lemma sat_slift:
  assumes "\<And>n G a. corr M i n G \<Longrightarrow> P n G \<Longrightarrow> r = Ok a \<Longrightarrow> Q a n G"
  shows "sat M i P (slift r) Q"
  by (rule sat_stay) (use assms in \<open>auto simp: slift_def\<close>)

lemma sat_sassert:
  assumes "\<And>n G. corr M i n G \<Longrightarrow> P n G \<Longrightarrow> b \<Longrightarrow> Q () n G"
  shows "sat M i P (sassert b msg) Q"
  by (rule sat_stay) (use assms in \<open>auto simp: sassert_def\<close>)

lemma sat_nread:
  assumes "\<And>n G. corr M i n G \<Longrightarrow> P n G \<Longrightarrow> Q (f n) n G"
  shows "sat M i P (nread f) Q"
  by (rule sat_stay) (use assms in \<open>auto simp: nread_def\<close>)

lemma sat_sbind:
  assumes "sat M i P m Q" "\<And>a. sat M i (Q a) (f a) R"
  shows "sat M i P (sbind m f) R"
proof (rule satI)
  fix n G assume "corr M i n G" "P n G"
  then obtain G1 where G1: "raft_steps M i G G1" "corr M i (snd (m n)) G1"
      "\<And>a. fst (m n) = Ok a \<Longrightarrow> Q a (snd (m n)) G1"
    using assms(1) unfolding sat_def by blast
  show "\<exists>G'. raft_steps M i G G' \<and> corr M i (snd (sbind m f n)) G' \<and>
      (\<forall>a. fst (sbind m f n) = Ok a \<longrightarrow> R a (snd (sbind m f n)) G')"
  proof (cases "fst (m n)")
    case (Ok a)
    then obtain G2 where "raft_steps M i G1 G2" "corr M i (snd (f a (snd (m n)))) G2"
        "\<forall>b. fst (f a (snd (m n))) = Ok b \<longrightarrow> R b (snd (f a (snd (m n)))) G2"
      using assms(2)[of a] G1(2,3) unfolding sat_def by blast
    then show ?thesis using G1(1) Ok
      by (intro exI[of _ G2]) (auto simp: sbind_def split: prod.splits)
  next
    case (Err x)
    then show ?thesis using G1 by (intro exI[of _ G1]) (auto simp: sbind_def split: prod.splits)
  next
    case (Panic x)
    then show ?thesis using G1 by (intro exI[of _ G1]) (auto simp: sbind_def split: prod.splits)
  qed
qed

lemma sat_pre:
  assumes "sat M i P' m Q" "\<And>n G. corr M i n G \<Longrightarrow> P n G \<Longrightarrow> P' n G"
  shows "sat M i P m Q"
  using assms unfolding sat_def by blast

lemma sat_post:
  assumes "sat M i P m Q'" "\<And>a n G. corr M i n G \<Longrightarrow> Q' a n G \<Longrightarrow> Q a n G"
  shows "sat M i P m Q"
  using assms unfolding sat_def by blast

text \<open>Protocol steps that the code takes silently.\<close>

lemma sat_ghost:
  assumes "\<And>n G. corr M i n G \<Longrightarrow> P n G \<Longrightarrow> \<exists>G'. raft_steps M i G G' \<and> rl G' i = rl G i \<and> P' n G'"
    "sat M i P' m Q"
  shows "sat M i P m Q"
proof (rule satI)
  fix n G assume c: "corr M i n G" "P n G"
  then obtain G1 where G1: "raft_steps M i G G1" "rl G1 i = rl G i" "P' n G1" using assms(1) by blast
  then have "corr M i n G1" using c(1) raft_steps_others[OF G1(1)] unfolding corr_def by (metis subset_trans)
  then obtain G2 where "raft_steps M i G1 G2" "corr M i (snd (m n)) G2"
      "\<forall>a. fst (m n) = Ok a \<longrightarrow> Q a (snd (m n)) G2"
    using assms(2) G1(3) unfolding sat_def by blast
  then show "\<exists>G'. raft_steps M i G G' \<and> corr M i (snd (m n)) G' \<and> (\<forall>a. fst (m n) = Ok a \<longrightarrow> Q a (snd (m n)) G')"
    using G1(1) by (meson rtranclp_trans)
qed

lemma sat_sfor:
  assumes "\<And>x. x \<in> set xs \<Longrightarrow> sat M i P (f x) (\<lambda>_. P)"
  shows "sat M i P (sfor f xs) (\<lambda>_. P)"
  using assms
proof (induction xs)
  case Nil
  show ?case by (simp add: sat_sret)
next
  case (Cons x xs)
  show ?case by (simp, rule sat_sbind, rule Cons.prems, simp, rule Cons.IH, simp add: Cons.prems)
qed

lemma sat_if:
  assumes "b \<Longrightarrow> sat M i P m Q" "\<not> b \<Longrightarrow> sat M i P m' Q"
  shows "sat M i P (if b then m else m') Q"
  using assms by simp

lemma sat_case_option:
  assumes "x = None \<Longrightarrow> sat M i P m Q" "\<And>a. x = Some a \<Longrightarrow> sat M i P (f a) Q"
  shows "sat M i P (case x of None \<Rightarrow> m | Some a \<Rightarrow> f a) Q"
  using assms by (cases x) auto

text \<open>A method of the log, by its law.\<close>

lemma sat_nlog:
  assumes "sim invar abst m m'"
    "\<And>n G. corr M i n G \<Longrightarrow> P n G \<Longrightarrow>
      \<exists>G'. raft_steps M i G G' \<and> rl G' i = snd (m' (rl G i)) \<and>
        (\<forall>a l. fst (m' (rl G i)) = Ok a \<longrightarrow> Q a (n\<lparr>n_log := l\<rparr>) G')"
  shows "sat M i P (on_nlog m) Q"
proof (rule satI)
  fix n G assume c: "corr M i n G" "P n G"
  then obtain G' where G': "raft_steps M i G G'" "rl G' i = snd (m' (rl G i))"
      "\<And>a l. fst (m' (rl G i)) = Ok a \<Longrightarrow> Q a (n\<lparr>n_log := l\<rparr>) G'"
    using assms(2) by blast
  have n: "invar (n_log n)" "abst (n_log n) = rl G i" using c(1) by (simp_all add: corr_def)
  note s = simD[OF assms(1) n(1), unfolded n(2)]
  have run: "on_nlog m n = (fst (m (n_log n)), n\<lparr>n_log := snd (m (n_log n))\<rparr>)"
    by (simp add: on_nlog_def case_prod_unfold)
  have "set (n_tx n) \<subseteq> a_net G'" using c(1) raft_steps_others[OF G'(1)] unfolding corr_def by blast
  then have "corr M i (snd (on_nlog m n)) G'"
    using c(1) s(2,3) G'(2) unfolding run by (simp add: corr_def)
  then show "\<exists>G'. raft_steps M i G G' \<and> corr M i (snd (on_nlog m n)) G' \<and>
      (\<forall>a. fst (on_nlog m n) = Ok a \<longrightarrow> Q a (snd (on_nlog m n)) G')"
    using G' s(1) unfolding run by (intro exI[of _ G']) simp
qed

lemma sat_nlog_read:
  assumes "\<And>n G. corr M i n G \<Longrightarrow> P n G \<Longrightarrow> m (n_log n) = (r G, n_log n) \<and> (\<forall>a. r G = Ok a \<longrightarrow> Q a n G)"
  shows "sat M i P (on_nlog m) Q"
proof (rule sat_stay)
  fix n G assume c: "corr M i n G" "P n G"
  have "n\<lparr>n_log := n_log n\<rparr> = n" by simp
  then show "corr M i (snd (on_nlog m n)) G \<and> (\<forall>a. fst (on_nlog m n) = Ok a \<longrightarrow> Q a (snd (on_nlog m n)) G)"
    using assms[OF c] c(1) by (simp add: on_nlog_def)
qed

lemma sat_set_role:
  assumes "\<And>n G. corr M i n G \<Longrightarrow> P n G \<Longrightarrow> Q () (n\<lparr>n_role := r\<rparr>) G"
  shows "sat M i P (set_role r) Q"
  by (rule sat_stay) (use assms in \<open>auto simp: set_role_def corr_def\<close>)

lemma sat_random:
  assumes "\<And>n G t f. corr M i n G \<Longrightarrow> P n G \<Longrightarrow> Q t (n\<lparr>n_rng := f\<rparr>) G"
  shows "sat M i P random_election_timeout Q"
  by (rule sat_stay) (use assms in \<open>auto simp: random_election_timeout_def corr_def\<close>)

lemma sat_nstate:
  assumes "\<And>n G a s. corr M i n G \<Longrightarrow> P n G \<Longrightarrow> Q a (n\<lparr>n_state := s\<rparr>) G"
  shows "sat M i P (on_nstate m) Q"
  by (rule sat_stay) (use assms in \<open>auto simp: on_nstate_def corr_def split: prod.splits\<close>)

lemma sat_scatch_nstate:
  assumes "\<And>n G a s. corr M i n G \<Longrightarrow> P n G \<Longrightarrow> Q a (n\<lparr>n_state := s\<rparr>) G"
  shows "sat M i P (scatch (on_nstate m)) Q"
  by (rule sat_stay) (use assms in \<open>auto simp: scatch_def on_nstate_def corr_def split: prod.splits result.splits\<close>)

lemma sat_scatch_slift:
  assumes "\<And>n G a. corr M i n G \<Longrightarrow> P n G \<Longrightarrow> Q a n G"
  shows "sat M i P (scatch (slift r)) Q"
  by (rule sat_stay) (use assms in \<open>auto simp: scatch_def slift_def split: result.splits\<close>)

lemma sat_all:
  assumes "\<And>x. sat M i (\<lambda>n G. P n G \<and> f n G = x) m Q"
  shows "sat M i P m Q"
  using assms unfolding sat_def by blast

lemma sat_assume:
  assumes "\<And>n G. corr M i n G \<Longrightarrow> P n G \<Longrightarrow> A" "A \<Longrightarrow> sat M i P m Q"
  shows "sat M i P m Q"
  using assms unfolding sat_def by blast

lemma sat_panic: "sat M i P (slift (Panic msg)) Q"
  by (rule sat_slift) simp

subsection \<open>What a node reads of its log\<close>

lemma corr_wf: "corr M i n G \<Longrightarrow> rlog_wf (rl G i)"
  using wf_law by (metis corr_def)

lemma corr_reads:
  assumes "corr M i n G"
  shows "l_get_term_vote L (n_log n) = (a_term G i, a_vote G i)" "node_term L n = a_term G i"
    "l_get_last_index L (n_log n) = (length (a_log G i), last_term_of (a_log G i))"
    "l_get_commit_index L (n_log n) = (a_commit G i, term_at (a_log G i) (a_commit G i))"
    "n_id n = i" "n_peers n = M - {i}" "finite M" "i \<in> M"
    "length (a_log G i) < u64_limit" "a_term G i < u64_limit" "entries_wf (a_log G i)"
    "a_commit G i \<le> length (a_log G i)"
proof -
  have n: "invar (n_log n)" "abst (n_log n) = rl G i" using assms by (simp_all add: corr_def)
  show "l_get_term_vote L (n_log n) = (a_term G i, a_vote G i)" "node_term L n = a_term G i"
    "l_get_last_index L (n_log n) = (length (a_log G i), last_term_of (a_log G i))"
    "l_get_commit_index L (n_log n) = (a_commit G i, term_at (a_log G i) (a_commit G i))"
    using n by (simp_all add: node_term_def term_vote_law last_index_law commit_index_law rl_def)
  show "length (a_log G i) < u64_limit" "a_term G i < u64_limit" "entries_wf (a_log G i)"
    "a_commit G i \<le> length (a_log G i)"
    using corr_wf[OF assms] by (simp_all add: rlog_wf_def rl_def)
qed (use assms in \<open>simp_all add: corr_def\<close>)

lemma sat_has:
  assumes "k < u64_limit" "\<And>n G. corr M i n G \<Longrightarrow> P n G \<Longrightarrow> Q (0 < k \<and> k \<le> length (a_log G i) \<and> term_at (a_log G i) k = t) n G"
  shows "sat M i P (on_nlog (l_has L k t)) Q"
proof (rule sat_nlog_read)
  fix n G assume c: "corr M i n G" "P n G"
  then have "invar (n_log n)" "abst (n_log n) = rl G i" by (simp_all add: corr_def)
  then show "l_has L k t (n_log n) = (Ok (r_has (rl G i) k t), n_log n) \<and>
      (\<forall>a. Ok (r_has (rl G i) k t) = Ok a \<longrightarrow> Q a n G)"
    using has_law[of "n_log n" k t] assms(1) assms(2)[OF c] by (auto simp: r_has_def rl_def)
qed

lemma sat_scan_apply:
  assumes "\<And>n G a. corr M i n G \<Longrightarrow> P n G \<Longrightarrow> Q a n G"
  shows "sat M i P (on_nlog (l_scan_apply L k)) Q"
  by (rule sat_nlog_read[where r = "\<lambda>G. fst (r_scan_apply k (rl G i))"])
    (use assms scan_apply_law in \<open>auto simp: corr_def\<close>)

subsection \<open>Sending\<close>

lemma sat_send_via:
  assumes "\<And>n G. corr M i n G \<Longrightarrow> P n G \<Longrightarrow> env_from e = i \<and> env_term e = a_term G i \<and>
      may_send G i (env_message e) (env_to e) \<and>
      Q () (n\<lparr>n_tx := n_tx n @ [e]\<rparr>) (G\<lparr>a_net := insert e (a_net G)\<rparr>)"
  shows "sat M i P (send_via e) Q"
proof (rule satI)
  fix n G assume c: "corr M i n G" "P n G"
  let ?G = "G\<lparr>a_net := insert e (a_net G)\<rparr>"
  note a = assms[OF c]
  have e: "\<lparr>env_from = i, env_term = a_term G i, env_to = env_to e, env_message = env_message e\<rparr> = e"
    using a by (cases e) simp
  have "may_send G i (env_message e) (env_to e)" using a by blast
  from raft_step.send[OF this, of M, unfolded e] have "raft_step M i G ?G" .
  moreover have "corr M i (snd (send_via e n)) ?G"
    using c(1) by (auto simp: corr_def send_via_def rl_def)
  ultimately show "\<exists>G'. raft_steps M i G G' \<and> corr M i (snd (send_via e n)) G' \<and>
      (\<forall>a. fst (send_via e n) = Ok a \<longrightarrow> Q a (snd (send_via e n)) G')"
    using a by (intro exI[of _ ?G]) (auto simp: send_via_def)
qed

lemma sat_send:
  assumes "\<And>n G e x. corr M i n G \<Longrightarrow> P n G \<Longrightarrow> may_send G i msg to \<and>
      Q () (n\<lparr>n_tx := x\<rparr>) (G\<lparr>a_net := insert e (a_net G)\<rparr>)"
  shows "sat M i P (send L to msg) Q"
  unfolding send_def
proof (rule sat_sbind)
  show "sat M i P (nread (\<lambda>n. (n_id n, node_term L n))) (\<lambda>p n G. P n G \<and> p = (i, a_term G i))"
    by (rule sat_nread) (simp add: corr_reads)
  show "sat M i (\<lambda>n G. P n G \<and> p = (i, a_term G i))
      (case p of (j, t) \<Rightarrow> send_via \<lparr>env_from = j, env_term = t, env_to = to, env_message = msg\<rparr>) Q" for p
    by (cases p, simp, rule sat_send_via) (use assms in auto)
qed

lemma sat_broadcast:
  assumes "\<And>n G e x. corr M i n G \<Longrightarrow> P n G \<Longrightarrow> (\<forall>to. to \<noteq> i \<longrightarrow> may_send G i msg to) \<and>
      P (n\<lparr>n_tx := x\<rparr>) (G\<lparr>a_net := insert e (a_net G)\<rparr>)"
  shows "sat M i P (broadcast L msg) (\<lambda>_. P)"
  unfolding broadcast_def
proof (rule sat_sbind)
  show "sat M i P (nread n_peers) (\<lambda>p n G. P n G \<and> p = M - {i} \<and> finite p)"
    by (rule sat_nread) (simp add: corr_reads)
  show "sat M i (\<lambda>n G. P n G \<and> p = M - {i} \<and> finite p) (sfor (\<lambda>j. send L j msg) (sorted_list_of_set p)) (\<lambda>_. P)" for p
  proof (rule sat_assume)
    assume p: "p = M - {i} \<and> finite p"
    show ?thesis
      by (rule sat_post, rule sat_sfor, rule sat_send, use p assms in auto)
  qed auto
qed

lemma runs_send_idle:
  assumes "idle_message m"
  shows "sat M i (runs M i E t R) (send L to m) (\<lambda>_. runs M i E t R)"
  by (rule sat_send) (simp add: idle_may_send[OF assms])

lemma runs_broadcast_idle:
  assumes "idle_message m"
  shows "sat M i (runs M i E t R) (broadcast L m) (\<lambda>_. runs M i E t R)"
  by (rule sat_broadcast) (simp add: idle_may_send[OF assms])

subsection \<open>Storing a term and vote\<close>

text \<open>A method of the log that either checks its arguments and updates the log, or changes nothing.\<close>

lemma sat_nlog_guard:
  assumes "sim invar abst m m'"
    "\<And>R. c R \<Longrightarrow> m' R = (Ok (v R), u R)" "\<And>R. \<not> c R \<Longrightarrow> snd (m' R) = R \<and> (\<forall>a. fst (m' R) \<noteq> Ok a)"
    "\<And>n G. corr M i n G \<Longrightarrow> P n G \<Longrightarrow> c (rl G i) \<Longrightarrow>
      \<exists>G'. raft_steps M i G G' \<and> rl G' i = u (rl G i) \<and> (\<forall>l. Q (v (rl G i)) (n\<lparr>n_log := l\<rparr>) G')"
  shows "sat M i P (on_nlog m) Q"
proof (rule sat_nlog[OF assms(1)])
  fix n G assume n: "corr M i n G" "P n G"
  show "\<exists>G'. raft_steps M i G G' \<and> rl G' i = snd (m' (rl G i)) \<and>
      (\<forall>a l. fst (m' (rl G i)) = Ok a \<longrightarrow> Q a (n\<lparr>n_log := l\<rparr>) G')"
  proof (cases "c (rl G i)")
    case True
    then show ?thesis using assms(2) assms(4)[OF n] by auto
  next
    case False
    then show ?thesis using assms(3) by (intro exI[of _ G]) auto
  qed
qed

lemma sat_set_term_vote:
  assumes "t < u64_limit"
    "\<And>n G. corr M i n G \<Longrightarrow> P n G \<Longrightarrow> 0 < t \<Longrightarrow> a_term G i \<le> t \<Longrightarrow>
      a_term G i < t \<or> a_vote G i = None \<or> v = a_vote G i \<Longrightarrow>
      \<exists>G'. raft_step M i G G' \<and> rl G' i = (rl G i)\<lparr>r_term := t, r_vote := v\<rparr> \<and> (\<forall>l. Q () (n\<lparr>n_log := l\<rparr>) G')"
  shows "sat M i P (on_nlog (l_set_term_vote L t v)) Q"
proof (rule sat_nlog_guard[OF set_term_vote_law[OF assms(1)], where u = "r_term_update (\<lambda>_. t) \<circ> r_vote_update (\<lambda>_. v)"
    and c = "\<lambda>R. 0 < t \<and> r_term R \<le> t \<and> (r_term R < t \<or> r_vote R = None \<or> v = r_vote R)" and v = "\<lambda>_. ()"])
  fix n G assume c: "corr M i n G" "P n G" and
    ok: "0 < t \<and> r_term (rl G i) \<le> t \<and> (r_term (rl G i) < t \<or> r_vote (rl G i) = None \<or> v = r_vote (rl G i))"
  then obtain G' where "raft_step M i G G'" "rl G' i = (rl G i)\<lparr>r_term := t, r_vote := v\<rparr>"
      "\<forall>l. Q () (n\<lparr>n_log := l\<rparr>) G'"
    using assms(2)[OF c] by (auto simp: rl_def)
  then show "\<exists>G'. raft_steps M i G G' \<and> rl G' i = (r_term_update (\<lambda>_. t) \<circ> r_vote_update (\<lambda>_. v)) (rl G i) \<and>
      (\<forall>l. Q () (n\<lparr>n_log := l\<rparr>) G')"
    by (intro exI[of _ G']) auto
qed (auto simp: r_set_term_vote_def sbind_def sassert_def)

lemma sat_commit:
  assumes "c < u64_limit"
    "\<And>n G. corr M i n G \<Longrightarrow> P n G \<Longrightarrow> 0 < c \<Longrightarrow> c \<le> length (a_log G i) \<Longrightarrow> a_commit G i \<le> c \<Longrightarrow>
      \<exists>G'. raft_step M i G G' \<and> rl G' i = (rl G i)\<lparr>r_commit := c\<rparr> \<and> (\<forall>l. Q c (n\<lparr>n_log := l\<rparr>) G')"
  shows "sat M i P (on_nlog (l_commit L c)) Q"
proof (rule sat_nlog_guard[OF commit_law[OF assms(1)], where u = "r_commit_update (\<lambda>_. c)"
    and c = "\<lambda>R. 0 < c \<and> c \<le> length (r_entries R) \<and> r_commit R \<le> c" and v = "\<lambda>_. c"])
  fix n G assume c: "corr M i n G" "P n G" and
    ok: "0 < c \<and> c \<le> length (r_entries (rl G i)) \<and> r_commit (rl G i) \<le> c"
  then obtain G' where "raft_step M i G G'" "rl G' i = (rl G i)\<lparr>r_commit := c\<rparr>"
      "\<forall>l. Q c (n\<lparr>n_log := l\<rparr>) G'"
    using assms(2)[OF c] by (auto simp: rl_def)
  then show "\<exists>G'. raft_steps M i G G' \<and> rl G' i = r_commit_update (\<lambda>_. c) (rl G i) \<and>
      (\<forall>l. Q c (n\<lparr>n_log := l\<rparr>) G')"
    by (intro exI[of _ G']) auto
qed (auto simp: r_commit_to_def sbind_def sassert_def)

lemma sat_append:
  assumes "\<And>n G. corr M i n G \<Longrightarrow> P n G \<Longrightarrow>
      \<exists>G'. raft_step M i G G' \<and> rl G' i = (rl G i)\<lparr>r_entries := a_log G i @
        [\<lparr>e_index = length (a_log G i) + 1, e_term = a_term G i, e_command = c\<rparr>]\<rparr> \<and>
        (\<forall>l. Q (length (a_log G i) + 1) (n\<lparr>n_log := l\<rparr>) G')"
  shows "sat M i P (on_nlog (l_append L c)) Q"
proof (rule sat_nlog_guard[OF append_law, where c = "\<lambda>R. 0 < r_term R \<and> length (r_entries R) + 1 < u64_limit"
    and v = "\<lambda>R. length (r_entries R) + 1"
    and u = "\<lambda>R. R\<lparr>r_entries := r_entries R @ [\<lparr>e_index = length (r_entries R) + 1, e_term = r_term R, e_command = c\<rparr>]\<rparr>"])
  fix n G assume "corr M i n G" "P n G"
  from assms[OF this] obtain G' where G': "raft_step M i G G'" "rl G' i = (rl G i)\<lparr>r_entries := a_log G i @
        [\<lparr>e_index = length (a_log G i) + 1, e_term = a_term G i, e_command = c\<rparr>]\<rparr>"
        "\<forall>l. Q (length (a_log G i) + 1) (n\<lparr>n_log := l\<rparr>) G'"
    by blast
  then show "\<exists>G'. raft_steps M i G G' \<and> rl G' i = (rl G i)\<lparr>r_entries := r_entries (rl G i) @
        [\<lparr>e_index = length (r_entries (rl G i)) + 1, e_term = r_term (rl G i), e_command = c\<rparr>]\<rparr> \<and>
      (\<forall>l. Q (length (r_entries (rl G i)) + 1) (n\<lparr>n_log := l\<rparr>) G')"
    by (intro exI[of _ G']) (auto simp: rl_def)
qed (auto simp: r_append_def sbind_def sassert_def slift_def u64_succ_def)

text \<open>Moving to a later term makes the node a follower without a vote.\<close>

lemma sat_new_term:
  assumes "t < u64_limit" "t0 \<noteq> t"
  shows "sat M i (runs M i E t0 R) (on_nlog (l_set_term_vote L t None))
    (\<lambda>_ n G. E \<subseteq> a_net G \<and> a_term G i = t \<and> a_role G i = AFollower)"
proof (rule sat_set_term_vote[OF assms(1)])
  fix n G assume c: "corr M i n G" "runs M i E t0 R n G" "0 < t" "a_term G i \<le> t"
  then have "a_term G i < t" using assms(2) by (simp add: runs_def)
  note s = raft_step.new_term[OF this, of M]
  show "\<exists>G'. raft_step M i G G' \<and> rl G' i = (rl G i)\<lparr>r_term := t, r_vote := None\<rparr> \<and>
      (\<forall>l. E \<subseteq> a_net G' \<and> a_term G' i = t \<and> a_role G' i = AFollower)"
    by (rule exI, rule conjI, rule s) (use c(2) in \<open>simp add: rl_def runs_def\<close>)
qed

lemma sat_become_follower:
  "sat M i (\<lambda>n G. E \<subseteq> a_net G \<and> a_term G i = t \<and> a_role G i = AFollower) (set_role (Follower f))
     (\<lambda>_. runs M i E t is_follower)"
  by (rule sat_set_role) (simp add: runs_def synced_def)

section \<open>Followers\<close>

lemma sat_get_follower:
  "sat M i (runs M i E t is_follower) get_follower (\<lambda>_. runs M i E t is_follower)"
  by (rule sat_stay) (auto simp: get_follower_def)

lemma sat_set_follower:
  "sat M i (runs M i E t is_follower) (set_role (Follower f)) (\<lambda>_. runs M i E t is_follower)"
  by (rule sat_set_role) (simp add: runs_follower)

lemma sat_run_read: "sat M i P (nread f) (\<lambda>_. P)"
  by (rule sat_nread)

lemma sat_run_assert: "sat M i P (sassert b msg) (\<lambda>_. P)"
  by (rule sat_sassert)

lemma sat_run_random: "sat M i (runs M i E t R) random_election_timeout (\<lambda>_. runs M i E t R)"
  by (rule sat_random) simp

lemma sat_run_ret: "sat M i P (sret x) (\<lambda>_. P)"
  by (rule sat_sret)

lemma sat_run_lift: "sat M i P (slift x) (\<lambda>_. P)"
  by (rule sat_slift)

lemmas run_intros = sat_sbind sat_if sat_case_option sat_get_follower sat_set_follower sat_run_read
  sat_run_assert sat_run_random sat_run_ret sat_run_lift sat_sfor

lemma sat_abort_forwarded:
  "sat M i (runs M i E t is_follower) (abort_forwarded L) (\<lambda>_. runs M i E t is_follower)"
  unfolding abort_forwarded_def by (rule run_intros runs_send_idle idle_message.simps TrueI | simp only: idle_message.simps)+

lemma sat_apply_loop: "sat M i (runs M i E t R) (apply_loop S items) (\<lambda>_. runs M i E t R)"
proof (induction items)
  case (Cons item items)
  show ?case
    by (simp, rule sat_sbind, rule sat_run_lift, rule sat_sbind, rule sat_scatch_nstate[where Q = "\<lambda>_. runs M i E t R"])
      (simp, rule Cons.IH)
qed (simp add: sat_run_ret)

lemma sat_maybe_apply: "sat M i (runs M i E t R) (maybe_apply L S) (\<lambda>_. runs M i E t R)"
  unfolding maybe_apply_def
  by (rule sat_sbind, rule sat_run_read, rule sat_sbind, rule sat_scan_apply[where Q = "\<lambda>_. runs M i E t R"])
    (simp, rule sat_apply_loop)

text \<open>Following a leader of the current term, and entering a later term.\<close>

lemma sat_follow:
  "sat M i (runs M i E t is_follower) (follower_into_follower L trm (Some j)) (\<lambda>_. runs M i E t is_follower)"
  unfolding follower_into_follower_def
  by (simp only: option.case, (rule run_intros sat_abort_forwarded)+)

lemma sat_term:
  assumes "\<And>n G. P n G \<Longrightarrow> a_term G i = t" "sat M i P (f t) Q"
  shows "sat M i P (sbind (nread (node_term L)) f) Q"
proof (rule sat_sbind)
  show "sat M i P (nread (node_term L)) (\<lambda>x n G. P n G \<and> x = t)"
    by (rule sat_nread) (simp add: corr_reads assms(1))
  show "sat M i (\<lambda>n G. P n G \<and> x = t) (f x) Q" for x
    using assms(2) by (auto simp: sat_def)
qed

lemma sat_read_term:
  assumes "sat M i (runs M i E t R) (f t) Q"
  shows "sat M i (runs M i E t R) (sbind (nread (node_term L)) f) Q"
  using assms by (intro sat_term[where t = t]) (auto simp: runs_def)

lemma sat_follower_new_term:
  assumes "trm < u64_limit"
  shows "sat M i (runs M i E t is_follower) (follower_into_follower L trm None) (\<lambda>_. runs M i E trm is_follower)"
  unfolding follower_into_follower_def option.case
proof (rule sat_sbind, rule sat_run_assert, rule sat_sbind, rule sat_abort_forwarded, rule sat_sbind,
    rule sat_get_follower, rule sat_read_term)
  show "sat M i (runs M i E t is_follower)
     (sbind (sassert (trm \<noteq> t) ''can't become leaderless follower in current term'')
       (\<lambda>_. sbind (on_nlog (l_set_term_vote L trm None))
         (\<lambda>_. sbind random_election_timeout (\<lambda>timeout. set_role (Follower (follower_new None timeout))))))
     (\<lambda>_. runs M i E trm is_follower)"
  proof (cases "trm = t")
    case False
    show ?thesis
      by (rule sat_sbind, rule sat_run_assert, rule sat_sbind, rule sat_new_term[OF assms], use False in blast,
          rule sat_sbind, rule sat_random, assumption, rule sat_become_follower)
  next
    case True
    then show ?thesis by (auto simp: sat_def sassert_def sbind_def)
  qed
qed

lemma sat_follow_sender:
  "sat M i (runs M i E t is_follower) (follow_sender L e) (\<lambda>_. runs M i E t is_follower)"
  unfolding follow_sender_def by (rule run_intros sat_follow)+

lemma sat_leader_heard:
  "sat M i (runs M i E t is_follower) (leader_heard e) (\<lambda>_. runs M i E t is_follower)"
  unfolding leader_heard_def by (rule run_intros)+

text \<open>The message at hand, in the node's term.\<close>

lemma runs_received:
  assumes "runs M i {e} (env_term e) R n G" "env_to e = i"
  shows "received G i (env_from e) (env_message e)"
  using assms by (cases e) (auto simp: received_def runs_def)

lemma sat_heartbeat_match:
  assumes "env_to e = i" "env_message e = Heartbeat li ci seq" "t = env_term e" "0 < li"
  shows "sat M i (\<lambda>n G. runs M i {e} t is_follower n G \<and> li \<le> length (a_log G i) \<and> term_at (a_log G i) li = t)
    (send L to (HeartbeatResponse li seq))
    (\<lambda>_ n G. runs M i {e} t is_follower n G \<and> li \<le> length (a_log G i) \<and> term_at (a_log G i) li = t)"
proof (rule sat_ghost)
  fix n G assume c: "corr M i n G"
    "runs M i {e} t is_follower n G \<and> li \<le> length (a_log G i) \<and> term_at (a_log G i) li = t"
  then have t: "a_term G i = t" by (simp add: runs_def)
  have "received G i (env_from e) (Heartbeat li ci seq)"
    using runs_received[of M i e is_follower n G] c assms by simp
  note s = raft_step.match[OF this, of M]
  show "\<exists>G'. raft_steps M i G G' \<and> rl G' i = rl G i \<and>
     (runs M i {e} t is_follower n G' \<and> li \<le> length (a_log G' i) \<and> term_at (a_log G' i) li = t \<and> (i, t, li) \<in> a_acks G')"
    by (rule exI, rule conjI, rule r_into_rtranclp, rule s) (use c t in \<open>auto simp: rl_def runs_def synced_def\<close>)
next
  show "sat M i (\<lambda>n G. runs M i {e} t is_follower n G \<and> li \<le> length (a_log G i) \<and> term_at (a_log G i) li = t \<and>
      (i, t, li) \<in> a_acks G) (send L to (HeartbeatResponse li seq))
    (\<lambda>_ n G. runs M i {e} t is_follower n G \<and> li \<le> length (a_log G i) \<and> term_at (a_log G i) li = t)"
    by (rule sat_send) (auto simp: runs_def synced_def)
qed

lemma sat_heartbeat_commit:
  assumes "env_to e = i" "env_message e = Heartbeat li ci seq" "t = env_term e" "ci \<le> li" "ci < u64_limit"
  shows "sat M i (\<lambda>n G. runs M i {e} t is_follower n G \<and> li \<le> length (a_log G i) \<and> term_at (a_log G i) li = t)
    (on_nlog (l_commit L ci)) (\<lambda>_. runs M i {e} t is_follower)"
proof (rule sat_commit[OF assms(5)])
  fix n G assume c: "corr M i n G"
    "runs M i {e} t is_follower n G \<and> li \<le> length (a_log G i) \<and> term_at (a_log G i) li = t" "a_commit G i \<le> ci"
  then have t: "a_term G i = t" by (simp add: runs_def)
  have "received G i (env_from e) (Heartbeat li ci seq)"
    using runs_received[of M i e is_follower n G] c assms by simp
  note s = raft_step.follower_commit[OF this _ _ assms(4) c(3), of M]
  show "\<exists>G'. raft_step M i G G' \<and> rl G' i = (rl G i)\<lparr>r_commit := ci\<rparr> \<and> (\<forall>l. runs M i {e} t is_follower (n\<lparr>n_log := l\<rparr>) G')"
    by (rule exI, rule conjI, rule s) (use c t in \<open>auto simp: rl_def runs_def synced_def\<close>)
qed

lemma sat_follower_heartbeat:
  assumes e: "env_to e = i" "env_message e = Heartbeat li ci seq" and u: "env_u64 e"
  shows "sat M i (runs M i {e} (env_term e) is_follower) (follower_heartbeat L S e li ci seq)
    (\<lambda>_. runs M i {e} (env_term e) is_follower)"
proof (cases "ci \<le> li")
  case True
  have lim: "li < u64_limit" "ci < u64_limit" using u e(2) by (simp_all add: env_u64_def)
  let ?P = "runs M i {e} (env_term e) is_follower"
  let ?match = "\<lambda>G. li \<le> length (a_log G i) \<and> term_at (a_log G i) li = env_term e"
  have has: "sat M i ?P (on_nlog (l_has L li (env_term e))) (\<lambda>found n G. ?P n G \<and> (found \<longrightarrow> 0 < li \<and> ?match G))"
    by (rule sat_has[OF lim(1)]) simp
  have rest: "sat M i (\<lambda>n G. ?P n G \<and> (found \<longrightarrow> 0 < li \<and> ?match G))
     (let match_index = if found then li else 0
       in sbind (send L (env_from e) (HeartbeatResponse match_index seq))
           (\<lambda>_. sbind (nread (\<lambda>n. fst (l_get_commit_index L (n_log n))))
                 (\<lambda>self_commit. if match_index \<noteq> 0 \<and> self_commit < ci
                    then sbind (on_nlog (l_commit L ci)) (\<lambda>_. maybe_apply L S) else sret ())))
     (\<lambda>_. ?P)" for found
  proof (cases "found \<and> 0 < li")
    case True
    show ?thesis
      by (rule sat_pre[where P' = "\<lambda>n G. ?P n G \<and> ?match G"])
        (use True in \<open>auto simp: Let_def intro!: sat_sbind[OF sat_heartbeat_match[OF e refl]] sat_sbind[OF sat_run_read]
           sat_if sat_sbind[OF sat_heartbeat_commit[OF e refl \<open>ci \<le> li\<close> lim(2)]] sat_maybe_apply sat_sret\<close>)
  next
    case False
    have "sat M i ?P (sbind (send L (env_from e) (HeartbeatResponse 0 seq))
       (\<lambda>_. sbind (nread (\<lambda>n. fst (l_get_commit_index L (n_log n)))) (\<lambda>_. sret ()))) (\<lambda>_. ?P)"
      by (rule sat_sbind, rule runs_send_idle, simp, (rule run_intros)+)
    then show ?thesis using False
      by (cases found) (auto simp: sat_def Let_def)
  qed
  show ?thesis
    unfolding follower_heartbeat_def
    by (rule sat_sbind, rule sat_run_assert, rule sat_sbind, rule sat_follow_sender, rule sat_sbind, rule has, rule rest)
next
  case False
  then show ?thesis by (auto simp: follower_heartbeat_def sat_def sbind_def sassert_def)
qed

lemma sat_splice:
  assumes "\<forall>x\<in>set es. e_index x < u64_limit"
    "\<And>n G. corr M i n G \<Longrightarrow> P n G \<Longrightarrow> windows_all (\<lambda>a b. e_index a + 1 = e_index b) es \<Longrightarrow>
      \<exists>G'. raft_step M i G G' \<and> rl G' i = (rl G i)\<lparr>r_entries := splice_list (a_log G i) es\<rparr> \<and>
        (\<forall>k l. Q k (n\<lparr>n_log := l\<rparr>) G')"
  shows "sat M i P (on_nlog (l_splice L es)) Q"
proof (rule sat_nlog_guard[OF splice_law[OF assms(1)], where c = "\<lambda>R. \<exists>k. fst (r_splice es R) = Ok k"
    and v = "\<lambda>R. length (splice_list (r_entries R) es)" and u = "\<lambda>R. R\<lparr>r_entries := splice_list (r_entries R) es\<rparr>"])
  fix n G assume c: "corr M i n G" "P n G" "\<exists>k. fst (r_splice es (rl G i)) = Ok k"
  then have "windows_all (\<lambda>a b. e_index a + 1 = e_index b) es"
    by (auto simp: r_splice_def r_splice_at_def sbind_def sassert_def Let_def split: if_splits)
  from assms(2)[OF c(1,2) this] obtain G' where "raft_step M i G G'"
      "rl G' i = (rl G i)\<lparr>r_entries := splice_list (a_log G i) es\<rparr>" "\<forall>k l. Q k (n\<lparr>n_log := l\<rparr>) G'"
    by blast
  then show "\<exists>G'. raft_steps M i G G' \<and> rl G' i = (rl G i)\<lparr>r_entries := splice_list (r_entries (rl G i)) es\<rparr> \<and>
      (\<forall>l. Q (length (splice_list (r_entries (rl G i)) es)) (n\<lparr>n_log := l\<rparr>) G')"
    by (intro exI[of _ G']) (auto simp: rl_def)
next
  fix R assume "\<exists>k. fst (r_splice es R) = Ok k"
  then show "r_splice es R = (Ok (length (splice_list (r_entries R) es)), R\<lparr>r_entries := splice_list (r_entries R) es\<rparr>)"
    by (auto simp: r_splice_def r_splice_at_def sbind_def sassert_def sret_def Let_def splice_list_def split: if_splits)
next
  fix R assume "\<not> (\<exists>k. fst (r_splice es R) = Ok k)"
  then show "snd (r_splice es R) = R \<and> (\<forall>a. fst (r_splice es R) \<noteq> Ok a)"
    by (auto simp: r_splice_def r_splice_at_def sbind_def sassert_def sret_def Let_def split: if_splits)
qed
lemma sat_append_accept:
  assumes "env_to e = i" "env_message e = Append b bt es" "t = env_term e" "\<forall>x\<in>set es. e_index x < u64_limit"
  shows "sat M i (\<lambda>n G. runs M i {e} t is_follower n G \<and>
      (b = 0 \<or> b \<le> length (a_log G i) \<and> term_at (a_log G i) b = bt) \<and> (es = [] \<or> e_index (hd es) = b + 1))
    (on_nlog (l_splice L es))
    (\<lambda>_ n G. runs M i {e} t is_follower n G \<and> (i, t, if es = [] then b else e_index (last es)) \<in> a_acks G)"
proof (rule sat_splice[OF assms(4)])
  fix n G assume c: "corr M i n G" "runs M i {e} t is_follower n G \<and>
      (b = 0 \<or> b \<le> length (a_log G i) \<and> term_at (a_log G i) b = bt) \<and> (es = [] \<or> e_index (hd es) = b + 1)"
    and w: "windows_all (\<lambda>a b. e_index a + 1 = e_index b) es"
  then have t: "a_term G i = t" "a_role G i = AFollower" by (simp add: runs_def, blast dest: runs_follower(2))
  have m: "b + length es = (if es = [] then b else e_index (last es))"
    using windows_contiguous[OF w, of "length es - 1"] c(2) by (auto simp: last_conv_nth)
  have "received G i (env_from e) (Append b bt es)"
    using runs_received[of M i e is_follower n G] c assms by simp
  note s = raft_step.accept[OF this t(2), of M]
  show "\<exists>G'. raft_step M i G G' \<and> rl G' i = (rl G i)\<lparr>r_entries := splice_list (a_log G i) es\<rparr> \<and>
      (\<forall>k l. runs M i {e} t is_follower (n\<lparr>n_log := l\<rparr>) G' \<and> (i, t, if es = [] then b else e_index (last es)) \<in> a_acks G')"
    by (rule exI, rule conjI, rule s, use c in blast) (use c t m in \<open>auto simp: rl_def runs_def synced_def\<close>)
qed

lemma sat_follower_append:
  assumes e: "env_to e = i" "env_message e = Append b bt es" and u: "env_u64 e"
  shows "sat M i (runs M i {e} (env_term e) is_follower) (follower_append L e b bt es)
    (\<lambda>_. runs M i {e} (env_term e) is_follower)"
proof -
  let ?P = "runs M i {e} (env_term e) is_follower"
  let ?A = "es = [] \<or> e_index (hd es) = b + 1"
  have lim: "b < u64_limit" "\<forall>x\<in>set es. e_index x < u64_limit" using u e(2) by (auto simp: env_u64_def)
  have base: "sat M i ?P (case es of [] \<Rightarrow> sret () | first # _ \<Rightarrow>
           if e_index first = 0 then slift (Panic ''attempt to subtract with overflow'')
           else sassert (b = e_index first - 1) ''base index mismatch'') (\<lambda>_ n G. ?P n G \<and> ?A)"
    by (cases es) (auto simp: sat_panic intro: sat_sret sat_sassert)
  have found: "sat M i ?P (if b = 0 then sret True else on_nlog (l_has L b bt))
     (\<lambda>found n G. ?P n G \<and> (found \<longrightarrow> b = 0 \<or> b \<le> length (a_log G i) \<and> term_at (a_log G i) b = bt))"
    by (rule sat_if, rule sat_sret, simp, rule sat_has[OF lim(1)], simp)
  have accept: "sat M i (\<lambda>n G. ?P n G \<and> (b = 0 \<or> b \<le> length (a_log G i) \<and> term_at (a_log G i) b = bt))
    (let match_index = (if es = [] then b else e_index (last es)) in
       sbind (on_nlog (l_splice L es)) (\<lambda>_. send L (env_from e) (AppendResponse match_index 0))) (\<lambda>_. ?P)" if ?A
    unfolding Let_def
    by (rule sat_sbind, rule sat_pre[OF sat_append_accept[OF e refl lim(2)]], use that in blast,
        rule sat_send) (auto simp: runs_def synced_def)
  have reject: "sat M i ?P (sbind (nread (\<lambda>n. fst (l_get_last_index L (n_log n)))) (\<lambda>li.
       send L (env_from e) (AppendResponse 0 (min b (li + 1))))) (\<lambda>_. ?P)"
    by (rule sat_sbind, rule sat_run_read, rule runs_send_idle, simp)
  have rest: "sat M i (\<lambda>n G. ?P n G \<and> ?A) (sbind (follow_sender L e) (\<lambda>_.
     sbind (if b = 0 then sret True else on_nlog (l_has L b bt)) (\<lambda>found.
     if found then
       let match_index = (if es = [] then b else e_index (last es)) in
       sbind (on_nlog (l_splice L es)) (\<lambda>_. send L (env_from e) (AppendResponse match_index 0))
     else sbind (nread (\<lambda>n. fst (l_get_last_index L (n_log n)))) (\<lambda>li.
       send L (env_from e) (AppendResponse 0 (min b (li + 1))))))) (\<lambda>_. ?P)"
  proof (rule sat_assume)
    assume a: ?A
    show ?thesis
      by (rule sat_sbind, rule sat_pre[OF sat_follow_sender], blast, rule sat_sbind, rule found, rule sat_if,
          rule sat_pre[OF accept[OF a]], blast, rule sat_pre[OF reject], blast)
  qed blast
  show ?thesis unfolding follower_append_def by (rule sat_sbind, rule base, rule rest)
qed

lemma sat_grant_vote:
  assumes "env_to e = i" "env_message e = Campaign li lt" "t = env_term e" "t < u64_limit"
  shows "sat M i (\<lambda>n G. runs M i {e} t is_follower n G \<and> (a_vote G i = None \<or> a_vote G i = Some (env_from e)) \<and>
      up_to_date (li, lt) (a_log G i))
    (on_nlog (l_set_term_vote L t (Some (env_from e))))
    (\<lambda>_ n G. runs M i {e} t is_follower n G \<and> a_vote G i = Some (env_from e))"
proof (rule sat_set_term_vote[OF assms(4)])
  fix n G assume c: "corr M i n G" "runs M i {e} t is_follower n G \<and>
      (a_vote G i = None \<or> a_vote G i = Some (env_from e)) \<and> up_to_date (li, lt) (a_log G i)"
  then have t: "a_term G i = t" by (simp add: runs_def)
  have "received G i (env_from e) (Campaign li lt)"
    using runs_received[of M i e is_follower n G] c assms by simp
  note s = raft_step.vote[OF this, of M]
  show "\<exists>G'. raft_step M i G G' \<and> rl G' i = (rl G i)\<lparr>r_term := t, r_vote := Some (env_from e)\<rparr> \<and>
      (\<forall>l. runs M i {e} t is_follower (n\<lparr>n_log := l\<rparr>) G' \<and> a_vote G' i = Some (env_from e))"
    by (rule exI, rule conjI, rule s) (use c t in \<open>auto simp: rl_def runs_def synced_def\<close>)
qed

lemma sat_follower_campaign:
  assumes e: "env_to e = i" "env_message e = Campaign li lt" and u: "env_u64 e"
  shows "sat M i (runs M i {e} (env_term e) is_follower) (follower_campaign L e li lt)
    (\<lambda>_. runs M i {e} (env_term e) is_follower)"
proof -
  let ?P = "runs M i {e} (env_term e) is_follower"
  have t: "env_term e < u64_limit" using u by (simp add: env_u64_def)
  have deny: "sat M i ?P (send L (env_from e) (CampaignResponse False)) (\<lambda>_. ?P)"
    by (rule runs_send_idle) simp
  have vote: "sat M i ?P (nread (\<lambda>n. snd (l_get_term_vote L (n_log n)))) (\<lambda>v n G. ?P n G \<and> a_vote G i = v)"
    by (rule sat_nread) (simp add: corr_reads)
  have log_end: "sat M i (\<lambda>n G. ?P n G \<and> a_vote G i = v) (nread (\<lambda>n. l_get_last_index L (n_log n)))
      (\<lambda>p n G. ?P n G \<and> a_vote G i = v \<and> p = (length (a_log G i), last_term_of (a_log G i)))" for v
    by (rule sat_nread) (simp add: corr_reads)
  have grant: "sat M i (\<lambda>n G. ?P n G \<and> (a_vote G i = None \<or> a_vote G i = Some (env_from e)) \<and>
      up_to_date (li, lt) (a_log G i))
      (sbind (on_nlog (l_set_term_vote L (env_term e) (Some (env_from e)))) (\<lambda>_.
         send L (env_from e) (CampaignResponse True))) (\<lambda>_. ?P)"
    by (rule sat_sbind, rule sat_grant_vote[OF e refl t], rule sat_send) (auto simp: runs_def synced_def)
  have rest: "sat M i (\<lambda>n G. ?P n G \<and> a_vote G i = v \<and> p = (length (a_log G i), last_term_of (a_log G i)))
     ((\<lambda>(log_index, log_term).
       if log_term > lt \<or> log_term = lt \<and> log_index > li then send L (env_from e) (CampaignResponse False)
       else sbind (on_nlog (l_set_term_vote L (env_term e) (Some (env_from e)))) (\<lambda>_.
         send L (env_from e) (CampaignResponse True))) p) (\<lambda>_. ?P)" if "\<not> (v \<noteq> None \<and> v \<noteq> Some (env_from e))" for v p
    unfolding case_prod_unfold
    by (rule sat_if, rule sat_pre[OF deny], blast, rule sat_pre[OF grant])
      (use that in \<open>auto simp: up_to_date_def\<close>)
  show ?thesis unfolding follower_campaign_def
    by (rule sat_sbind, rule vote, rule sat_if, rule sat_pre[OF deny], blast, rule sat_sbind, rule log_end, rule rest, blast)
qed

lemma sat_follower_client_request:
  "sat M i (runs M i E t is_follower) (follower_client_request L e k) (\<lambda>_. runs M i E t is_follower)"
  if "env_message e = ClientRequest k r"
  unfolding follower_client_request_def that
  by (rule run_intros runs_send_idle idle_message.simps[THEN iffD2] TrueI)+

lemma sat_follower_client_response:
  "sat M i (runs M i E t is_follower) (follower_client_response L e k r) (\<lambda>_. runs M i E t is_follower)"
  unfolding follower_client_response_def
  by (rule run_intros runs_send_idle idle_message.simps[THEN iffD2] TrueI)+

lemma sat_follower_message:
  assumes "env_to e = i" "env_u64 e"
  shows "sat M i (runs M i {e} (env_term e) is_follower) (follower_message L S e)
    (\<lambda>_. runs M i {e} (env_term e) is_follower)"
  unfolding follower_message_def
proof (rule sat_sbind, rule sat_leader_heard)
  show "sat M i (runs M i {e} (env_term e) is_follower) (case env_message e of
       Heartbeat li ci seq \<Rightarrow> follower_heartbeat L S e li ci seq
     | Append base_index base_term entries \<Rightarrow> follower_append L e base_index base_term entries
     | Read seq \<Rightarrow> sbind (follow_sender L e) (\<lambda>_. send L (env_from e) (ReadResponse seq))
     | Campaign li lt \<Rightarrow> follower_campaign L e li lt
     | ClientRequest i _ \<Rightarrow> follower_client_request L e i
     | ClientResponse i resp \<Rightarrow> follower_client_response L e i resp
     | CampaignResponse _ \<Rightarrow> sret ()
     | _ \<Rightarrow> slift (Panic ''follower received unexpected message''))
    (\<lambda>_. runs M i {e} (env_term e) is_follower)"
    by (cases "env_message e")
      (simp_all add: sat_follower_campaign[OF assms(1) _ assms(2)] sat_follower_heartbeat[OF assms(1) _ assms(2)]
        sat_follower_append[OF assms(1) _ assms(2)] sat_run_ret sat_panic sat_follower_client_request
        sat_follower_client_response sat_sbind[OF sat_follow_sender runs_send_idle])
qed

lemma sat_follower_step:
  assumes "env_to e = i" "env_u64 e"
  shows "sat M i (runs M i {e} t is_follower) (follower_step L S e) (\<lambda>_ n G. synced M i n G)"
proof -
  have u: "env_term e < u64_limit" using assms(2) by (simp add: env_u64_def)
  have same: "sat M i (runs M i {e} (env_term e) is_follower) (follower_message L S e) (\<lambda>_ n G. synced M i n G)"
    by (rule sat_post[OF sat_follower_message[OF assms]]) (rule runs_synced)
  have skip: "sat M i (runs M i {e} t is_follower) (sret ()) (\<lambda>_ n G. synced M i n G)"
    by (rule sat_sret) (rule runs_synced)
  have later: "sat M i (runs M i {e} t is_follower) (sbind (follower_into_follower L (env_term e) None)
      (\<lambda>_. follower_message L S e)) (\<lambda>_ n G. synced M i n G)"
    by (rule sat_sbind[OF sat_follower_new_term[OF u] same])
  show ?thesis unfolding follower_step_def
    by (rule sat_read_term) (use same skip later in \<open>auto simp: not_less order.antisym intro: sat_if\<close>)
qed

section \<open>Campaigning\<close>

lemma sat_campaign_term:
  assumes "t + 1 < u64_limit" "c_votes c = {i}"
  shows "sat M i (\<lambda>n G. E \<subseteq> a_net G \<and> a_term G i = t \<and> n_role n = Candidate c) (on_nlog (l_set_term_vote L (t + 1) (Some i)))
    (\<lambda>_. runs M i E (t + 1) (is_candidate {i}))"
proof (rule sat_set_term_vote[OF assms(1)])
  fix n G assume c: "corr M i n G" "E \<subseteq> a_net G \<and> a_term G i = t \<and> n_role n = Candidate c"
  note s = raft_step.campaign[of M i G]
  show "\<exists>G'. raft_step M i G G' \<and> rl G' i = (rl G i)\<lparr>r_term := t + 1, r_vote := Some i\<rparr> \<and>
      (\<forall>l. runs M i E (t + 1) (is_candidate {i}) (n\<lparr>n_log := l\<rparr>) G')"
    by (rule exI, rule conjI, rule s) (use c assms(2) corr_reads(8)[OF c(1)] in \<open>auto simp: rl_def runs_def synced_def\<close>)
qed

lemma sat_campaign:
  "sat M i (\<lambda>n G. E \<subseteq> a_net G \<and> a_term G i = t) (campaign L) (\<lambda>_. runs M i E (t + 1) (is_candidate {i}))"
  unfolding campaign_def
proof (rule sat_term[where t = t], blast, rule sat_sbind)
  let ?P = "\<lambda>n :: ('l, 's) node. \<lambda>G. E \<subseteq> a_net G \<and> a_term G i = t"
  show "sat M i ?P (slift (u64_succ t)) (\<lambda>trm n G. ?P n G \<and> trm = t + 1 \<and> trm < u64_limit)"
    by (rule sat_slift) (auto simp: u64_succ_def split: if_splits)
  have role: "sat M i ?P (set_role (Candidate c)) (\<lambda>_ n G. E \<subseteq> a_net G \<and> a_term G i = t \<and> n_role n = Candidate c)" for c
    by (rule sat_set_role) (auto simp: runs_def)
  have id: "sat M i ?P (nread n_id) (\<lambda>self n G. ?P n G \<and> self = i)"
    by (rule sat_nread) (simp add: corr_reads)
  have log_end: "sat M i (runs M i E (t + 1) (is_candidate {i})) (nread (\<lambda>n. l_get_last_index L (n_log n)))
      (\<lambda>p n G. runs M i E (t + 1) (is_candidate {i}) n G \<and> p = (length (a_log G i), last_term_of (a_log G i)))"
    by (rule sat_nread) (simp add: corr_reads)
  have may: "may_send G i (Campaign (length (a_log G i)) (last_term_of (a_log G i))) to"
    if "runs M i E (t + 1) (is_candidate {i}) n G" for n :: "('l, 's) node" and G to
    using that by (cases "n_role n") (auto simp: runs_def synced_def)
  have cast: "sat M i (\<lambda>n G. runs M i E (t + 1) (is_candidate {i}) n G \<and> p = (length (a_log G i), last_term_of (a_log G i)))
     (broadcast L (Campaign (fst p) (snd p))) (\<lambda>_. runs M i E (t + 1) (is_candidate {i}))" for p
    by (rule sat_post, rule sat_broadcast) (auto simp: may simp del: may_send.simps)
  have rest: "sat M i ?P (sbind random_election_timeout (\<lambda>timeout. sbind (nread n_id) (\<lambda>self.
     sbind (set_role (Candidate ((candidate_new timeout)\<lparr>c_votes := {self}\<rparr>))) (\<lambda>_.
     sbind (on_nlog (l_set_term_vote L (t + 1) (Some self))) (\<lambda>_.
     sbind (nread (\<lambda>n. l_get_last_index L (n_log n))) (\<lambda>(li, lt). broadcast L (Campaign li lt)))))))
     (\<lambda>_. runs M i E (t + 1) (is_candidate {i}))" if lim: "t + 1 < u64_limit"
  proof (rule sat_sbind, rule sat_random, assumption, rule sat_sbind, rule id)
    fix timeout self
    show "sat M i (\<lambda>n G. ?P n G \<and> self = i)
     (sbind (set_role (Candidate ((candidate_new timeout)\<lparr>c_votes := {self}\<rparr>))) (\<lambda>_.
      sbind (on_nlog (l_set_term_vote L (t + 1) (Some self))) (\<lambda>_.
      sbind (nread (\<lambda>n. l_get_last_index L (n_log n))) (\<lambda>(li, lt). broadcast L (Campaign li lt)))))
     (\<lambda>_. runs M i E (t + 1) (is_candidate {i}))"
    proof (rule sat_assume)
      assume self: "self = i"
      show ?thesis unfolding self case_prod_unfold
        by (rule sat_sbind, rule sat_pre[OF role], blast, rule sat_sbind, rule sat_campaign_term[OF lim], simp,
            rule sat_sbind, rule log_end, rule cast)
    qed blast
  qed
  show "sat M i (\<lambda>n G. ?P n G \<and> trm = t + 1 \<and> trm < u64_limit) (sbind random_election_timeout (\<lambda>timeout.
     sbind (nread n_id) (\<lambda>self. sbind (set_role (Candidate ((candidate_new timeout)\<lparr>c_votes := {self}\<rparr>))) (\<lambda>_.
     sbind (on_nlog (l_set_term_vote L trm (Some self))) (\<lambda>_.
     sbind (nread (\<lambda>n. l_get_last_index L (n_log n))) (\<lambda>(li, lt). broadcast L (Campaign li lt)))))))
     (\<lambda>_. runs M i E (t + 1) (is_candidate {i}))" for trm
  proof (rule sat_assume)
    assume "trm = t + 1 \<and> trm < u64_limit"
    then have trm: "trm = t + 1" "t + 1 < u64_limit" by simp_all
    show ?thesis unfolding trm(1) by (rule sat_pre[OF rest[OF trm(2)]]) blast
  qed blast
qed

lemma sat_follower_into_candidate:
  "sat M i (runs M i E t is_follower) (follower_into_candidate L S) (\<lambda>_. runs M i E (t + 1) (is_candidate {i}))"
proof -
  have role: "sat M i (runs M i E t is_follower) (set_role (Candidate c)) (\<lambda>_ n G. E \<subseteq> a_net G \<and> a_term G i = t)" for c
    by (rule sat_set_role) (auto simp: runs_def)
  have get: "sat M i (runs M i E t' R) get_candidate (\<lambda>_. runs M i E t' R)" for t' R
    by (rule sat_stay) (auto simp: get_candidate_def)
  show ?thesis unfolding follower_into_candidate_def case_prod_unfold
    by (rule sat_sbind, rule sat_abort_forwarded, rule sat_sbind, rule sat_maybe_apply, rule sat_sbind,
        rule sat_run_random, rule sat_sbind, rule role, rule sat_sbind, rule sat_campaign, (rule run_intros get)+)
qed

lemma sat_follower_tick:
  "sat M i (runs M i E t is_follower) (follower_tick L S) (\<lambda>_ n G. synced M i n G)"
proof -
  have stay: "sat M i (runs M i E t is_follower) (sret ()) (\<lambda>_ n G. synced M i n G)"
    by (rule sat_sret) (rule runs_synced)
  show ?thesis unfolding follower_tick_def
    by (rule sat_sbind, rule sat_get_follower, rule sat_sbind, rule sat_run_lift, rule sat_sbind, rule sat_set_follower,
        rule sat_if, rule sat_post[OF sat_follower_into_candidate], rule runs_synced, assumption, rule stay)
qed

end

end
