(* ===== verification/Raft_Leader_Simulation.thy ===== *)
theory Raft_Leader_Simulation
  imports Raft_Simulation
begin

text \<open>
  The leader's part of \<^verbatim>\<open>src/raft/node.rs\<close> follows the Raft protocol: sending entries, proposing,
  heartbeats, counting acknowledgements, committing what a quorum has stored, and serving clients.
\<close>

context log_contract
begin

section \<open>Leaders\<close>

lemma sat_get_leader:
  "sat M i (runs M i E t is_leader) get_leader (\<lambda>l. runs M i E t (\<lambda>r. r = Leader l))"
  by (rule sat_stay) (auto simp: get_leader_def runs_def split: role.splits)

lemma sat_set_leader:
  assumes "ld_progress l' = ld_progress l"
  shows "sat M i (runs M i E t (\<lambda>r. r = Leader l)) (set_role (Leader l')) (\<lambda>_. runs M i E t (\<lambda>r. r = Leader l'))"
  by (rule sat_set_role) (rule runs_leader[OF _ assms])

lemma runs_is_leader: "runs M i E t (\<lambda>r. r = Leader l) n G \<Longrightarrow> runs M i E t is_leader n G"
  by (rule runs_mono) (auto simp: runs_def)

lemma sat_leader:
  assumes "sat M i (runs M i E t is_leader) m Q"
  shows "sat M i (runs M i E t (\<lambda>r. r = Leader l)) m Q"
  by (rule sat_pre[OF assms]) (rule runs_is_leader)

lemma sat_is_leader:
  "sat M i P m (\<lambda>_. runs M i E t (\<lambda>r. r = Leader l)) \<Longrightarrow> sat M i P m (\<lambda>_. runs M i E t is_leader)"
  by (erule sat_post) (rule runs_is_leader)

text \<open>The progress of a peer: reading it, and storing it with the match index kept or advanced.\<close>

lemma runs_at_progress: "runs M i E t (at_progress j p) n G \<Longrightarrow> runs M i E t is_leader n G"
  by (rule runs_mono) (auto simp: runs_def at_progress_def)

lemma sat_get_progress:
  "sat M i (runs M i E t is_leader) (get_progress j) (\<lambda>p. runs M i E t (at_progress j p))"
  by (rule sat_stay)
    (auto simp: get_progress_def get_leader_def sbind_def slift_def runs_def at_progress_def split: role.splits option.splits)

lemma progress_update:
  assumes "role_ok M i (Leader l)" "map_of (ld_progress l) j = Some p" "p_match_index p' < u64_limit" "finite M"
    "l' = l\<lparr>ld_progress := btree_insert j p' (ld_progress l)\<rparr>"
  shows "role_ok M i (Leader l')"
    "role_view (Leader l') = ALeader ((progress_match (ld_progress l))(j := p_match_index p'))"
proof -
  have keys: "map fst (ld_progress l) = sorted_list_of_set (M - {i})" using assms(1) by simp
  have "ordered (ld_progress l)" using assms(4) unfolding keys by simp
  moreover have "j \<in> set (map fst (ld_progress l))" using assms(2) by (metis map_of_eq_None_iff option.distinct(1) set_map)
  ultimately have "map fst (btree_insert j p' (ld_progress l)) = map fst (ld_progress l)"
    by (rule map_fst_btree_insert)
  then show "role_ok M i (Leader l')" using assms(1,3,5) by (auto simp: progress_match_insert)
  show "role_view (Leader l') = ALeader ((progress_match (ld_progress l))(j := p_match_index p'))"
    using assms(5) by (simp add: progress_match_insert)
qed

lemma sat_set_progress_frame:
  assumes "p_match_index p' = p_match_index p"
  shows "sat M i (\<lambda>n G. runs M i E t (at_progress j p) n G \<and> F G) (set_progress j p') (\<lambda>_ n G. runs M i E t is_leader n G \<and> F G)"
proof (rule sat_stay)
  fix n :: "('l, 's) node" and G assume c0: "corr M i n G" "runs M i E t (at_progress j p) n G \<and> F G"
  then have c: "corr M i n G" "runs M i E t (at_progress j p) n G" by simp_all
  obtain l where l: "n_role n = Leader l" "map_of (ld_progress l) j = Some p"
    using c(2) by (auto simp: runs_def at_progress_def)
  let ?l = "l\<lparr>ld_progress := btree_insert j p' (ld_progress l)\<rparr>"
  have run: "set_progress j p' n = (Ok (), n\<lparr>n_role := Leader ?l\<rparr>)"
    using l(1) by (simp add: set_progress_def get_leader_def sbind_def set_role_def)
  have s: "a_role G i = ALeader (progress_match (ld_progress l))" "role_ok M i (Leader l)"
    using c(2) l(1) by (auto simp: runs_def synced_def)
  have match: "progress_match (ld_progress l) j = p_match_index p" using l(2) by (simp add: progress_match_def)
  then have "p_match_index p' < u64_limit" using s(2) assms by (metis role_ok.simps(3))
  note u = progress_update[OF s(2) l(2) this corr_reads(7)[OF c(1)] refl]
  have "(progress_match (ld_progress l))(j := p_match_index p') = progress_match (ld_progress l)"
    using match assms by (simp add: fun_upd_idem)
  then have "synced M i (n\<lparr>n_role := Leader ?l\<rparr>) G" using u s(1) by (simp add: synced_def)
  then show "corr M i (snd (set_progress j p' n)) G \<and>
      (\<forall>a. fst (set_progress j p' n) = Ok a \<longrightarrow> runs M i E t is_leader (snd (set_progress j p' n)) G \<and> F G)"
    unfolding run using c c0 by (auto simp: corr_def runs_def)
qed

lemma sat_set_progress:
  assumes "p_match_index p' = p_match_index p"
  shows "sat M i (runs M i E t (at_progress j p)) (set_progress j p') (\<lambda>_. runs M i E t is_leader)"
  using sat_set_progress_frame[OF assms, where F = "\<lambda>_. True"] by simp

lemma sat_on_progress:
  assumes "\<And>p. p_match_index (snd (f p)) = p_match_index p"
  shows "sat M i (runs M i E t is_leader) (on_progress j f) (\<lambda>_. runs M i E t is_leader)"
proof -
  have "sat M i (runs M i E t (at_progress j p)) (sbind (set_progress j (snd (f p))) (\<lambda>_. sret (fst (f p))))
     (\<lambda>_. runs M i E t is_leader)" for p
    by (rule sat_sbind, rule sat_set_progress[OF assms], rule sat_run_ret)
  then show ?thesis unfolding on_progress_def case_prod_unfold by (rule sat_sbind[OF sat_get_progress])
qed

text \<open>Counting an acknowledgement.\<close>

lemma sat_advance:
  assumes "env_to e = i" "(\<exists>r. env_message e = AppendResponse m r) \<or> (\<exists>s. env_message e = HeartbeatResponse m s)"
    "t = env_term e" "m < u64_limit"
  shows "sat M i (runs M i {e} t is_leader) (on_progress (env_from e) (progress_advance m)) (\<lambda>_. runs M i {e} t is_leader)"
proof (rule satI)
  fix n :: "('l, 's) node" and G
  assume c: "corr M i n G" "runs M i {e} t is_leader n G"
  let ?j = "env_from e"
  obtain l where l: "n_role n = Leader l" using c(2) by (cases "n_role n") (auto simp: runs_def)
  have s: "a_role G i = ALeader (progress_match (ld_progress l))" "role_ok M i (Leader l)" "a_term G i = t"
    using c(2) l(1) by (auto simp: runs_def synced_def)
  let ?r = "on_progress ?j (progress_advance m) n"
  show "\<exists>G'. raft_steps M i G G' \<and> corr M i (snd ?r) G' \<and> (\<forall>a. fst ?r = Ok a \<longrightarrow> runs M i {e} t is_leader (snd ?r) G')"
  proof (cases "map_of (ld_progress l) ?j")
    case None
    then have "?r = (Panic ''unknown node'', n)"
      using l by (simp add: on_progress_def get_progress_def get_leader_def sbind_def slift_def)
    then show ?thesis using c(1) by auto
  next
    case (Some p)
    let ?p = "snd (progress_advance m p)"
    let ?l = "l\<lparr>ld_progress := btree_insert ?j ?p (ld_progress l)\<rparr>"
    have run: "?r = (Ok (fst (progress_advance m p)), n\<lparr>n_role := Leader ?l\<rparr>)"
      using l Some
      by (simp add: on_progress_def get_progress_def get_leader_def set_progress_def sbind_def slift_def set_role_def
          sret_def case_prod_unfold)
    show ?thesis
    proof (cases "m \<le> p_match_index p")
      case True
      then have p: "p_match_index ?p = p_match_index p" by (simp add: progress_advance_def)
      have "sat M i (runs M i {e} t (at_progress ?j p)) (set_progress ?j ?p) (\<lambda>_. runs M i {e} t is_leader)"
        by (rule sat_set_progress[OF p])
      moreover have "set_progress ?j ?p n = (Ok (), n\<lparr>n_role := Leader ?l\<rparr>)"
        using l by (simp add: set_progress_def get_leader_def sbind_def set_role_def)
      moreover have "runs M i {e} t (at_progress ?j p) n G"
        by (rule runs_mono[OF c(2)]) (use l Some in \<open>auto simp: at_progress_def\<close>)
      ultimately show ?thesis using c(1) unfolding run sat_def by force
    next
      case False
      then have p: "p_match_index ?p = m" by (simp add: progress_advance_def)
      note u = progress_update[OF s(2) Some _ corr_reads(7)[OF c(1)] refl, of ?p, unfolded p, OF assms(4)]
      have rcv: "received G i ?j (env_message e)" using runs_received[of M i e is_leader n G] c(2) assms by simp
      obtain r sq where "env_message e = AppendResponse m r \<or> env_message e = HeartbeatResponse m sq"
        using assms(2) by blast
      then have "received G i ?j (AppendResponse m r) \<or> received G i ?j (HeartbeatResponse m sq)" using rcv by auto
      note raft_step.count_match[OF s(1) this, of M]
      then show ?thesis
        using c u s unfolding run
        by (intro exI[of _ "G\<lparr>a_role := (a_role G)(i := ALeader ((progress_match (ld_progress l))(?j := m)))\<rparr>"])
          (auto simp: corr_def runs_def synced_def rl_def simp del: role_ok.simps role_view.simps)
    qed
  qed
qed

text \<open>Reading the entries to send.\<close>

lemma scan_from:
  assumes "entries_wf es" "0 < k"
  shows "filter (\<lambda>x. in_range (Included k, Unbounded) (e_index x)) es = drop (k - 1) es"
proof -
  have idx: "e_index (es ! a) = a + 1" if "a < length es" for a using assms(1) that by (simp add: entries_wf_def)
  have "filter (\<lambda>x. in_range (Included k, Unbounded) (e_index x)) (take (k - 1) es) = []"
    by (auto simp: filter_empty_conv in_set_conv_nth idx in_range_def)
  moreover have "filter (\<lambda>x. in_range (Included k, Unbounded) (e_index x)) (drop (k - 1) es) = drop (k - 1) es"
    by (auto simp: filter_id_conv in_set_conv_nth idx in_range_def)
  ultimately show ?thesis
    by (metis append_Nil append_take_drop_id filter_append)
qed

lemma try_collect_Ok: "try_collect (map Ok xs) = Ok xs"
  by (induction xs) auto

lemma sat_get:
  assumes "k < u64_limit" "\<And>n G. corr M i n G \<Longrightarrow> P n G \<Longrightarrow> Q (r_get (rl G i) k) n G"
  shows "sat M i P (on_nlog (l_get L k)) Q"
  by (rule sat_nlog_read[where r = "\<lambda>G. Ok (r_get (rl G i) k)"])
    (use assms get_law in \<open>auto simp: corr_def\<close>)

lemma sat_scan_from:
  assumes "0 < k" "k < u64_limit" "\<And>n G. corr M i n G \<Longrightarrow> P n G \<Longrightarrow> Q (map Ok (drop (k - 1) (a_log G i))) n G"
  shows "sat M i P (on_nlog (l_scan L (Included k, Unbounded))) Q"
proof (rule sat_nlog_read[where r = "\<lambda>G. Ok (map Ok (drop (k - 1) (a_log G i)))"])
  fix n G assume c: "corr M i n G" "P n G"
  then have l: "invar (n_log n)" "abst (n_log n) = rl G i" by (simp_all add: corr_def)
  have "l_scan L (Included k, Unbounded) (n_log n) = (Ok (map Ok (drop (k - 1) (a_log G i))), n_log n)"
    using scan_law[OF l(1), of "(Included k, Unbounded)"] assms(2) l(2) scan_from[OF corr_reads(11)[OF c(1)] assms(1)]
    by (simp add: r_scan_def rl_def)
  then show "l_scan L (Included k, Unbounded) (n_log n) = (Ok (map Ok (drop (k - 1) (a_log G i))), n_log n) \<and>
      (\<forall>a. Ok (map Ok (drop (k - 1) (a_log G i))) = Ok a \<longrightarrow> Q a n G)"
    using assms(3)[OF c] by auto
qed

lemma sat_log:
  assumes "\<And>es. sat M i (\<lambda>n G. P n G \<and> a_log G i = es) m Q"
  shows "sat M i P m Q"
  using assms unfolding sat_def by blast

lemma sat_given:
  assumes "A \<Longrightarrow> sat M i P m Q"
  shows "sat M i (\<lambda>n G. P n G \<and> A) m Q"
  using assms unfolding sat_def by blast

lemma sat_check:
  assumes "b \<Longrightarrow> sat M i P m Q"
  shows "sat M i P (sbind (sassert b msg) (\<lambda>_. m)) Q"
proof (cases b)
  case True
  then show ?thesis using assms by (simp add: sat_def sbind_def sassert_def)
qed (simp add: sat_def sbind_def sassert_def, blast)

text \<open>A probe or a batch of entries from the leader's log.\<close>

lemma sat_send_append:
  assumes "j \<noteq> i" "b \<le> length es" "prefix xs (drop b es)"
  shows "sat M i (\<lambda>n G. runs M i E t is_leader n G \<and> a_log G i = es) (send L j (Append b (term_at es b) xs))
    (\<lambda>_. runs M i E t is_leader)"
proof (rule sat_send)
  fix n :: "('l, 's) node" and G e x assume c: "corr M i n G" "runs M i E t is_leader n G \<and> a_log G i = es"
  then obtain mt where "a_role G i = ALeader mt"
    by (cases "n_role n") (auto simp: runs_def synced_def)
  then show "may_send G i (Append b (term_at es b) xs) j \<and>
      runs M i E t is_leader (n\<lparr>n_tx := x\<rparr>) (G\<lparr>a_net := insert e (a_net G)\<rparr>)"
    using c assms by simp
qed

lemma at_progress_peer:
  assumes "corr M i n G" "runs M i E t (at_progress j p) n G"
  shows "j \<noteq> i"
proof -
  obtain l where l: "n_role n = Leader l" "map_of (ld_progress l) j = Some p"
    using assms(2) by (auto simp: runs_def at_progress_def)
  then have "map fst (ld_progress l) = sorted_list_of_set (M - {i})" using assms(2) by (auto simp: runs_def synced_def)
  moreover have "j \<in> set (map fst (ld_progress l))" using l(2) by (metis map_of_eq_None_iff option.distinct(1) set_map)
  ultimately show ?thesis using corr_reads(7)[OF assms(1)] by auto
qed

lemma sat_append_entries:
  assumes "j \<noteq> i" "0 < p_next_index p" "p_next_index p \<le> length es + 1" "length es < u64_limit"
    "\<not> probe \<Longrightarrow> p_next_index p \<le> length es"
  shows "sat M i (\<lambda>n G. runs M i E t (at_progress j p) n G \<and> a_log G i = es)
      (sbind (if p_next_index p = 1 then sret (0, 0)
                else sbind (on_nlog (l_get L (p_next_index p - 1))) (\<lambda>base. slift (case base of
                       Some e \<Rightarrow> Ok (e_index e, e_term e)
                     | None \<Rightarrow> Panic ''missing base entry''))) (\<lambda>(base_index, base_term).
         sbind (if probe then sret []
                else sbind (on_nlog (l_scan L (Included (p_next_index p), Unbounded))) (\<lambda>scan.
                     sbind (nread n_opts) (\<lambda>opts.
                     slift (try_collect (take (max_append_entries opts) scan))))) (\<lambda>entries.
         sbind (if entries = [] then sret ()
                else set_progress j (p\<lparr>p_next_index := e_index (last entries) + 1\<rparr>)) (\<lambda>_.
         send L j (Append base_index base_term entries)))))
      (\<lambda>_. runs M i E t is_leader)" (is "sat M i ?P _ _")
proof -
  let ?k = "p_next_index p - 1"
  have base: "sat M i ?P (if p_next_index p = 1 then sret (0, 0)
                else sbind (on_nlog (l_get L (p_next_index p - 1))) (\<lambda>base. slift (case base of
                       Some e \<Rightarrow> Ok (e_index e, e_term e)
                     | None \<Rightarrow> Panic ''missing base entry'')))
      (\<lambda>q n G. ?P n G \<and> q = (?k, term_at es ?k))"
  proof (rule sat_if)
    assume "p_next_index p = 1"
    then show "sat M i ?P (sret (0, 0)) (\<lambda>q n G. ?P n G \<and> q = (?k, term_at es ?k))"
      by (intro sat_sret) (simp add: term_at_def)
  next
    assume k: "p_next_index p \<noteq> 1"
    have get: "sat M i ?P (on_nlog (l_get L ?k)) (\<lambda>x n G. ?P n G \<and> x = Some (es ! (?k - 1)) \<and> e_index (es ! (?k - 1)) = ?k)"
    proof (rule sat_get)
      fix n G assume c: "corr M i n G" "?P n G"
      have "e_index (es ! (?k - 1)) = ?k"
        using corr_reads(11)[OF c(1)] c(2) k assms(2,3) by (auto simp: entries_wf_def)
      then show "?P n G \<and> r_get (rl G i) ?k = Some (es ! (?k - 1)) \<and> e_index (es ! (?k - 1)) = ?k"
        using c(2) k assms(2,3) by (auto simp: r_get_def rl_def)
    qed (use assms in simp)
    have ret: "sat M i (\<lambda>n G. ?P n G \<and> x = Some (es ! (?k - 1)) \<and> e_index (es ! (?k - 1)) = ?k)
        (slift (case x of Some e \<Rightarrow> Ok (e_index e, e_term e) | None \<Rightarrow> Panic ''missing base entry''))
        (\<lambda>q n G. ?P n G \<and> q = (?k, term_at es ?k))" for x
      by (rule sat_slift) (use assms k in \<open>auto simp: term_at_def\<close>)
    show "sat M i ?P (sbind (on_nlog (l_get L ?k)) (\<lambda>base. slift (case base of
                       Some e \<Rightarrow> Ok (e_index e, e_term e) | None \<Rightarrow> Panic ''missing base entry'')))
      (\<lambda>q n G. ?P n G \<and> q = (?k, term_at es ?k))"
      by (rule sat_sbind[OF get ret])
  qed
  have entries: "sat M i ?P (if probe then sret []
                else sbind (on_nlog (l_scan L (Included (p_next_index p), Unbounded))) (\<lambda>scan.
                     sbind (nread n_opts) (\<lambda>opts.
                     slift (try_collect (take (max_append_entries opts) scan)))))
      (\<lambda>xs n G. ?P n G \<and> prefix xs (drop ?k es))"
  proof (rule sat_if)
    show "sat M i ?P (sret []) (\<lambda>xs n G. ?P n G \<and> prefix xs (drop ?k es))" by (rule sat_sret) simp
  next
    assume "\<not> probe"
    then have k: "p_next_index p < u64_limit" using assms(4,5) by simp
    have scan: "sat M i ?P (on_nlog (l_scan L (Included (p_next_index p), Unbounded)))
        (\<lambda>x n G. ?P n G \<and> x = map Ok (drop ?k es))"
      by (rule sat_scan_from[OF assms(2) k]) simp
    have ret: "sat M i (\<lambda>n G. ?P n G \<and> x = map Ok (drop ?k es)) (sbind (nread n_opts) (\<lambda>opts.
                     slift (try_collect (take (max_append_entries opts) x))))
        (\<lambda>xs n G. ?P n G \<and> prefix xs (drop ?k es))" for x
      by (rule sat_sbind, rule sat_run_read, rule sat_slift)
        (auto simp: take_map try_collect_Ok take_is_prefix)
    show "sat M i ?P (sbind (on_nlog (l_scan L (Included (p_next_index p), Unbounded))) (\<lambda>scan.
                     sbind (nread n_opts) (\<lambda>opts.
                     slift (try_collect (take (max_append_entries opts) scan)))))
        (\<lambda>xs n G. ?P n G \<and> prefix xs (drop ?k es))"
      by (rule sat_sbind[OF scan ret])
  qed
  have store: "sat M i ?P (if xs = [] then sret () else set_progress j (p\<lparr>p_next_index := e_index (last xs) + 1\<rparr>))
      (\<lambda>_ n G. runs M i E t is_leader n G \<and> a_log G i = es)" for xs
  proof (rule sat_if)
    show "sat M i ?P (sret ()) (\<lambda>_ n G. runs M i E t is_leader n G \<and> a_log G i = es)"
      by (rule sat_sret) (blast intro: runs_at_progress)
    show "sat M i ?P (set_progress j (p\<lparr>p_next_index := e_index (last xs) + 1\<rparr>))
        (\<lambda>_ n G. runs M i E t is_leader n G \<and> a_log G i = es)"
      by (rule sat_set_progress_frame) simp
  qed
  show ?thesis
    unfolding case_prod_unfold
  proof (rule sat_sbind, rule base, rule sat_given)
    fix q assume q: "q = (?k, term_at es ?k)"
    show "sat M i ?P (sbind (if probe then sret []
                else sbind (on_nlog (l_scan L (Included (p_next_index p), Unbounded))) (\<lambda>scan.
                     sbind (nread n_opts) (\<lambda>opts.
                     slift (try_collect (take (max_append_entries opts) scan))))) (\<lambda>entries.
         sbind (if entries = [] then sret ()
                else set_progress j (p\<lparr>p_next_index := e_index (last entries) + 1\<rparr>)) (\<lambda>_.
         send L j (Append (fst q) (snd q) entries)))) (\<lambda>_. runs M i E t is_leader)"
      unfolding q fst_conv snd_conv
      by (rule sat_sbind, rule entries, rule sat_given, rule sat_sbind, rule store,
          rule sat_send_append[OF assms(1)]) (use assms(3) in simp_all)
  qed
qed

lemma sat_get_progress_log:
  "sat M i (\<lambda>n G. runs M i E t is_leader n G \<and> a_log G i = es) (get_progress j)
    (\<lambda>p n G. (runs M i E t (at_progress j p) n G \<and> a_log G i = es) \<and> (j \<noteq> i \<and> length es < u64_limit))"
proof (rule sat_stay)
  fix n G assume c: "corr M i n G" "runs M i E t is_leader n G \<and> a_log G i = es"
  have r: "snd (get_progress j n) = n" "\<forall>p. fst (get_progress j n) = Ok p \<longrightarrow> at_progress j p (n_role n)"
    by (auto simp: get_progress_def get_leader_def sbind_def slift_def at_progress_def split: role.splits option.splits)
  have len: "length es < u64_limit" using corr_reads(9)[OF c(1)] c(2) by simp
  have "runs M i E t (at_progress j p) n G \<and> j \<noteq> i" if "fst (get_progress j n) = Ok p" for p
    using at_progress_peer[OF c(1)] runs_mono r(2) that c(2) by blast
  then show "corr M i (snd (get_progress j n)) G \<and> (\<forall>p. fst (get_progress j n) = Ok p \<longrightarrow>
      (runs M i E t (at_progress j p) (snd (get_progress j n)) G \<and> a_log G i = es) \<and> (j \<noteq> i \<and> length es < u64_limit))"
    using c r len by simp
qed

lemma sat_read_length:
  assumes "\<And>es. sat M i (\<lambda>n G. runs M i E t R n G \<and> a_log G i = es) (f (length es)) Q"
  shows "sat M i (runs M i E t R) (sbind (nread (\<lambda>n. fst (l_get_last_index L (n_log n)))) f) Q"
proof (rule sat_log, rule sat_sbind)
  fix es
  show "sat M i (\<lambda>n G. runs M i E t R n G \<and> a_log G i = es) (nread (\<lambda>n. fst (l_get_last_index L (n_log n))))
      (\<lambda>x n G. (runs M i E t R n G \<and> a_log G i = es) \<and> x = length es)"
    by (rule sat_nread) (simp add: corr_reads)
  show "sat M i (\<lambda>n G. (runs M i E t R n G \<and> a_log G i = es) \<and> x = length es) (f x) Q" for x
    by (rule sat_given) (use assms in simp)
qed

lemma sat_maybe_send_append:
  "sat M i (runs M i E t is_leader) (maybe_send_append L j probe) (\<lambda>_. runs M i E t is_leader)"
  unfolding maybe_send_append_def
proof (rule sat_read_length, rule sat_sbind, rule sat_get_progress_log, rule sat_given)
  fix es :: "entry list" and p assume j: "j \<noteq> i \<and> length es < u64_limit"
  have skip: "sat M i (\<lambda>n G. runs M i E t (at_progress j p) n G \<and> a_log G i = es) (sret ()) (\<lambda>_. runs M i E t is_leader)"
    by (rule sat_sret) (blast intro: runs_at_progress)
  show "sat M i (\<lambda>n G. runs M i E t (at_progress j p) n G \<and> a_log G i = es)
     (sbind (sassert (p_next_index p \<noteq> 0) ''invalid next_index'') (\<lambda>_.
     sbind (sassert (p_next_index p > p_match_index p) ''invalid next_index <= match_index'') (\<lambda>_.
     sbind (sassert (p_match_index p \<le> length es) ''invalid match_index > last_index'') (\<lambda>_.
     sbind (sassert (p_next_index p \<le> length es + 1) ''invalid next_index > last_index + 1'') (\<lambda>_.
     if p_match_index p = length es then sret ()
     else let probe = (probe \<and> p_next_index p > p_match_index p + 1) in
       if p_next_index p > length es \<and> \<not> probe then sret ()
       else
         sbind (if p_next_index p = 1 then sret (0, 0)
                else sbind (on_nlog (l_get L (p_next_index p - 1))) (\<lambda>base. slift (case base of
                       Some e \<Rightarrow> Ok (e_index e, e_term e)
                     | None \<Rightarrow> Panic ''missing base entry''))) (\<lambda>(base_index, base_term).
         sbind (if probe then sret []
                else sbind (on_nlog (l_scan L (Included (p_next_index p), Unbounded))) (\<lambda>scan.
                     sbind (nread n_opts) (\<lambda>opts.
                     slift (try_collect (take (max_append_entries opts) scan))))) (\<lambda>entries.
         sbind (if entries = [] then sret ()
                else set_progress j (p\<lparr>p_next_index := e_index (last entries) + 1\<rparr>)) (\<lambda>_.
         send L j (Append base_index base_term entries))))))))) (\<lambda>_. runs M i E t is_leader)"
    unfolding Let_def
    by (rule sat_check, rule sat_check, rule sat_check, rule sat_check, rule sat_if, rule skip, rule sat_if, rule skip,
        rule sat_append_entries) (use j in auto)
qed

lemma sat_propose:
  "sat M i (runs M i E t is_leader) (propose L c) (\<lambda>_. runs M i E t is_leader)"
proof -
  have app: "sat M i (runs M i E t is_leader) (on_nlog (l_append L c)) (\<lambda>_. runs M i E t is_leader)"
  proof (rule sat_append)
    fix n :: "('l, 's) node" and G assume c: "corr M i n G" "runs M i E t is_leader n G"
    then obtain mt where mt: "a_role G i = ALeader mt" by (cases "n_role n") (auto simp: runs_def synced_def)
    note s = raft_step.append[OF mt refl, of M c]
    show "\<exists>G'. raft_step M i G G' \<and> rl G' i = (rl G i)\<lparr>r_entries := a_log G i @
        [\<lparr>e_index = length (a_log G i) + 1, e_term = a_term G i, e_command = c\<rparr>]\<rparr> \<and>
        (\<forall>l. runs M i E t is_leader (n\<lparr>n_log := l\<rparr>) G')"
      by (rule exI, rule conjI, rule s) (use c in \<open>auto simp: rl_def runs_def synced_def\<close>)
  qed
  have each: "sat M i (runs M i E t is_leader) (sbind (get_progress j) (\<lambda>p.
         if index = p_next_index p then maybe_send_append L j False else sret ())) (\<lambda>_. runs M i E t is_leader)" for j index
    by (rule sat_sbind, rule sat_post[OF sat_get_progress], erule runs_at_progress, (rule run_intros sat_maybe_send_append)+)
  show ?thesis unfolding propose_def by (rule sat_sbind, rule app, (rule run_intros each)+)
qed

lemma sat_heartbeat:
  "sat M i (runs M i E t is_leader) (heartbeat L) (\<lambda>_. runs M i E t is_leader)"
proof -
  have li: "sat M i (runs M i E t is_leader) (nread (\<lambda>n. l_get_last_index L (n_log n)))
      (\<lambda>p n G. runs M i E t is_leader n G \<and> p = (length (a_log G i), last_term_of (a_log G i)))"
    by (rule sat_nread) (simp add: corr_reads)
  have ci: "sat M i (\<lambda>n G. runs M i E t is_leader n G \<and> p = (length (a_log G i), last_term_of (a_log G i)))
      (nread (\<lambda>n. fst (l_get_commit_index L (n_log n))))
      (\<lambda>ci n G. runs M i E t is_leader n G \<and> p = (length (a_log G i), last_term_of (a_log G i)) \<and> ci = a_commit G i)" for p
    by (rule sat_nread) (simp add: corr_reads)
  let ?C = "\<lambda>p ci G. p = (length (a_log G i), last_term_of (a_log G i)) \<and> ci = a_commit G i"
  have get: "sat M i (\<lambda>n G. runs M i E t is_leader n G \<and> ?C p ci G) get_leader
      (\<lambda>l n G. runs M i E t (\<lambda>r. r = Leader l) n G \<and> ?C p ci G)" for p ci
    by (rule sat_stay) (auto simp: get_leader_def runs_def split: role.splits)
  have role: "sat M i (\<lambda>n G. runs M i E t (\<lambda>r. r = Leader l) n G \<and> ?C p ci G)
      (set_role (Leader (l\<lparr>ld_since_heartbeat := 0\<rparr>))) (\<lambda>_ n G. runs M i E t is_leader n G \<and> ?C p ci G)" for p ci l
    by (rule sat_set_role) (auto simp: runs_def synced_def)
  have cast: "sat M i (\<lambda>n G. runs M i E t is_leader n G \<and> ?C p ci G) (broadcast L (Heartbeat (fst p) ci seq))
      (\<lambda>_. runs M i E t is_leader)" if "snd p = t" for p ci seq
  proof (rule sat_post, rule sat_broadcast)
    fix n :: "('l, 's) node" and G e x assume c: "corr M i n G" "runs M i E t is_leader n G \<and> ?C p ci G"
    then obtain mt where "a_role G i = ALeader mt" by (cases "n_role n") (auto simp: runs_def synced_def)
    moreover have "a_term G i = t" using c(2) by (simp add: runs_def)
    ultimately have "may_send G i (Heartbeat (fst p) ci seq) to" if "to \<noteq> i" for to
      using c(2) that \<open>snd p = t\<close> by auto
    then show "(\<forall>to. to \<noteq> i \<longrightarrow> may_send G i (Heartbeat (fst p) ci seq) to) \<and>
        (runs M i E t is_leader (n\<lparr>n_tx := x\<rparr>) (G\<lparr>a_net := insert e (a_net G)\<rparr>) \<and>
         ?C p ci (G\<lparr>a_net := insert e (a_net G)\<rparr>))"
      using c(2) by simp
  qed blast
  show ?thesis unfolding heartbeat_def case_prod_unfold
    by (rule sat_sbind, rule li, rule sat_sbind, rule ci, rule sat_sbind, rule get, rule sat_term[where t = t],
        simp add: runs_def, rule sat_check, rule sat_sbind, rule role, rule cast)
qed

lemmas lead_intros = sat_sbind sat_if sat_case_option sat_run_read sat_run_assert sat_run_random sat_run_ret
  sat_run_lift sat_sfor

lemma sat_get_set_leader:
  assumes "\<And>l. ld_progress (f l) = ld_progress l" "\<And>l. sat M i (runs M i E t is_leader) (m l) Q"
  shows "sat M i (runs M i E t is_leader) (sbind get_leader (\<lambda>l. sbind (set_role (Leader (f l))) (\<lambda>_. m l))) Q"
  by (rule sat_sbind, rule sat_get_leader, rule sat_sbind, rule sat_set_leader[OF assms(1)], rule sat_leader[OF assms(2)])

lemma sat_read_loop:
  "sat M i (runs M i E t is_leader) (read_loop L S q rs) (\<lambda>_. runs M i E t is_leader)"
proof (induction rs)
  case (Cons r rs)
  show ?case
    by (simp only: read_loop.simps, rule sat_if, rule sat_run_ret, rule sat_get_set_leader, simp, rule sat_sbind,
        rule sat_run_read, rule sat_sbind, rule sat_scatch_slift[where Q = "\<lambda>_. runs M i E t is_leader"], assumption, rule sat_sbind, rule runs_send_idle, simp,
        rule Cons.IH)
qed (simp add: sat_run_ret)

lemma sat_maybe_read:
  "sat M i (runs M i E t is_leader) (maybe_read L S) (\<lambda>_. runs M i E t is_leader)"
  unfolding maybe_read_def case_prod_unfold
  by (rule sat_sbind, rule sat_get_leader, rule sat_leader, (rule lead_intros sat_read_loop)+)

lemma sat_commit_apply_loop:
  "sat M i (runs M i E t is_leader) (commit_apply_loop S t items) (\<lambda>_. runs M i E t is_leader)"
proof (induction items)
  case (Cons item items)
  have answer: "sat M i (runs M i E t is_leader) (sbind (nread n_id) (\<lambda>self.
           send_via \<lparr>env_from = self, env_term = t, env_to = w_from w,
             env_message = ClientResponse (w_id w) (rmap WriteResp r)\<rparr>)) (\<lambda>_. runs M i E t is_leader)" for w r
  proof (rule sat_sbind)
    show "sat M i (runs M i E t is_leader) (nread n_id) (\<lambda>x n G. runs M i E t is_leader n G \<and> x = i)"
      by (rule sat_nread) (simp add: corr_reads)
    show "sat M i (\<lambda>n G. runs M i E t is_leader n G \<and> self = i)
       (send_via \<lparr>env_from = self, env_term = t, env_to = w_from w,
             env_message = ClientResponse (w_id w) (rmap WriteResp r)\<rparr>) (\<lambda>_. runs M i E t is_leader)" for self
      by (rule sat_send_via) (auto simp: runs_def synced_def)
  qed
  show ?case
    by (simp only: commit_apply_loop.simps, rule sat_sbind, rule sat_run_lift, rule sat_get_set_leader, simp, rule sat_sbind,
        rule sat_scatch_nstate[where Q = "\<lambda>_. runs M i E t is_leader"], simp,
        rule sat_sbind, rule sat_case_option, rule sat_run_ret, rule answer, rule Cons.IH)
qed (simp add: sat_run_ret)

text \<open>Committing: the index that a quorum has reached, when its entry is of the leader's own term.\<close>

lemma sat_quorum_commit:
  assumes "c < u64_limit"
  shows "sat M i (\<lambda>n G. runs M i E t (\<lambda>r. r = Leader l) n G \<and> a_log G i = es \<and> a_commit G i < c \<and> c \<le> length es \<and>
      term_at es c = t \<and> quorum M {j \<in> M. j = i \<or> c \<le> progress_match (ld_progress l) j})
    (on_nlog (l_commit L c)) (\<lambda>_. runs M i E t is_leader)"
proof (rule sat_commit[OF assms])
  fix n :: "('l, 's) node" and G assume n: "corr M i n G" and "runs M i E t (\<lambda>r. r = Leader l) n G \<and> a_log G i = es \<and>
      a_commit G i < c \<and> c \<le> length es \<and> term_at es c = t \<and>
      quorum M {j \<in> M. j = i \<or> c \<le> progress_match (ld_progress l) j}" and pos: "0 < c"
  then have run: "runs M i E t (\<lambda>r. r = Leader l) n G" and es: "a_log G i = es"
    and c: "a_commit G i < c" "c \<le> length es" "term_at es c = t"
    and q: "quorum M {j \<in> M. j = i \<or> c \<le> progress_match (ld_progress l) j}" by blast+
  then have r: "a_role G i = ALeader (progress_match (ld_progress l))" "a_term G i = t" by (auto simp: runs_def synced_def)
  let ?G = "G\<lparr>a_commit := (a_commit G)(i := c), a_acks := insert (i, a_term G i, c) (a_acks G)\<rparr>"
  have "raft_step M i G ?G"
    by (rule raft_step.leader_commit[OF r(1) pos _ _ _ q]) (simp_all add: c es r(2) less_imp_le)
  moreover have "rl ?G i = (rl G i)\<lparr>r_commit := c\<rparr>" by (simp add: rl_def)
  moreover have "runs M i E t is_leader (n\<lparr>n_log := la\<rparr>) ?G" for la
    using runs_is_leader[OF run] by (simp add: runs_def synced_def)
  ultimately show "\<exists>G'. raft_step M i G G' \<and> rl G' i = (rl G i)\<lparr>r_commit := c\<rparr> \<and> (\<forall>la. runs M i E t is_leader (n\<lparr>n_log := la\<rparr>) G')"
    by blast
qed

lemma quorum_value_Ok:
  assumes "corr M i n G" "runs M i E t (\<lambda>r. r = Leader l) n G"
    "quorum_value (map (p_match_index \<circ> snd) (ld_progress l) @ [length (a_log G i)]) n = Ok c"
  shows "c < u64_limit \<and> quorum M {j \<in> M. j = i \<or> c \<le> progress_match (ld_progress l) j}"
proof -
  let ?vs = "map (p_match_index \<circ> snd) (ld_progress l) @ [length (a_log G i)]"
  have ok: "role_ok M i (Leader l)" using assms(2) by (auto simp: runs_def synced_def)
  have M: "finite M" "i \<in> M" "n_peers n = M - {i}" using corr_reads[OF assms(1)] by simp_all
  then have size: "cluster_size n = card M" using card_Suc_Diff1[OF M(1,2)] by (simp add: cluster_size_def)
  then have c: "c = rev (sort ?vs) ! (card M div 2)" "length ?vs = card M"
    using assms(3) by (auto simp: quorum_value_def quorum_size_def split: if_splits)
  have "0 < card M" using M card_gt_0_iff by blast
  then have "c \<in> set ?vs" using c nth_mem[of "card M div 2" "rev (sort ?vs)"] by simp
  moreover have "v < u64_limit" if "v \<in> set ?vs" for v
  proof -
    have d: "distinct (map fst (ld_progress l))" using ok by simp
    have "p_match_index p < u64_limit" if "(j, p) \<in> set (ld_progress l)" for j p
    proof -
      have "progress_match (ld_progress l) j = p_match_index p"
        using map_of_is_SomeI[OF d that] by (simp add: progress_match_def)
      then show ?thesis using ok by (metis role_ok.simps(3))
    qed
    then show ?thesis using that corr_reads(9)[OF assms(1)] by auto
  qed
  ultimately show ?thesis using quorum_of_values[OF _ M(1,2) c(1)] ok by simp
qed

lemma sat_maybe_commit_and_apply:
  "sat M i (runs M i E t is_leader) (maybe_commit_and_apply L S) (\<lambda>_. runs M i E t is_leader)"
  unfolding maybe_commit_and_apply_def case_prod_unfold
proof (rule sat_read_length)
  fix es :: "entry list"
  let ?L = "\<lambda>l n G. runs M i E t (\<lambda>r. r = Leader l) n G \<and> a_log G i = es"
  let ?Q = "\<lambda>l c. quorum M {j \<in> M. j = i \<or> c \<le> progress_match (ld_progress l) j}"
  have get: "sat M i (\<lambda>n G. runs M i E t is_leader n G \<and> a_log G i = es) get_leader (\<lambda>l. ?L l)"
    by (rule sat_stay) (auto simp: get_leader_def runs_def split: role.splits)
  have q: "sat M i (?L l) (nread (quorum_value (map (p_match_index \<circ> snd) (ld_progress l) @ [length es])))
      (\<lambda>q n G. ?L l n G \<and> (\<forall>c. q = Ok c \<longrightarrow> c < u64_limit \<and> ?Q l c))" for l
    by (rule sat_nread) (auto dest: quorum_value_Ok)
  have c: "sat M i (\<lambda>n G. ?L l n G \<and> (\<forall>c. q = Ok c \<longrightarrow> c < u64_limit \<and> ?Q l c)) (slift q)
      (\<lambda>c n G. ?L l n G \<and> (c < u64_limit \<and> ?Q l c))" for l q
    by (rule sat_slift) auto
  have old: "sat M i (?L l) (nread (\<lambda>n. l_get_commit_index L (n_log n))) (\<lambda>p n G. ?L l n G \<and> fst p = a_commit G i)" for l
    by (rule sat_nread) (simp add: corr_reads)
  have leave: "sat M i (\<lambda>n G. ?L l n G \<and> X G) (sret (x :: nat)) (\<lambda>_. runs M i E t is_leader)" for l x X
    by (rule sat_sret) (blast intro: runs_is_leader)
  have found: "sat M i (\<lambda>n G. ?L l n G \<and> fst p = a_commit G i) (on_nlog (l_get L c))
      (\<lambda>x n G. (?L l n G \<and> fst p = a_commit G i) \<and> (\<forall>y. x = Some y \<longrightarrow> c \<le> length es \<and> term_at es c = e_term y))"
    if "c < u64_limit" for l p c
    by (rule sat_get[OF that]) (auto simp: r_get_def rl_def term_at_def split: if_splits)
  have commit: "sat M i (\<lambda>n G. ?L l n G \<and> fst p = a_commit G i)
     (sbind (on_nlog (l_commit L c)) (\<lambda>_.
      sbind (nread (\<lambda>n. st_applied_index S (n_state n))) (\<lambda>applied.
      sbind (on_nlog (l_scan_apply L applied)) (\<lambda>iter.
      sbind (commit_apply_loop S t iter) (\<lambda>_.
      sbind (if snd p \<noteq> t then maybe_read L S else sret ()) (\<lambda>_. sret c)))))) (\<lambda>_. runs M i E t is_leader)"
    if "c < u64_limit" "?Q l c" "\<not> c \<le> fst p" "c \<le> length es \<and> term_at es c = t" for l p c
    by (rule sat_sbind, rule sat_pre[OF sat_quorum_commit[OF that(1), of M i E t l es]], use that in force,
        rule sat_sbind, rule sat_run_read, rule sat_sbind, rule sat_scan_apply[where Q = "\<lambda>_. runs M i E t is_leader"], assumption, rule sat_sbind, rule sat_commit_apply_loop,
        (rule lead_intros sat_maybe_read)+)
  have entry: "sat M i (\<lambda>n G. (?L l n G \<and> fst p = a_commit G i) \<and> (\<forall>y. x = Some y \<longrightarrow> c \<le> length es \<and> term_at es c = e_term y))
     (case x of
         None \<Rightarrow> slift (Panic ''commit index missing'')
       | Some entry \<Rightarrow>
           if e_term entry \<noteq> t then sret (fst p)
           else
             sbind (on_nlog (l_commit L c)) (\<lambda>_.
             sbind (nread (\<lambda>n. st_applied_index S (n_state n))) (\<lambda>applied.
             sbind (on_nlog (l_scan_apply L applied)) (\<lambda>iter.
             sbind (commit_apply_loop S t iter) (\<lambda>_.
             sbind (if snd p \<noteq> t then maybe_read L S else sret ()) (\<lambda>_. sret c)))))) (\<lambda>_. runs M i E t is_leader)"
    if "c < u64_limit" "?Q l c" "\<not> c \<le> fst p" for l p c x
    by (rule sat_given, rule sat_case_option, rule sat_panic, rule sat_if, rule leave, rule commit[OF that]) auto
  show "sat M i (\<lambda>n G. runs M i E t is_leader n G \<and> a_log G i = es)
     (sbind get_leader (\<lambda>l.
      sbind (nread (quorum_value (map (p_match_index \<circ> snd) (ld_progress l) @ [length es]))) (\<lambda>q.
      sbind (slift q) (\<lambda>commit_index.
      sbind (nread (\<lambda>n. l_get_commit_index L (n_log n))) (\<lambda>p.
      if commit_index \<le> fst p then sret (fst p)
      else sbind (on_nlog (l_get L commit_index)) (\<lambda>found.
       sbind (nread (node_term L)) (\<lambda>trm.
       case found of
         None \<Rightarrow> slift (Panic ''commit index missing'')
       | Some entry \<Rightarrow>
           if e_term entry \<noteq> trm then sret (fst p)
           else
             sbind (on_nlog (l_commit L commit_index)) (\<lambda>_.
             sbind (nread (\<lambda>n. st_applied_index S (n_state n))) (\<lambda>applied.
             sbind (on_nlog (l_scan_apply L applied)) (\<lambda>iter.
             sbind (commit_apply_loop S trm iter) (\<lambda>_.
             sbind (if snd p \<noteq> trm then maybe_read L S else sret ()) (\<lambda>_.
             sret commit_index)))))))))))) (\<lambda>_. runs M i E t is_leader)"
  proof (rule sat_sbind, rule get, rule sat_sbind, rule q, rule sat_sbind, rule c, rule sat_given, erule conjE,
      rule sat_sbind, rule old, rule sat_if, rule leave)
    fix l :: leader and commit_index and p :: "nat \<times> nat" assume a: "commit_index < u64_limit" "?Q l commit_index" "\<not> commit_index \<le> fst p"
    show "sat M i (\<lambda>n G. ?L l n G \<and> fst p = a_commit G i) (sbind (on_nlog (l_get L commit_index)) (\<lambda>found.
       sbind (nread (node_term L)) (\<lambda>trm.
       case found of
         None \<Rightarrow> slift (Panic ''commit index missing'')
       | Some entry \<Rightarrow>
           if e_term entry \<noteq> trm then sret (fst p)
           else
             sbind (on_nlog (l_commit L commit_index)) (\<lambda>_.
             sbind (nread (\<lambda>n. st_applied_index S (n_state n))) (\<lambda>applied.
             sbind (on_nlog (l_scan_apply L applied)) (\<lambda>iter.
             sbind (commit_apply_loop S trm iter) (\<lambda>_.
             sbind (if snd p \<noteq> trm then maybe_read L S else sret ()) (\<lambda>_.
             sret commit_index)))))))) (\<lambda>_. runs M i E t is_leader)"
      by (rule sat_sbind, rule found[OF a(1)], rule sat_term[where t = t], simp add: runs_def, rule entry[OF a])
  qed
qed

section \<open>The leader's handlers\<close>

lemmas leader_intros = lead_intros sat_maybe_read sat_maybe_send_append sat_maybe_commit_and_apply sat_propose sat_heartbeat

lemma progress_read_match: "p_match_index (snd (progress_advance_read s p)) = p_match_index p"
  by (simp add: progress_advance_read_def)

lemma progress_regress_match: "p_match_index (snd (progress_regress_next k p)) = p_match_index p"
  by (simp add: progress_regress_next_def)

lemma sat_scatch_status:
  "sat M i (runs M i E t is_leader) (scatch (leader_status L S)) (\<lambda>_. runs M i E t is_leader)"
  for S :: "'s state_ops"
proof (rule sat_stay)
  fix n :: "('l, 's) node" and G assume c: "corr M i n G" "runs M i E t is_leader n G"
  then obtain st where "l_status L (n_log n) = (Ok st, n_log n)" using status_law by (metis corr_def)
  then have "snd (scatch (leader_status L S) n) = n"
    by (auto simp: scatch_def leader_status_def get_leader_def nread_def on_nlog_def sbind_def sret_def split: role.splits)
  then show "corr M i (snd (scatch (leader_status L S) n)) G \<and> (\<forall>a. fst (scatch (leader_status L S) n) = Ok a \<longrightarrow>
      runs M i E t is_leader (snd (scatch (leader_status L S) n)) G)"
    using c by simp
qed

lemma sat_leader_into_follower:
  assumes "trm < u64_limit"
  shows "sat M i (runs M i E t is_leader) (leader_into_follower L trm) (\<lambda>_. runs M i E trm is_follower)"
  unfolding leader_into_follower_def
proof (rule sat_read_term, rule sat_check, rule sat_sbind, rule sat_get_leader)
  fix l assume trm: "t < trm"
  have writes: "sat M i (runs M i E t (\<lambda>r. r = Leader (l\<lparr>ld_writes := []\<rparr>)))
      (sfor (\<lambda>w. send L (w_from w) (ClientResponse (w_id w) (Err Abort))) ws)
      (\<lambda>_. runs M i E t (\<lambda>r. r = Leader (l\<lparr>ld_writes := []\<rparr>)))" for ws
    by (rule sat_sfor, rule runs_send_idle) simp
  have reads: "sat M i (runs M i E t R) (sfor (\<lambda>r. send L (rd_from r) (ClientResponse (rd_id r) (Err Abort))) rs)
      (\<lambda>_. runs M i E t R)" for rs R
    by (rule sat_sfor, rule runs_send_idle) simp
  have role: "sat M i (runs M i E t (\<lambda>r. r = Leader l)) (set_role (Leader (l\<lparr>ld_writes := []\<rparr>)))
      (\<lambda>_. runs M i E t (\<lambda>r. r = Leader (l\<lparr>ld_writes := []\<rparr>)))"
    by (rule sat_set_leader) simp
  have role': "sat M i (runs M i E t (\<lambda>r. r = Leader (l\<lparr>ld_writes := []\<rparr>))) (set_role (Leader (l\<lparr>ld_writes := [], ld_reads := []\<rparr>)))
      (\<lambda>_. runs M i E t (\<lambda>r. r = Leader (l\<lparr>ld_writes := [], ld_reads := []\<rparr>)))"
    by (rule sat_set_leader) simp
  have ne: "t \<noteq> trm" using trm by simp
  show "sat M i (runs M i E t (\<lambda>r. r = Leader l)) (sbind (set_role (Leader (l\<lparr>ld_writes := []\<rparr>))) (\<lambda>_.
     sbind (sfor (\<lambda>w. send L (w_from w) (ClientResponse (w_id w) (Err Abort))) (sort_key w_id (map snd (ld_writes l)))) (\<lambda>_.
     sbind (set_role (Leader (l\<lparr>ld_writes := [], ld_reads := []\<rparr>))) (\<lambda>_.
     sbind (sfor (\<lambda>r. send L (rd_from r) (ClientResponse (rd_id r) (Err Abort))) (sort_key rd_id (ld_reads l))) (\<lambda>_.
     sbind (on_nlog (l_set_term_vote L trm None)) (\<lambda>_.
     sbind random_election_timeout (\<lambda>timeout. set_role (Follower (follower_new None timeout))))))))) (\<lambda>_. runs M i E trm is_follower)"
    by (rule sat_sbind, rule role, rule sat_sbind, rule writes, rule sat_sbind, rule role', rule sat_sbind, rule reads,
        rule sat_sbind, rule sat_new_term[OF assms ne], rule sat_sbind, rule sat_random, assumption, rule sat_become_follower)
qed

lemma sat_leader_heartbeat_response:
  assumes "env_to e = i" "env_message e = HeartbeatResponse m s" "env_u64 e" "t = env_term e"
  shows "sat M i (runs M i {e} t is_leader) (leader_heartbeat_response L S e m s) (\<lambda>_. runs M i {e} t is_leader)"
proof -
  have m: "m < u64_limit" using assms(2,3) by (simp add: env_u64_def)
  note adv = sat_advance[OF assms(1) disjI2[OF exI[of _ s]] assms(4) m, OF assms(2)]
  have get: "sat M i (runs M i {e} t is_leader) get_leader (\<lambda>_. runs M i {e} t is_leader)"
    by (rule sat_post[OF sat_get_leader]) (rule runs_is_leader)
  show ?thesis unfolding leader_heartbeat_response_def
    by (rule leader_intros get adv sat_on_progress[OF progress_read_match] sat_on_progress[OF progress_regress_match])+
qed

lemma sat_leader_append_response:
  assumes "env_to e = i" "env_message e = AppendResponse m k" "env_u64 e" "t = env_term e"
  shows "sat M i (runs M i {e} t is_leader) (leader_append_response L S e m k) (\<lambda>_. runs M i {e} t is_leader)"
proof -
  have m: "m < u64_limit" using assms(2,3) by (simp add: env_u64_def)
  note adv = sat_advance[OF assms(1) disjI1[OF exI[of _ k]] assms(4) m, OF assms(2)]
  have get: "sat M i (runs M i {e} t is_leader) (get_progress j) (\<lambda>_. runs M i {e} t is_leader)" for j
    by (rule sat_post[OF sat_get_progress]) (rule runs_at_progress)
  show ?thesis unfolding leader_append_response_def
    by (rule leader_intros get adv sat_on_progress[OF progress_regress_match])+
qed

lemma sat_leader_client_write:
  "sat M i (runs M i E t is_leader) (leader_client_write L S e k c) (\<lambda>_. runs M i E t is_leader)"
  unfolding leader_client_write_def
  by (rule sat_sbind, rule sat_propose, rule sat_get_set_leader, simp, (rule leader_intros)+)

lemma sat_leader_client_read:
  "sat M i (runs M i E t is_leader) (leader_client_read L S e k c) (\<lambda>_. runs M i E t is_leader)"
proof -
  have role: "sat M i (runs M i E t (\<lambda>r. r = Leader l)) (set_role (Leader (l\<lparr>ld_read_seq := q, ld_reads := rs\<rparr>)))
      (\<lambda>_. runs M i E t is_leader)" for l q rs
    by (rule sat_is_leader, rule sat_set_leader) simp
  show ?thesis unfolding leader_client_read_def
    by (rule sat_sbind, rule sat_get_leader, rule sat_sbind, rule sat_run_lift, rule sat_sbind, rule role, rule sat_sbind,
        rule runs_broadcast_idle, simp, (rule leader_intros)+)
qed

lemma sat_leader_message:
  assumes "env_to e = i" "env_u64 e"
  shows "sat M i (runs M i {e} (env_term e) is_leader) (leader_message L S e) (\<lambda>_. runs M i {e} (env_term e) is_leader)"
proof (cases "env_message e")
  case (ClientRequest k r)
  have status: "sat M i (runs M i {e} (env_term e) is_leader) (sbind (scatch (leader_status L S)) (\<lambda>result.
      send L (env_from e) (ClientResponse k (rmap StatusResp result)))) (\<lambda>_. runs M i {e} (env_term e) is_leader)"
    by (rule sat_sbind, rule sat_scatch_status, rule runs_send_idle, simp)
  show ?thesis
    using ClientRequest status by (cases r) (simp_all add: leader_message_def sat_leader_client_write sat_leader_client_read)
next
  case (ReadResponse s)
  have "sat M i (runs M i {e} (env_term e) is_leader) (sbind (on_progress (env_from e) (progress_advance_read s)) (\<lambda>advanced.
         if advanced then maybe_read L S else sret ())) (\<lambda>_. runs M i {e} (env_term e) is_leader)"
    by (rule leader_intros sat_on_progress[OF progress_read_match])+
  then show ?thesis using ReadResponse by (simp add: leader_message_def)
qed (simp_all add: leader_message_def sat_panic sat_run_ret runs_send_idle
      sat_leader_heartbeat_response[OF assms(1) _ assms(2) refl] sat_leader_append_response[OF assms(1) _ assms(2) refl])

lemma sat_leader_step:
  assumes "env_to e = i" "env_u64 e"
  shows "sat M i (runs M i {e} t is_leader) (leader_step L S e) (\<lambda>_ n G. synced M i n G)"
proof -
  have u: "env_term e < u64_limit" using assms(2) by (simp add: env_u64_def)
  have same: "sat M i (runs M i {e} (env_term e) is_leader) (leader_message L S e) (\<lambda>_ n G. synced M i n G)"
    by (rule sat_post[OF sat_leader_message[OF assms]]) (rule runs_synced)
  have skip: "sat M i (runs M i {e} t is_leader) (sret ()) (\<lambda>_ n G. synced M i n G)"
    by (rule sat_sret) (rule runs_synced)
  have later: "sat M i (runs M i {e} t is_leader) (sbind (leader_into_follower L (env_term e)) (\<lambda>_. follower_step L S e))
      (\<lambda>_ n G. synced M i n G)"
    by (rule sat_sbind[OF sat_leader_into_follower[OF u] sat_follower_step[OF assms]])
  show ?thesis unfolding leader_step_def
    by (rule sat_read_term) (use same skip later in \<open>auto simp: not_less order.antisym intro: sat_if\<close>)
qed

lemma sat_leader_tick:
  "sat M i (runs M i E t is_leader) (leader_tick L) (\<lambda>_ n G. synced M i n G)"
proof -
  have role: "sat M i (runs M i E t (\<lambda>r. r = Leader l)) (set_role (Leader (l\<lparr>ld_since_heartbeat := s\<rparr>)))
      (\<lambda>_. runs M i E t is_leader)" for l s
    by (rule sat_is_leader, rule sat_set_leader) simp
  have "sat M i (runs M i E t is_leader) (leader_tick L) (\<lambda>_. runs M i E t is_leader)"
    unfolding leader_tick_def
    by (rule sat_sbind, rule sat_get_leader, rule sat_sbind, rule sat_run_lift, rule sat_sbind, rule role, (rule leader_intros)+)
  then show ?thesis by (rule sat_post) (rule runs_synced)
qed

end

end
