(* ===== verification/Raft_Refinement.thy ===== *)
theory Raft_Refinement
  imports Raft_Leader_Simulation
begin

text \<open>
  Candidates, whole node steps and whole clusters follow the Raft protocol, and what that means for the
  code: at most one leader per term, logs that match, committed entries that never change and that every
  later leader has.
\<close>

context log_contract
begin

section \<open>Candidates\<close>

lemma sat_candidate_into_follower_some:
  "sat M i (runs M i E t R) (candidate_into_follower L trm (Some j)) (\<lambda>_. runs M i E t is_follower)"
proof -
  have role: "sat M i (runs M i E t R) (set_role (Follower f)) (\<lambda>_. runs M i E t is_follower)" for f
  proof (rule sat_ghost)
    fix n :: "('l, 's) node" and G assume c: "corr M i n G" "runs M i E t R n G"
    show "\<exists>G'. raft_steps M i G G' \<and> rl G' i = rl G i \<and> (E \<subseteq> a_net G' \<and> a_term G' i = t \<and> a_role G' i = AFollower)"
      by (rule exI, rule conjI, rule r_into_rtranclp, rule raft_step.step_down) (use c in \<open>auto simp: rl_def runs_def\<close>)
  next
    show "sat M i (\<lambda>n G. E \<subseteq> a_net G \<and> a_term G i = t \<and> a_role G i = AFollower) (set_role (Follower f))
        (\<lambda>_. runs M i E t is_follower)"
      by (rule sat_become_follower)
  qed
  show ?thesis unfolding candidate_into_follower_def option.case
    by (rule sat_sbind, rule sat_run_random, rule sat_sbind, rule sat_run_read, rule sat_sbind, rule sat_run_assert, rule role)
qed

lemma sat_candidate_into_follower_none:
  assumes "trm < u64_limit"
  shows "sat M i (runs M i E t R) (candidate_into_follower L trm None) (\<lambda>_. runs M i E trm is_follower)"
  unfolding candidate_into_follower_def option.case
  by (rule sat_sbind, rule sat_run_random, rule sat_read_term, rule sat_check, rule sat_sbind, rule sat_new_term[OF assms],
      simp, rule sat_become_follower)

text \<open>Winning an election: the candidate's votes are a quorum.\<close>

lemma leader_new_progress:
  assumes "leader_new peers li = Ok l" "finite peers"
  shows "map fst (ld_progress l) = sorted_list_of_set peers" "progress_match (ld_progress l) = (\<lambda>_. 0)"
proof -
  have k: "ld_progress l = map (\<lambda>p. (p, \<lparr>p_match_index = 0, p_next_index = li + 1, p_read_seq = 0\<rparr>)) (sorted_list_of_set peers)"
    using assms(1) by (auto simp: leader_new_def u64_succ_def split: if_splits)
  show "map fst (ld_progress l) = sorted_list_of_set peers" by (simp add: k comp_def)
  have "progress_match (ld_progress l) j = 0" for j
  proof (cases "map_of (ld_progress l) j")
    case (Some p)
    then have "(j, p) \<in> set (ld_progress l)" by (rule map_of_SomeD)
    then have "p_match_index p = 0" by (auto simp: k)
    then show ?thesis by (simp add: Some progress_match_def)
  qed (simp add: progress_match_def)
  then show "progress_match (ld_progress l) = (\<lambda>_. 0)" by blast
qed

lemma sat_candidate_into_leader:
  assumes "quorum M V"
  shows "sat M i (runs M i E t (is_candidate V)) (candidate_into_leader L S) (\<lambda>_. runs M i E t is_leader)"
proof -
  let ?P = "runs M i E t (is_candidate V)"
  have start: "sat M i ?P (nread (\<lambda>n. (l_get_term_vote L (n_log n), n_id n, n_peers n))) (\<lambda>q n G. ?P n G \<and> snd (snd q) = M - {i})"
    by (rule sat_nread) (simp add: corr_reads)
  have new: "sat M i ?P (slift (leader_new (M - {i}) li))
      (\<lambda>l n G. ?P n G \<and> (map fst (ld_progress l) = sorted_list_of_set (M - {i}) \<and> progress_match (ld_progress l) = (\<lambda>_. 0)))" for li
    by (rule sat_slift) (simp add: leader_new_progress corr_reads(7))
  let ?Q = "\<lambda>n :: ('l, 's) node. \<lambda>G. E \<subseteq> a_net G \<and> a_term G i = t \<and> a_role G i = ALeader (\<lambda>_. 0)"
  have role: "sat M i ?P (set_role (Leader l)) (\<lambda>_. runs M i E t is_leader)"
    if l: "map fst (ld_progress l) = sorted_list_of_set (M - {i})" "progress_match (ld_progress l) = (\<lambda>_. 0)" for l
  proof (rule sat_ghost)
    fix n :: "('l, 's) node" and G assume c: "corr M i n G" "?P n G"
    then have "a_role G i = ACandidate V" by (cases "n_role n") (auto simp: runs_def synced_def)
    note s = raft_step.elect[OF this assms]
    show "\<exists>G'. raft_steps M i G G' \<and> rl G' i = rl G i \<and> ?Q n G'"
      by (rule exI, rule conjI, rule r_into_rtranclp, rule s) (use c in \<open>auto simp: rl_def runs_def\<close>)
  next
    show "sat M i ?Q (set_role (Leader l)) (\<lambda>_. runs M i E t is_leader)"
      by (rule sat_set_role) (use l in \<open>auto simp: runs_def synced_def u64_limit_def\<close>)
  qed
  have rest: "sat M i ?P (sbind (nread (\<lambda>n. fst (l_get_last_index L (n_log n)))) (\<lambda>li.
     sbind (slift (leader_new (M - {i}) li)) (\<lambda>l.
     sbind (set_role (Leader l)) (\<lambda>_.
     sbind (propose L None) (\<lambda>_.
     sbind (maybe_commit_and_apply L S) (\<lambda>_. heartbeat L)))))) (\<lambda>_. runs M i E t is_leader)"
    by (rule sat_sbind, rule sat_run_read, rule sat_sbind, rule new, rule sat_given, erule conjE, rule sat_sbind, rule role,
        assumption, assumption, (rule leader_intros)+)
  show ?thesis unfolding candidate_into_leader_def case_prod_unfold
  proof (rule sat_sbind, rule start, rule sat_given)
    fix q :: "(nat \<times> node_id option) \<times> node_id \<times> node_id set" assume "snd (snd q) = M - {i}"
    then show "sat M i ?P (sbind (sassert (fst (fst q) \<noteq> 0) ''leaders can't have term 0'') (\<lambda>_.
     sbind (sassert (snd (fst q) = Some (fst (snd q))) ''leader did not vote for self'') (\<lambda>_.
     sbind (nread (\<lambda>n. fst (l_get_last_index L (n_log n)))) (\<lambda>li.
     sbind (slift (leader_new (snd (snd q)) li)) (\<lambda>l.
     sbind (set_role (Leader l)) (\<lambda>_.
     sbind (propose L None) (\<lambda>_.
     sbind (maybe_commit_and_apply L S) (\<lambda>_. heartbeat L)))))))) (\<lambda>_. runs M i E t is_leader)"
      by (simp only:, intro sat_check) (rule rest)
  qed
qed

lemma sat_candidate_vote:
  assumes "env_to e = i" "env_message e = CampaignResponse True" "env_from e \<in> M"
  shows "sat M i (runs M i {e} (env_term e) is_some_candidate)
    (sbind get_candidate (\<lambda>c.
           let votes = insert (env_from e) (c_votes c) in
           sbind (set_role (Candidate (c\<lparr>c_votes := votes\<rparr>))) (\<lambda>_.
           sbind (nread quorum_size) (\<lambda>quorum.
           if card votes \<ge> quorum then candidate_into_leader L S else sret ())))) (\<lambda>_ n G. synced M i n G)"
proof -
  let ?P = "\<lambda>c n G. runs M i {e} (env_term e) (is_candidate (c_votes c)) n G \<and> n_role n = Candidate c"
  have get: "sat M i (runs M i {e} (env_term e) is_some_candidate) get_candidate (\<lambda>c. ?P c)"
    by (rule sat_stay) (auto simp: get_candidate_def runs_def split: role.splits)
  let ?V = "\<lambda>c. insert (env_from e) (c_votes c)"
  let ?Q = "\<lambda>c (n :: ('l, 's) node) G. {e} \<subseteq> a_net G \<and> a_term G i = env_term e \<and> a_role G i = ACandidate (?V c) \<and> ?V c \<subseteq> M"
  have role: "sat M i (?P c) (set_role (Candidate (c\<lparr>c_votes := insert (env_from e) (c_votes c)\<rparr>)))
      (\<lambda>_ n G. runs M i {e} (env_term e) (is_candidate (insert (env_from e) (c_votes c))) n G)" for c
  proof (rule sat_ghost)
    fix n :: "('l, 's) node" and G assume c: "corr M i n G" "?P c n G"
    then have r: "a_role G i = ACandidate (c_votes c)" "c_votes c \<subseteq> M" by (auto simp: runs_def synced_def)
    have "received G i (env_from e) (CampaignResponse True)"
      using runs_received[OF conjunct1[OF c(2)] assms(1)] assms(2) by simp
    note s = raft_step.count_vote[OF r(1) this]
    show "\<exists>G'. raft_steps M i G G' \<and> rl G' i = rl G i \<and> ?Q c n G'"
      by (rule exI, rule conjI, rule r_into_rtranclp, rule s) (use c r(2) assms(3) in \<open>auto simp: rl_def runs_def\<close>)
  next
    show "sat M i (?Q c) (set_role (Candidate (c\<lparr>c_votes := ?V c\<rparr>)))
        (\<lambda>_ n G. runs M i {e} (env_term e) (is_candidate (?V c)) n G)"
      by (rule sat_set_role) (auto simp: runs_def synced_def)
  qed
  have size: "sat M i (\<lambda>n G. runs M i {e} (env_term e) (is_candidate V) n G) (nread quorum_size)
      (\<lambda>q n G. runs M i {e} (env_term e) (is_candidate V) n G \<and> (q \<le> card V \<longrightarrow> quorum M V))" for V
  proof (rule sat_nread)
    fix n :: "('l, 's) node" and G assume c: "corr M i n G" "runs M i {e} (env_term e) (is_candidate V) n G"
    have M: "finite M" "i \<in> M" "n_peers n = M - {i}" using corr_reads[OF c(1)] by simp_all
    then have "cluster_size n = card M" using card_Suc_Diff1[OF M(1,2)] by (simp add: cluster_size_def)
    moreover have "V \<subseteq> M" using c(2) by (cases "n_role n") (auto simp: runs_def synced_def)
    ultimately show "runs M i {e} (env_term e) (is_candidate V) n G \<and> (quorum_size n \<le> card V \<longrightarrow> quorum M V)"
      using c(2) by (auto simp: quorum_size_def quorum_def)
  qed
  have win: "sat M i (\<lambda>n G. runs M i {e} (env_term e) (is_candidate V) n G) (candidate_into_leader L S) (\<lambda>_ n G. synced M i n G)"
    if "quorum M V" for V
    by (rule sat_post[OF sat_candidate_into_leader[OF that]]) (rule runs_synced)
  have wait: "sat M i (\<lambda>n G. runs M i {e} (env_term e) (is_candidate V) n G) (sret ()) (\<lambda>_ n G. synced M i n G)" for V
    by (rule sat_sret) (rule runs_synced)
  show ?thesis unfolding Let_def
    by (rule sat_sbind, rule get, rule sat_sbind, rule role, rule sat_sbind, rule size, rule sat_given, rule sat_if, rule win,
        blast, rule wait)
qed

lemma sat_candidate_message:
  assumes "env_to e = i" "env_u64 e" "env_from e \<in> M"
  shows "sat M i (runs M i {e} (env_term e) is_some_candidate) (candidate_message L S e) (\<lambda>_ n G. synced M i n G)"
proof -
  have idle: "sat M i (runs M i {e} (env_term e) is_some_candidate) (send L j m) (\<lambda>_ n G. synced M i n G)"
    if "idle_message m" for j m
    by (rule sat_post[OF runs_send_idle[OF that]]) (rule runs_synced)
  have stay: "sat M i (runs M i {e} (env_term e) is_some_candidate) (sret ()) (\<lambda>_ n G. synced M i n G)"
    by (rule sat_sret) (rule runs_synced)
  have follow: "sat M i (runs M i {e} (env_term e) is_some_candidate)
     (sbind (candidate_into_follower L (env_term e) (Some (env_from e))) (\<lambda>_. follower_step L S e)) (\<lambda>_ n G. synced M i n G)"
    by (rule sat_sbind[OF sat_candidate_into_follower_some sat_follower_step[OF assms(1,2)]])
  show ?thesis
  proof (cases "env_message e")
    case (CampaignResponse v)
    then show ?thesis using sat_candidate_vote[OF assms(1) _ assms(3)] stay
      by (cases v) (simp_all add: candidate_message_def)
  qed (simp_all add: candidate_message_def idle sat_panic follow)
qed

lemma sat_candidate_step:
  assumes "env_to e = i" "env_u64 e" "env_from e \<in> M"
  shows "sat M i (runs M i {e} t is_some_candidate) (candidate_step L S e) (\<lambda>_ n G. synced M i n G)"
proof -
  have u: "env_term e < u64_limit" using assms(2) by (simp add: env_u64_def)
  have skip: "sat M i (runs M i {e} t is_some_candidate) (sret ()) (\<lambda>_ n G. synced M i n G)"
    by (rule sat_sret) (rule runs_synced)
  have later: "sat M i (runs M i {e} t is_some_candidate) (sbind (candidate_into_follower L (env_term e) None)
      (\<lambda>_. follower_step L S e)) (\<lambda>_ n G. synced M i n G)"
    by (rule sat_sbind[OF sat_candidate_into_follower_none[OF u] sat_follower_step[OF assms(1,2)]])
  show ?thesis unfolding candidate_step_def
    by (rule sat_read_term)
      (use sat_candidate_message[OF assms] skip later in \<open>auto simp: not_less order.antisym intro: sat_if\<close>)
qed

lemma sat_candidate_tick:
  "sat M i (runs M i E t is_some_candidate) (candidate_tick L) (\<lambda>_ n G. synced M i n G)"
proof -
  have get: "sat M i (runs M i E t is_some_candidate) get_candidate
      (\<lambda>c n G. runs M i E t is_some_candidate n G \<and> n_role n = Candidate c)"
    by (rule sat_stay) (auto simp: get_candidate_def split: role.splits)
  have role: "sat M i (\<lambda>n G. runs M i E t is_some_candidate n G \<and> n_role n = Candidate c)
      (set_role (Candidate (c\<lparr>c_election_duration := d\<rparr>))) (\<lambda>_. runs M i E t is_some_candidate)" for c d
    by (rule sat_set_role) (auto simp: runs_def synced_def)
  have camp: "sat M i (runs M i E t is_some_candidate) (campaign L) (\<lambda>_ n G. synced M i n G)"
    by (rule sat_post, rule sat_pre[OF sat_campaign[of M i E t]], simp add: runs_def, rule runs_synced)
  have stay: "sat M i (runs M i E t is_some_candidate) (sret ()) (\<lambda>_ n G. synced M i n G)"
    by (rule sat_sret) (rule runs_synced)
  show ?thesis unfolding candidate_tick_def
    by (rule sat_sbind, rule get, rule sat_sbind, rule sat_run_lift, rule sat_sbind, rule role, rule sat_if, rule camp, rule stay)
qed

section \<open>Nodes\<close>

lemma runs_start:
  assumes "corr M i n G" "synced M i n G" "E \<subseteq> a_net G" "R (n_role n)"
  shows "runs M i E (a_term G i) R n G"
  using assms by (simp add: runs_def)

lemma satD:
  assumes "sat M i P m Q" "corr M i n G" "P n G"
  obtains G' where "raft_steps M i G G'" "corr M i (snd (m n)) G'" "\<And>a. fst (m n) = Ok a \<Longrightarrow> Q a (snd (m n)) G'"
  using assms unfolding sat_def by blast

lemma sat_run:
  assumes "sat M i P m (\<lambda>_ n G. synced M i n G)" "corr M i n G" "P n G"
  shows "\<exists>G'. raft_steps M i G G' \<and> corr M i (snd (m n)) G' \<and> (fst (m n) = Ok () \<longrightarrow> synced M i (snd (m n)) G')"
  using assms unfolding sat_def by blast

lemma node_step_sim:
  assumes "corr M i n G" "synced M i n G" "e \<in> a_net G" "env_to e = i" "env_u64 e"
  shows "\<exists>G'. raft_steps M i G G' \<and> corr M i (snd (node_step L S e n)) G' \<and>
    (fst (node_step L S e n) = Ok () \<longrightarrow> synced M i (snd (node_step L S e n)) G')"
proof (cases "env_from e \<in> n_peers n \<or> env_from e = n_id n")
  case True
  then have sender: "env_from e \<in> M" unfolding corr_reads(5,6)[OF assms(1)] using corr_reads(8)[OF assms(1)] by blast
  have net: "{e} \<subseteq> a_net G" using assms(3) by simp
  note start = runs_start[OF assms(1,2) net]
  have run: "node_step L S e n = (case n_role n of
       Candidate _ \<Rightarrow> candidate_step L S e | Follower _ \<Rightarrow> follower_step L S e | Leader _ \<Rightarrow> leader_step L S e) n"
    using True assms(4) corr_reads(5)[OF assms(1)] by (simp add: node_step_def nread_def sbind_def sassert_def)
  show ?thesis
  proof (cases "n_role n")
    case (Follower f)
    then have "runs M i {e} (a_term G i) is_follower n G" by (intro start) simp
    then show ?thesis
      unfolding run Follower role.case by (rule sat_run[OF sat_follower_step[OF assms(4,5)] assms(1)])
  next
    case (Candidate c)
    then have "runs M i {e} (a_term G i) is_some_candidate n G" by (intro start) simp
    then show ?thesis
      unfolding run Candidate role.case by (rule sat_run[OF sat_candidate_step[OF assms(4,5) sender] assms(1)])
  next
    case (Leader l)
    then have "runs M i {e} (a_term G i) is_leader n G" by (intro start) simp
    then show ?thesis
      unfolding run Leader role.case by (rule sat_run[OF sat_leader_step[OF assms(4,5)] assms(1)])
  qed
next
  case False
  then have "node_step L S e n = (Panic ''unknown sender'', n)"
    using assms(4) corr_reads(5)[OF assms(1)] by (simp add: node_step_def nread_def sbind_def sassert_def)
  then show ?thesis using assms(1) by auto
qed

lemma node_tick_sim:
  assumes "corr M i n G" "synced M i n G"
  shows "\<exists>G'. raft_steps M i G G' \<and> corr M i (snd (node_tick L S n)) G' \<and>
    (fst (node_tick L S n) = Ok () \<longrightarrow> synced M i (snd (node_tick L S n)) G')"
proof -
  note start = runs_start[OF assms, of "{}"]
  have run: "node_tick L S n = (case n_role n of
       Candidate _ \<Rightarrow> candidate_tick L | Follower _ \<Rightarrow> follower_tick L S | Leader _ \<Rightarrow> leader_tick L) n"
    by (simp add: node_tick_def nread_def sbind_def)
  show ?thesis
  proof (cases "n_role n")
    case (Follower f)
    then have "runs M i {} (a_term G i) is_follower n G" by (intro start) simp_all
    then show ?thesis
      unfolding run Follower role.case by (rule sat_run[OF sat_follower_tick assms(1)])
  next
    case (Candidate c)
    then have "runs M i {} (a_term G i) is_some_candidate n G" by (intro start) simp_all
    then show ?thesis
      unfolding run Candidate role.case by (rule sat_run[OF sat_candidate_tick assms(1)])
  next
    case (Leader l)
    then have "runs M i {} (a_term G i) is_leader n G" by (intro start) simp_all
    then show ?thesis
      unfolding run Leader role.case by (rule sat_run[OF sat_leader_tick assms(1)])
  qed
qed

lemma node_new_sim:
  assumes "invar l" "abst l = rl G i" "i \<in> M" "finite M" "a_role G i = AFollower"
    and r_def: "r = node_new L S i (M - {i}) l st opts rng"
  shows "\<exists>G'. raft_steps M i G G' \<and> corr M i (snd r) G' \<and> (fst r = Ok () \<longrightarrow> synced M i (snd r) G')"
proof -
  define n0 where "n0 = \<lparr>n_id = i, n_peers = M - {i}, n_log = l, n_state = st, n_tx = [], n_opts = opts,
     n_rng = rng, n_role = Follower (follower_new None 0)\<rparr>"
  define m where "m = sbind random_election_timeout (\<lambda>t. sbind get_follower (\<lambda>f.
     sbind (set_role (Follower (f\<lparr>f_election_timeout := t\<rparr>))) (\<lambda>_. maybe_apply L S)))"
  have n0: "corr M i n0 G" "runs M i {} (a_term G i) is_follower n0 G"
    using assms(1-5) by (simp_all add: n0_def corr_def runs_def synced_def)
  have sat: "sat M i (runs M i {} (a_term G i) is_follower) m (\<lambda>_. runs M i {} (a_term G i) is_follower)"
    unfolding m_def by (rule run_intros sat_maybe_apply)+
  obtain G1 where G1: "raft_steps M i G G1" "corr M i (snd (m n0)) G1"
      "\<And>a. fst (m n0) = Ok a \<Longrightarrow> runs M i {} (a_term G i) is_follower (snd (m n0)) G1"
    using satD[OF sat n0] by blast
  have r: "r = (case m n0 of (Ok _, n) \<Rightarrow> if cluster_size n = 1
          then sbind (follower_into_candidate L S) (\<lambda>_. candidate_into_leader L S) n else (Ok (), n)
      | (r, n) \<Rightarrow> (r, n))"
    by (simp add: r_def node_new_def follower_node_new_def n0_def m_def Let_def)
  show ?thesis
  proof (cases "fst (m n0) = Ok () \<and> cluster_size (snd (m n0)) = 1")
    case True
    have peers: "n_peers (snd (m n0)) = M - {i}" using corr_reads(6)[OF G1(2)] .
    then have "M - {i} = {}" using True assms(4) by (simp add: cluster_size_def)
    then have "M = {i}" using assms(3) by blast
    then have q: "quorum M {i}" by (simp add: quorum_def)
    have sat': "sat M i (runs M i {} (a_term G i) is_follower) (sbind (follower_into_candidate L S) (\<lambda>_. candidate_into_leader L S))
        (\<lambda>_. runs M i {} (a_term G i + 1) is_leader)"
      by (rule sat_sbind[OF sat_follower_into_candidate sat_candidate_into_leader[OF q]])
    have r': "r = sbind (follower_into_candidate L S) (\<lambda>_. candidate_into_leader L S) (snd (m n0))"
      using True by (cases "m n0") (auto simp: r)
    have run: "runs M i {} (a_term G i) is_follower (snd (m n0)) G1" using True G1(3) by blast
    obtain G2 where G2: "raft_steps M i G1 G2" "corr M i (snd r) G2"
        "\<And>a. fst r = Ok a \<Longrightarrow> runs M i {} (a_term G i + 1) is_leader (snd r) G2"
      using satD[OF sat' G1(2) run] unfolding r' by blast
    show ?thesis using rtranclp_trans[OF G1(1) G2(1)] G2(2,3) runs_synced by blast
  next
    case False
    then have "snd r = snd (m n0)" "fst r = Ok () \<longrightarrow> fst (m n0) = Ok ()"
      by (cases "m n0"; cases "fst (m n0)"; simp add: r)+
    then show ?thesis using G1 runs_synced by metis
  qed
qed

section \<open>Clusters\<close>

definition cluster_rel :: "node_id set \<Rightarrow> ('l, 's) cluster \<Rightarrow> rstate \<Rightarrow> bool" where
  "cluster_rel M C G = ((\<forall>i\<in>M. invar (n_log (cl_nodes C i)) \<and> abst (n_log (cl_nodes C i)) = rl G i \<and>
      (i \<in> cl_alive C \<longrightarrow> corr M i (cl_nodes C i) G \<and> synced M i (cl_nodes C i) G)) \<and> cl_net C \<subseteq> a_net G)"

lemma cluster_rel_ran:
  assumes "cluster_rel M C G" "raft_steps M i G G'" "i \<in> M" "corr M i (snd r) G'" "fst r = Ok () \<longrightarrow> synced M i (snd r) G'"
  shows "cluster_rel M (node_ran C i r) G'"
proof -
  have other: "rl G' j = rl G j" "a_role G' j = a_role G j" if "j \<noteq> i" for j
    using raft_steps_others[OF assms(2), of j] that by simp_all
  have net: "a_net G \<subseteq> a_net G'" using raft_steps_others[OF assms(2)] by simp
  have t: "a_term G' j = a_term G j" if "j \<noteq> i" for j using other(1)[OF that] by (simp add: rl_def)
  show ?thesis
    unfolding cluster_rel_def
  proof (intro conjI ballI)
    fix j assume j: "j \<in> M"
    let ?n = "cl_nodes (node_ran C i r) j"
    show "invar (n_log ?n)" "abst (n_log ?n) = rl G' j"
      using assms(1,4) j other(1) by (auto simp: cluster_rel_def node_ran_def corr_def case_prod_unfold)
    show "j \<in> cl_alive (node_ran C i r) \<longrightarrow> corr M j ?n G' \<and> synced M j ?n G'"
    proof (cases "j = i")
      case True
      then show ?thesis using assms(4,5) by (auto simp: node_ran_def case_prod_unfold split: if_splits)
    next
      case False
      then have "?n = cl_nodes C j" "j \<in> cl_alive (node_ran C i r) \<longleftrightarrow> j \<in> cl_alive C"
        by (auto simp: node_ran_def case_prod_unfold)
      then show ?thesis using assms(1) j other[OF False] net
        by (auto simp: cluster_rel_def corr_def synced_def)
    qed
  next
    have "set (n_tx (snd r)) \<subseteq> a_net G'" using assms(4) by (simp add: corr_def)
    then show "cl_net (node_ran C i r) \<subseteq> a_net G'"
      using assms(1) net by (auto simp: cluster_rel_def node_ran_def case_prod_unfold)
  qed
qed

lemma cluster_rel_inject:
  assumes "cluster_rel M C G"
  shows "cluster_rel M (C\<lparr>cl_net := insert e (cl_net C)\<rparr>) (G\<lparr>a_net := insert e (a_net G)\<rparr>)"
  using assms by (auto simp: cluster_rel_def corr_def synced_def rl_def)

lemma cluster_step_sim:
  assumes "cluster_step L S reopen M C C'" "cluster_rel M C G" "finite M"
    and reopen: "\<And>l l'. reopen l l' \<Longrightarrow> invar l \<Longrightarrow> invar l' \<and> (\<exists>c\<le>r_commit (abst l). abst l' = (abst l)\<lparr>r_commit := c\<rparr>)"
  shows "\<exists>G' i. (i \<in> M \<or> G' = G) \<and> raft_steps M i G G' \<and> cluster_rel M C' G'"
  using assms(1)
proof cases
  case (deliver e i)
  then have "e \<in> a_net G" "corr M i (cl_nodes C i) G" "synced M i (cl_nodes C i) G"
    using assms(2) unfolding cluster_rel_def by blast+
  from node_step_sim[OF this(2,3,1) deliver(4,3)] obtain G' where G': "raft_steps M i G G'"
      "corr M i (snd (node_step L S e (cl_nodes C i))) G'"
      "fst (node_step L S e (cl_nodes C i)) = Ok () \<longrightarrow> synced M i (snd (node_step L S e (cl_nodes C i))) G'"
    by blast
  from cluster_rel_ran[OF assms(2) G'(1) deliver(5) G'(2,3)] G'(1) deliver(5) show ?thesis unfolding deliver(1) by blast
next
  case (tick i)
  then have "corr M i (cl_nodes C i) G" "synced M i (cl_nodes C i) G"
    using assms(2) unfolding cluster_rel_def by blast+
  from node_tick_sim[OF this] obtain G' where G': "raft_steps M i G G'"
      "corr M i (snd (node_tick L S (cl_nodes C i))) G'"
      "fst (node_tick L S (cl_nodes C i)) = Ok () \<longrightarrow> synced M i (snd (node_tick L S (cl_nodes C i))) G'"
    by blast
  from cluster_rel_ran[OF assms(2) G'(1) tick(2) G'(2,3)] G'(1) tick(2) show ?thesis unfolding tick(1) by blast
next
  case (client i k req)
  then have c: "corr M i (cl_nodes C i) G" using assms(2) unfolding cluster_rel_def by blast
  define e where "e = \<lparr>env_from = i, env_term = a_term G i, env_to = i, env_message = ClientRequest k req\<rparr>"
  let ?G = "G\<lparr>a_net := insert e (a_net G)\<rparr>"
  have "raft_step M i G ?G" unfolding e_def by (rule raft_step.send) simp
  moreover have "cluster_rel M C' ?G"
    using assms(2) unfolding client(1) corr_reads(2)[OF c] e_def[symmetric] by (rule cluster_rel_inject)
  ultimately show ?thesis using client(2) by blast
next
  case (stop i)
  then have "cluster_rel M C' G" using assms(2) by (auto simp: cluster_rel_def)
  then show ?thesis by blast
next
  case (restart i l st opts rng)
  have l0: "invar (n_log (cl_nodes C i))" "abst (n_log (cl_nodes C i)) = rl G i"
    using assms(2) restart(2) unfolding cluster_rel_def by blast+
  obtain c where l: "invar l" "c \<le> r_commit (rl G i)" "abst l = (rl G i)\<lparr>r_commit := c\<rparr>"
    using reopen[OF restart(4) l0(1)] l0(2) by auto
  define G1 where "G1 = G\<lparr>a_role := (a_role G)(i := AFollower)\<rparr>"
  define G2 where "G2 = G1\<lparr>a_commit := (a_commit G1)(i := c)\<rparr>"
  have "raft_step M i G G1" unfolding G1_def by (rule raft_step.step_down)
  moreover have "raft_step M i G1 G2"
    unfolding G2_def by (rule raft_step.lose_commit) (use l(2) in \<open>simp add: rl_def G1_def\<close>)
  ultimately have G2: "raft_steps M i G G2" by simp
  have "abst l = rl G2 i" "a_role G2 i = AFollower" using l(3) by (simp_all add: rl_def G1_def G2_def)
  from node_new_sim[OF l(1) this(1) restart(2) assms(3) this(2) refl, of S st opts rng] obtain G' where G': "raft_steps M i G2 G'"
      "corr M i (snd (node_new L S i (M - {i}) l st opts rng)) G'"
      "fst (node_new L S i (M - {i}) l st opts rng) = Ok () \<longrightarrow> synced M i (snd (node_new L S i (M - {i}) l st opts rng)) G'"
    by blast
  have "raft_steps M i G G'" by (rule rtranclp_trans[OF G2 G'(1)])
  from cluster_rel_ran[OF assms(2) this restart(2) G'(2,3)] this show ?thesis
    unfolding restart(1) using restart(2) by blast
qed

lemma raft_steps_reachable:
  assumes "raft_steps M i G G'" "raft_reachable M G" "i \<in> M"
  shows "raft_reachable M G'"
  using assms by (induction rule: rtranclp_induct) (auto intro: raft_reachable.step)

lemma cluster_refines:
  assumes "cluster_reachable L S reopen M logs C" "finite M"
    and reopen: "\<And>l l'. reopen l l' \<Longrightarrow> invar l \<Longrightarrow> invar l' \<and> (\<exists>c\<le>r_commit (abst l). abst l' = (abst l)\<lparr>r_commit := c\<rparr>)"
    and logs: "\<And>i. i \<in> M \<Longrightarrow> invar (logs i) \<and> abst (logs i) = \<lparr>r_term = 0, r_vote = None, r_entries = [], r_commit = 0\<rparr>"
  shows "\<exists>G. raft_reachable M G \<and> cluster_rel M C G"
  using assms(1)
proof induction
  case (start C)
  then have "cluster_rel M C raft_init" using logs by (auto simp: cluster_rel_def raft_init_def rl_def)
  then show ?case using raft_reachable.init by blast
next
  case (step C C')
  then obtain G where G: "raft_reachable M G" "cluster_rel M C G" by blast
  from cluster_step_sim[OF step(2) G(2) assms(2) reopen] obtain G' i
    where "i \<in> M \<or> G' = G" "raft_steps M i G G'" "cluster_rel M C' G'" by blast
  then show ?case using raft_steps_reachable G(1) by blast
qed

end

end
