(* ===== verification/Raft_Properties.thy ===== *)
theory Raft_Properties
  imports Raft_Refinement
begin

text \<open>
  What the Raft code guarantees for a whole cluster, over any storage engine: the nodes refine the Raft
  protocol, so there is at most one leader in a term, logs that agree at a position agree up to it,
  committed entries are the same everywhere and every later leader has them. The network may lose,
  delay, duplicate and reorder messages and any node may stop at any moment.
\<close>

section \<open>Clusters over an engine\<close>

definition empty_rlog :: rlog where
  "empty_rlog = \<lparr>r_term = 0, r_vote = None, r_entries = [], r_commit = 0\<rparr>"

text \<open>A node restarts with \<^verbatim>\<open>Log::new\<close> on an engine that holds the log as it was when the node stopped,
  except that the commit position, the only write that is not flushed, may be an earlier one.\<close>

definition reopens ::
    "'e engine_ops \<Rightarrow> ('e \<Rightarrow> bool) \<Rightarrow> ('e \<Rightarrow> memory) \<Rightarrow> raft_codec \<Rightarrow> 'e raft_log \<Rightarrow> 'e raft_log \<Rightarrow> bool" where
  "reopens ops invar abst bc l l' = (\<exists>R c e. represents invar abst bc l R \<and> c \<le> r_commit R \<and> invar e \<and>
     abst e = log_memory bc (R\<lparr>r_commit := c\<rparr>) \<and> log_new ops bc e = (Ok l', e))"

text \<open>The states a cluster with members \<open>M\<close> can reach from empty logs.\<close>

definition raft_cluster ::
    "'e engine_ops \<Rightarrow> ('e \<Rightarrow> bool) \<Rightarrow> ('e \<Rightarrow> memory) \<Rightarrow> raft_codec \<Rightarrow> 's state_ops \<Rightarrow> node_id set \<Rightarrow>
     ('e raft_log, 's) cluster \<Rightarrow> bool" where
  "raft_cluster ops invar abst bc S M C = (\<exists>logs. (\<forall>i\<in>M. represents invar abst bc (logs i) empty_rlog) \<and>
     cluster_reachable (engine_log ops bc) S (reopens ops invar abst bc) M logs C)"

text \<open>A cluster in a state of the protocol.\<close>

definition in_protocol_state ::
    "('e \<Rightarrow> bool) \<Rightarrow> ('e \<Rightarrow> memory) \<Rightarrow> raft_codec \<Rightarrow> node_id set \<Rightarrow> ('e raft_log, 's) cluster \<Rightarrow> rstate \<Rightarrow> bool" where
  "in_protocol_state invar abst bc M C G =
     ((\<forall>i\<in>M. represents invar abst bc (n_log (cl_nodes C i)) (rl G i) \<and>
        (i \<in> cl_alive C \<longrightarrow> a_role G i = role_view (n_role (cl_nodes C i)))) \<and> cl_net C \<subseteq> a_net G)"

lemma in_protocol_stateD:
  assumes "in_protocol_state invar abst bc M C G" "i \<in> M"
  shows "represents invar abst bc (n_log (cl_nodes C i)) (rl G i)"
    "i \<in> cl_alive C \<Longrightarrow> a_role G i = role_view (n_role (cl_nodes C i))"
  using assms unfolding in_protocol_state_def by blast+

lemma reopens_law:
  assumes "engine ops invar abst" "raft_codec_ok bc" "reopens ops invar abst bc l l'" "represents invar abst bc l R"
  shows "\<exists>c\<le>r_commit R. represents invar abst bc l' (R\<lparr>r_commit := c\<rparr>)"
proof -
  obtain R' c e where e: "represents invar abst bc l R'" "c \<le> r_commit R'" "invar e"
      "abst e = log_memory bc (R'\<lparr>r_commit := c\<rparr>)" "log_new ops bc e = (Ok l', e)"
    using assms(3) by (auto simp: reopens_def)
  have R: "R' = R" using e(1) assms(4) unfolding represents_iff[OF assms(2)] by simp
  let ?R = "R\<lparr>r_commit := c\<rparr>"
  have wf: "rlog_wf ?R" using assms(4) e(2) R by (simp add: represents_def log_rel_def rlog_wf_def)
  let ?l = "\<lparr>log_engine = e, log_term = r_term ?R, log_vote = r_vote ?R, last_index = length (r_entries ?R),
     last_term = term_at (r_entries ?R) (length (r_entries ?R)), commit_index = r_commit ?R,
     commit_term = term_at (r_entries ?R) (r_commit ?R), fsync = True\<rparr>"
  have "log_store bc ?R (abst e)" using log_store_iff[OF wf] e(4) R by simp
  then have "represents invar abst bc ?l ?R" using e(3) wf by (simp add: represents_def log_rel_def lift_log_def)
  from engine_codec.log_restart[OF engine_codecI[OF assms(1,2)] this] obtain l'' where
    "log_new ops bc e = (Ok l'', e)" "represents invar abst bc l'' ?R" by auto
  then show ?thesis using e(2,5) R by auto
qed

context engine_codec
begin

lemmas engine_cluster_refines = log.cluster_refines[unfolded log.cluster_rel_def]

end

lemma raft_cluster_refines:
  assumes "engine ops invar abst" "raft_codec_ok bc" "finite M" "raft_cluster ops invar abst bc S M C"
  shows "\<exists>G. raft_reachable M G \<and> in_protocol_state invar abst bc M C G"
proof -
  note codec = engine_codecI[OF assms(1,2)]
  note rep = represents_iff[OF assms(2), of invar abst]
  obtain logs where logs: "\<And>i. i \<in> M \<Longrightarrow> represents invar abst bc (logs i) empty_rlog"
      "cluster_reachable (engine_log ops bc) S (reopens ops invar abst bc) M logs C"
    using assms(4) unfolding raft_cluster_def by blast
  have "invar (log_engine l') \<and> log_invar bc (lift_log abst l') \<and>
      (\<exists>c\<le>r_commit (rlog_of bc (lift_log abst l)). rlog_of bc (lift_log abst l') = (rlog_of bc (lift_log abst l))\<lparr>r_commit := c\<rparr>)"
    if "reopens ops invar abst bc l l'" "invar (log_engine l) \<and> log_invar bc (lift_log abst l)" for l l'
    using reopens_law[OF assms(1,2) that(1), of "rlog_of bc (lift_log abst l)"] that(2) unfolding rep by blast
  moreover have "invar (log_engine (logs i)) \<and> log_invar bc (lift_log abst (logs i)) \<and>
      rlog_of bc (lift_log abst (logs i)) = \<lparr>r_term = 0, r_vote = None, r_entries = [], r_commit = 0\<rparr>" if "i \<in> M" for i
    using logs(1)[OF that] unfolding rep empty_rlog_def by blast
  ultimately obtain G where G: "raft_reachable M G" and rel:
    "\<forall>i\<in>M. (invar (log_engine (n_log (cl_nodes C i))) \<and> log_invar bc (lift_log abst (n_log (cl_nodes C i)))) \<and>
        rlog_of bc (lift_log abst (n_log (cl_nodes C i))) = rl G i \<and>
        (i \<in> cl_alive C \<longrightarrow> synced M i (cl_nodes C i) G)" "cl_net C \<subseteq> a_net G"
    using engine_codec.engine_cluster_refines[OF codec logs(2) assms(3)] by blast
  have "in_protocol_state invar abst bc M C G"
    unfolding in_protocol_state_def rep using rel by (auto simp: synced_def)
  then show ?thesis using G by blast
qed
lemma represents_reads:
  assumes "engine ops invar abst" "raft_codec_ok bc" "represents invar abst bc l R"
  shows "k < u64_limit \<Longrightarrow> fst (log_get ops bc k l) = Ok (r_get R k)" "commit_index l = r_commit R" "log_term l = r_term R"
    "length (r_entries R) < u64_limit" "r_commit R \<le> length (r_entries R)"
  using engine_codec.log_reads(1)[OF engine_codecI[OF assms(1,2)] assms(3), of k] assms(3)
  by (simp_all add: represents_def log_rel_def lift_log_def rlog_wf_def)

lemma r_get_take:
  assumes "take p (r_entries R) = take p (r_entries R')" "k \<le> p" "p \<le> length (r_entries R)"
  shows "r_get R k = r_get R' k"
proof (cases "0 < k")
  case True
  have "p \<le> length (r_entries R')" by (rule take_eq_length[OF assms(1)[symmetric] assms(3)])
  moreover have "take p (r_entries R) ! (k - 1) = take p (r_entries R') ! (k - 1)" using assms(1) by simp
  then have "r_entries R ! (k - 1) = r_entries R' ! (k - 1)" using True assms(2) by simp
  ultimately show ?thesis using assms(2,3) by (simp add: r_get_def)
qed (simp add: r_get_def)

section \<open>Properties\<close>

text \<open>C5 A cluster of nodes refines the Raft protocol: every state that a cluster can reach, over any
  storage engine, through message delivery in any order, ticks, client requests, stops and restarts,
  corresponds to a reachable state of the protocol. Every node's log represents the protocol's log,
  every running node is in the protocol's role, and every message on the network was sent by a step of
  the protocol.\<close>
theorem cluster_refines_protocol:
  assumes "engine ops invar abst" "raft_codec_ok bc" "finite M" "raft_cluster ops invar abst bc S M C"
  shows "\<exists>G. raft_reachable M G \<and> in_protocol_state invar abst bc M C G"
  by (rule raft_cluster_refines[OF assms])

text \<open>C7 Election safety: two running nodes of a cluster that are both leaders in the same term are the
  same node.\<close>
theorem cluster_election_safety:
  assumes "engine ops invar abst" "raft_codec_ok bc" "finite M" "raft_cluster ops invar abst bc S M C"
    "i \<in> M" "j \<in> M" "i \<in> cl_alive C" "j \<in> cl_alive C"
    "n_role (cl_nodes C i) = Leader l" "n_role (cl_nodes C j) = Leader l'"
    "node_term (engine_log ops bc) (cl_nodes C i) = node_term (engine_log ops bc) (cl_nodes C j)"
  shows "i = j"
proof -
  obtain G where G: "raft_reachable M G" "in_protocol_state invar abst bc M C G"
    using raft_cluster_refines[OF assms(1-4)] by blast
  have "node_term (engine_log ops bc) (cl_nodes C k) = a_term G k" if "k \<in> M" for k
    using represents_reads(3)[OF assms(1,2) in_protocol_stateD(1)[OF G(2) that]]
    by (simp add: node_term_def engine_log_def get_term_vote_def rl_def)
  then have t: "a_term G i = a_term G j" using assms(5,6,11) by simp
  have "a_role G i = ALeader (progress_match (ld_progress l))" "a_role G j = ALeader (progress_match (ld_progress l'))"
    using in_protocol_stateD(2)[OF G(2) assms(5,7)] in_protocol_stateD(2)[OF G(2) assms(6,8)] assms(9,10) by simp_all
  from inv_election_safety[OF raft_reachable_inv[OF G(1)] this t] show ?thesis .
qed

text \<open>C9 Log matching: when the logs of two nodes of a cluster, running or not, hold entries of the same
  term at an index, they hold the same entry at every index up to it.\<close>
theorem cluster_log_matching:
  assumes "engine ops invar abst" "raft_codec_ok bc" "finite M" "raft_cluster ops invar abst bc S M C"
    "i \<in> M" "j \<in> M" "p < u64_limit" "fst (log_get ops bc p (n_log (cl_nodes C i))) = Ok (Some x)"
    "fst (log_get ops bc p (n_log (cl_nodes C j))) = Ok (Some y)" "e_term x = e_term y" "k \<le> p"
  shows "fst (log_get ops bc k (n_log (cl_nodes C i))) = fst (log_get ops bc k (n_log (cl_nodes C j)))"
proof -
  obtain G where G: "raft_reachable M G" "in_protocol_state invar abst bc M C G"
    using raft_cluster_refines[OF assms(1-4)] by blast
  note i = represents_reads[OF assms(1,2) in_protocol_stateD(1)[OF G(2) assms(5)]] and j = represents_reads[OF assms(1,2) in_protocol_stateD(1)[OF G(2) assms(6)]]
  have p: "0 < p" "p \<le> length (a_log G i)" "p \<le> length (a_log G j)" "term_at (a_log G i) p = term_at (a_log G j) p"
    using assms(8-10) unfolding i(1)[OF assms(7)] j(1)[OF assms(7)]
    by (auto simp: r_get_def rl_def term_at_def split: if_splits)
  from inv_log_matching[OF raft_reachable_inv[OF G(1)] p(2-4)]
  have "r_get (rl G i) k = r_get (rl G j) k" using p(2) assms(11) by (intro r_get_take[of p]) (simp_all add: rl_def)
  then show ?thesis using i(1) j(1) assms(7,11) by simp
qed

text \<open>C6 State machine safety: two nodes of a cluster, running or not, hold the same entry at every index
  that both have committed, so no two state machines apply different commands at an index.\<close>
theorem cluster_state_machine_safety:
  assumes "engine ops invar abst" "raft_codec_ok bc" "finite M" "raft_cluster ops invar abst bc S M C"
    "i \<in> M" "j \<in> M" "0 < k" "k \<le> commit_index (n_log (cl_nodes C i))" "k \<le> commit_index (n_log (cl_nodes C j))"
  shows "\<exists>x. fst (log_get ops bc k (n_log (cl_nodes C i))) = Ok (Some x) \<and>
    fst (log_get ops bc k (n_log (cl_nodes C j))) = Ok (Some x)"
proof -
  obtain G where G: "raft_reachable M G" "in_protocol_state invar abst bc M C G"
    using raft_cluster_refines[OF assms(1-4)] by blast
  note i = represents_reads[OF assms(1,2) in_protocol_stateD(1)[OF G(2) assms(5)]] and j = represents_reads[OF assms(1,2) in_protocol_stateD(1)[OF G(2) assms(6)]]
  have c: "k \<le> a_commit G i" "k \<le> a_commit G j" "k \<le> length (a_log G i)" "k < u64_limit"
    using assms(8,9) i(2,4,5) j(2) by (simp_all add: rl_def)
  from inv_state_machine_safety[OF raft_reachable_inv[OF G(1)] c(1,2)]
  have "r_get (rl G i) k = r_get (rl G j) k" using c(3) by (intro r_get_take[of k]) (simp_all add: rl_def)
  moreover have "\<exists>x. r_get (rl G i) k = Some x" using c(3) assms(7) by (simp add: r_get_def rl_def)
  ultimately show ?thesis using i(1)[OF c(4)] j(1)[OF c(4)] by auto
qed

text \<open>C8 Leader completeness: a running leader holds every entry that any node of the cluster in an earlier
  or the same term, running or not, has committed.\<close>
theorem cluster_leader_completeness:
  assumes "engine ops invar abst" "raft_codec_ok bc" "finite M" "raft_cluster ops invar abst bc S M C"
    "i \<in> M" "j \<in> M" "i \<in> cl_alive C" "n_role (cl_nodes C i) = Leader l"
    "log_term (n_log (cl_nodes C j)) \<le> log_term (n_log (cl_nodes C i))"
    "0 < k" "k \<le> commit_index (n_log (cl_nodes C j))"
  shows "\<exists>x. fst (log_get ops bc k (n_log (cl_nodes C j))) = Ok (Some x) \<and>
    fst (log_get ops bc k (n_log (cl_nodes C i))) = Ok (Some x)"
proof -
  obtain G where G: "raft_reachable M G" "in_protocol_state invar abst bc M C G"
    using raft_cluster_refines[OF assms(1-4)] by blast
  note i = represents_reads[OF assms(1,2) in_protocol_stateD(1)[OF G(2) assms(5)]] and j = represents_reads[OF assms(1,2) in_protocol_stateD(1)[OF G(2) assms(6)]]
  have t: "a_term G j \<le> a_term G i" using assms(9) i(3) j(3) by (simp add: rl_def)
  have r: "a_role G i = ALeader (progress_match (ld_progress l))" using in_protocol_stateD(2)[OF G(2) assms(5,7)] assms(8) by simp
  have c: "k \<le> a_commit G j" "a_commit G j \<le> length (a_log G j)" "k < u64_limit"
    using assms(11) j(2,4,5) by (simp_all add: rl_def)
  from inv_leader_complete[OF raft_reachable_inv[OF G(1)] r t]
  have "r_get (rl G j) k = r_get (rl G i) k" using c by (intro r_get_take[of "a_commit G j"]) (simp_all add: rl_def)
  moreover have "\<exists>x. r_get (rl G j) k = Some x" using c(1,2) assms(10) by (simp add: r_get_def rl_def)
  ultimately show ?thesis using i(1)[OF c(3)] j(1)[OF c(3)] by auto
qed
section \<open>A run of a cluster of two nodes\<close>

text \<open>Executable schedules of a cluster over the memory engine. Events that are not enabled are skipped.\<close>

datatype cluster_event = Start node_id | Tick node_id | Deliver envelope

definition sample_state_ops :: "nat state_ops" where
  "sample_state_ops = \<lparr>st_applied_index = (\<lambda>s. s), st_apply = (\<lambda>e s. (Ok [], e_index e)), st_read = (\<lambda>c s. Ok [])\<rparr>"

abbreviation sample_log_ops :: "memory raft_log log_ops" where
  "sample_log_ops \<equiv> engine_log memory_ops sample_raft_codec"

definition sample_options :: options where
  "sample_options = \<lparr>heartbeat_interval = 1, election_timeout_range = (1, 2), max_append_entries = 10\<rparr>"

fun run_event :: "node_id list \<Rightarrow> cluster_event \<Rightarrow> (memory raft_log, nat) cluster \<Rightarrow> (memory raft_log, nat) cluster" where
  "run_event members (Start i) C =
     (if i \<in> set members \<and> i \<notin> cl_alive C then
        case log_new memory_ops sample_raft_codec (log_engine (n_log (cl_nodes C i))) of
          (Ok l, m) \<Rightarrow> node_ran C i (node_new sample_log_ops sample_state_ops i (set members - {i}) l 0 sample_options (\<lambda>_. 1))
        | _ \<Rightarrow> C
      else C)"
| "run_event members (Tick i) C =
     (if i \<in> set members \<and> i \<in> cl_alive C
      then node_ran C i (node_tick sample_log_ops sample_state_ops (cl_nodes C i)) else C)"
| "run_event members (Deliver e) C =
     (if e \<in> cl_net C \<and> env_u64 e \<and> env_to e \<in> set members \<and> env_to e \<in> cl_alive C
      then node_ran C (env_to e) (node_step sample_log_ops sample_state_ops e (cl_nodes C (env_to e))) else C)"

definition empty_log :: "memory raft_log" where
  "empty_log = \<lparr>log_engine = [], log_term = 0, log_vote = None, last_index = 0, last_term = 0,
     commit_index = 0, commit_term = 0, fsync = True\<rparr>"

definition start_node :: "(memory raft_log, nat) node" where
  "start_node = \<lparr>n_id = 0, n_peers = {}, n_log = empty_log, n_state = 0, n_tx = [], n_opts = sample_options,
     n_rng = (\<lambda>_. 1), n_role = Follower (follower_new None 0)\<rparr>"

definition start_cluster :: "(memory raft_log, nat) cluster" where
  "start_cluster = \<lparr>cl_nodes = (\<lambda>_. start_node), cl_alive = {}, cl_net = {}\<rparr>"

abbreviation sample_cluster :: "node_id list \<Rightarrow> (memory raft_log, nat) cluster \<Rightarrow> bool" where
  "sample_cluster members \<equiv> raft_cluster memory_ops (\<lambda>m. ordered m) (\<lambda>m. m) sample_raft_codec sample_state_ops (set members)"

lemma start_cluster_reachable: "sample_cluster members start_cluster"
proof -
  have "represents (\<lambda>m. ordered m) (\<lambda>m. m) sample_raft_codec empty_log empty_rlog"
    using represents_new[of "\<lambda>m. ordered m" "[]" "\<lambda>m. m" sample_raft_codec] by (simp add: empty_log_def empty_rlog_def)
  then show ?thesis
    unfolding raft_cluster_def
    by (intro exI[of _ "\<lambda>_. empty_log"]) (auto intro!: cluster_reachable.start simp: start_cluster_def start_node_def)
qed

lemma sample_cluster_step:
  assumes "sample_cluster members C"
    "cluster_step sample_log_ops sample_state_ops (reopens memory_ops (\<lambda>m. ordered m) (\<lambda>m. m) sample_raft_codec) (set members) C C'"
  shows "sample_cluster members C'"
  using assms unfolding raft_cluster_def by (blast intro: cluster_reachable.step)

lemma run_event_reachable:
  assumes "sample_cluster members C"
  shows "sample_cluster members (run_event members ev C)"
proof (cases ev)
  case (Start i)
  show ?thesis
  proof (cases "i \<in> set members \<and> i \<notin> cl_alive C")
    case True
    obtain G where "in_protocol_state (\<lambda>m. ordered m) (\<lambda>m. m) sample_raft_codec (set members) C G"
      using raft_cluster_refines[OF mem.engine_axioms sample_raft_codec_ok _ assms] by blast
    from in_protocol_stateD(1)[OF this] True have rep:
      "represents (\<lambda>m. ordered m) (\<lambda>m. m) sample_raft_codec (n_log (cl_nodes C i)) (rl G i)" by blast
    from engine_codec.log_restart[OF engine_codecI[OF mem.engine_axioms sample_raft_codec_ok] rep] obtain l where
      l: "log_new memory_ops sample_raft_codec (log_engine (n_log (cl_nodes C i))) = (Ok l, log_engine (n_log (cl_nodes C i)))"
      by blast
    have "rlog_wf (rl G i)" "log_store sample_raft_codec (rl G i) (log_engine (n_log (cl_nodes C i)))"
      "ordered (log_engine (n_log (cl_nodes C i)))"
      using rep by (simp_all add: represents_def log_rel_def lift_log_def)
    then have "reopens memory_ops (\<lambda>m. ordered m) (\<lambda>m. m) sample_raft_codec (n_log (cl_nodes C i)) l"
      unfolding reopens_def using rep l log_store_iff[of "rl G i" sample_raft_codec "log_engine (n_log (cl_nodes C i))"]
      by (intro exI[of _ "rl G i"] exI[of _ "r_commit (rl G i)"] exI[of _ "log_engine (n_log (cl_nodes C i))"]) auto
    then have "cluster_step sample_log_ops sample_state_ops (reopens memory_ops (\<lambda>m. ordered m) (\<lambda>m. m) sample_raft_codec)
        (set members) C (run_event members (Start i) C)"
      using True l by (auto intro: cluster_step.restart)
    then show ?thesis unfolding Start by (rule sample_cluster_step[OF assms])
  qed (use Start assms in auto)
next
  case (Tick i)
  then show ?thesis using assms sample_cluster_step[OF assms cluster_step.tick] by simp
next
  case (Deliver e)
  then show ?thesis using assms sample_cluster_step[OF assms cluster_step.deliver[OF _ _ refl]] by simp
qed

lemma run_reachable: "sample_cluster members (fold (run_event members) evs start_cluster)"
  using start_cluster_reachable
proof (rule fold_invariant[where Q = "\<lambda>_. True", rotated 1])
qed (simp_all add: run_event_reachable)
text \<open>An election, the replication of the leader's first entry to the other node, and its commit.\<close>

definition sample_events :: "cluster_event list" where
  "sample_events = [Start 1, Start 2, Tick 1,
     Deliver \<lparr>env_from = 1, env_term = 1, env_to = 2, env_message = Campaign 0 0\<rparr>,
     Deliver \<lparr>env_from = 2, env_term = 1, env_to = 1, env_message = CampaignResponse True\<rparr>,
     Deliver \<lparr>env_from = 1, env_term = 1, env_to = 2,
       env_message = Append 0 0 [\<lparr>e_index = 1, e_term = 1, e_command = None\<rparr>]\<rparr>,
     Deliver \<lparr>env_from = 2, env_term = 1, env_to = 1, env_message = AppendResponse 1 0\<rparr>,
     Tick 1,
     Deliver \<lparr>env_from = 1, env_term = 1, env_to = 2, env_message = Heartbeat 1 1 0\<rparr>]"

definition sample_run :: "(memory raft_log, nat) cluster" where
  "sample_run = fold (run_event [1, 2]) sample_events start_cluster"



text \<open>What the run shows of a node: its term, its commit position, whether it runs, whether it leads, and
  its first entry.\<close>

definition observe :: "(memory raft_log, nat) cluster \<Rightarrow> node_id \<Rightarrow> nat \<times> nat \<times> bool \<times> bool \<times> entry option result" where
  "observe C i = (case cl_nodes C i of n \<Rightarrow> (log_term (n_log n), commit_index (n_log n), i \<in> cl_alive C,
     (case n_role n of Leader l \<Rightarrow> True | _ \<Rightarrow> False), fst (log_get memory_ops sample_raft_codec 1 (n_log n))))"

lemma sample_run_observed:
  "map (observe sample_run) [1, 2] =
    [(1, 1, True, True, Ok (Some \<lparr>e_index = 1, e_term = 1, e_command = None\<rparr>)),
     (1, 1, True, False, Ok (Some \<lparr>e_index = 1, e_term = 1, e_command = None\<rparr>))]"
  by code_simp

lemma sample_run_reachable: "sample_cluster [1, 2] sample_run"
  by (simp only: sample_run_def run_reachable)

lemma sample_run_facts:
  "i \<in> set [1, 2] \<Longrightarrow> log_term (n_log (cl_nodes sample_run i)) = 1"
  "i \<in> set [1, 2] \<Longrightarrow> commit_index (n_log (cl_nodes sample_run i)) = 1"
  "i \<in> set [1, 2] \<Longrightarrow> i \<in> cl_alive sample_run"
  "i \<in> set [1, 2] \<Longrightarrow> fst (log_get memory_ops sample_raft_codec 1 (n_log (cl_nodes sample_run i))) =
     Ok (Some \<lparr>e_index = 1, e_term = 1, e_command = None\<rparr>)"
  "\<exists>l. n_role (cl_nodes sample_run 1) = Leader l"
  using sample_run_observed by (auto simp: observe_def split: role.splits)

lemmas sample_run_hyps = mem.engine_axioms sample_raft_codec_ok List.finite_set sample_run_reachable

theorem cluster_refines_protocol_witness:
  "\<exists>G. raft_reachable (set [1, 2]) G \<and>
     in_protocol_state (\<lambda>m. ordered m) (\<lambda>m. m) sample_raft_codec (set [1, 2]) sample_run G"
  by (rule cluster_refines_protocol[OF sample_run_hyps])

theorem cluster_election_safety_witness:
  "\<exists>l. n_role (cl_nodes sample_run 1) = Leader l \<and> (1 :: node_id) = 1"
proof -
  obtain l where l: "n_role (cl_nodes sample_run 1) = Leader l" using sample_run_facts(5) by blast
  have "(1 :: node_id) = 1"
    by (rule cluster_election_safety[OF sample_run_hyps _ _ _ _ l l refl]) (simp_all add: sample_run_facts(3))
  then show ?thesis using l by blast
qed

theorem cluster_log_matching_witness:
  "fst (log_get memory_ops sample_raft_codec 1 (n_log (cl_nodes sample_run 1))) =
   fst (log_get memory_ops sample_raft_codec 1 (n_log (cl_nodes sample_run 2)))"
  by (rule cluster_log_matching[OF sample_run_hyps, of 1 2 1, OF _ _ _ sample_run_facts(4) sample_run_facts(4) refl])
    (simp_all add: u64_limit_def)

theorem cluster_state_machine_safety_witness:
  "\<exists>x. fst (log_get memory_ops sample_raft_codec 1 (n_log (cl_nodes sample_run 1))) = Ok (Some x) \<and>
     fst (log_get memory_ops sample_raft_codec 1 (n_log (cl_nodes sample_run 2))) = Ok (Some x)"
  by (rule cluster_state_machine_safety[OF sample_run_hyps]) (simp_all add: sample_run_facts(2))

theorem cluster_leader_completeness_witness:
  "\<exists>x. fst (log_get memory_ops sample_raft_codec 1 (n_log (cl_nodes sample_run 2))) = Ok (Some x) \<and>
     fst (log_get memory_ops sample_raft_codec 1 (n_log (cl_nodes sample_run 1))) = Ok (Some x)"
proof -
  obtain l where l: "n_role (cl_nodes sample_run 1) = Leader l" using sample_run_facts(5) by blast
  show ?thesis
    by (rule cluster_leader_completeness[OF sample_run_hyps _ _ _ l]) (simp_all add: sample_run_facts(1-3))
qed

end
