(* ===== verification/Sql_Ast.thy ===== *)
theory Sql_Ast
  imports Errors
begin

text \<open>
  Tokens, keywords and the abstract syntax of SQL: \<^verbatim>\<open>src/sql/parser/ast.rs\<close>, the data types of
  \<^verbatim>\<open>lexer.rs\<close> and the parse errors of \<^verbatim>\<open>parse_error.rs\<close>. A Rust \<^verbatim>\<open>String\<close> is the list of its
  Unicode scalar values (\<open>ustring\<close>); its order is the order of the UTF-8 encodings, since UTF-8
  keeps the order of the scalars. An \<^verbatim>\<open>f64\<close> is the word of its IEEE 754 bits, so that equality
  of literals is the bitwise equality the source implements. The constructors carry a prefix
  for the Rust type they belong to, because HOL has one name space for the constructors
  that Rust keeps apart by type.
\<close>

type_synonym ustring = "nat list"
type_synonym f64 = "64 word"

text \<open>An ASCII literal of the source as a Rust string.\<close>

abbreviation ascii :: "string \<Rightarrow> ustring" where
  "ascii s \<equiv> map of_char s"

section \<open>Keywords and tokens\<close>

datatype keyword =
  KwAnd | KwAs | KwAsc | KwBegin | KwBool | KwBoolean | KwBy | KwCommit | KwCreate | KwCross
  | KwDefault | KwDelete | KwDesc | KwDouble | KwDrop | KwExists | KwExplain | KwFalse | KwFloat
  | KwFrom | KwGroup | KwHaving | KwIf | KwIndex | KwInfinity | KwInner | KwInsert | KwInt
  | KwInteger | KwInto | KwIs | KwJoin | KwKey | KwLeft | KwLike | KwLimit | KwNaN | KwNot
  | KwNull | KwOf | KwOffset | KwOn | KwOnly | KwOr | KwOrder | KwOuter | KwPrimary | KwRead
  | KwReferences | KwRight | KwRollback | KwSelect | KwSet | KwString | KwSystem | KwTable
  | KwText | KwTime | KwTransaction | KwTrue | KwUnique | KwUpdate | KwValues | KwVarchar
  | KwWhere | KwWrite

fun keyword_display :: "keyword \<Rightarrow> string" where
  "keyword_display KwAs = ''AS''"
| "keyword_display KwAsc = ''ASC''"
| "keyword_display KwAnd = ''AND''"
| "keyword_display KwBegin = ''BEGIN''"
| "keyword_display KwBool = ''BOOL''"
| "keyword_display KwBoolean = ''BOOLEAN''"
| "keyword_display KwBy = ''BY''"
| "keyword_display KwCommit = ''COMMIT''"
| "keyword_display KwCreate = ''CREATE''"
| "keyword_display KwCross = ''CROSS''"
| "keyword_display KwDefault = ''DEFAULT''"
| "keyword_display KwDelete = ''DELETE''"
| "keyword_display KwDesc = ''DESC''"
| "keyword_display KwDouble = ''DOUBLE''"
| "keyword_display KwDrop = ''DROP''"
| "keyword_display KwExists = ''EXISTS''"
| "keyword_display KwExplain = ''EXPLAIN''"
| "keyword_display KwFalse = ''FALSE''"
| "keyword_display KwFloat = ''FLOAT''"
| "keyword_display KwFrom = ''FROM''"
| "keyword_display KwGroup = ''GROUP''"
| "keyword_display KwHaving = ''HAVING''"
| "keyword_display KwIf = ''IF''"
| "keyword_display KwIndex = ''INDEX''"
| "keyword_display KwInfinity = ''INFINITY''"
| "keyword_display KwInner = ''INNER''"
| "keyword_display KwInsert = ''INSERT''"
| "keyword_display KwInt = ''INT''"
| "keyword_display KwInteger = ''INTEGER''"
| "keyword_display KwInto = ''INTO''"
| "keyword_display KwIs = ''IS''"
| "keyword_display KwJoin = ''JOIN''"
| "keyword_display KwKey = ''KEY''"
| "keyword_display KwLeft = ''LEFT''"
| "keyword_display KwLike = ''LIKE''"
| "keyword_display KwLimit = ''LIMIT''"
| "keyword_display KwNaN = ''NAN''"
| "keyword_display KwNot = ''NOT''"
| "keyword_display KwNull = ''NULL''"
| "keyword_display KwOf = ''OF''"
| "keyword_display KwOffset = ''OFFSET''"
| "keyword_display KwOn = ''ON''"
| "keyword_display KwOnly = ''ONLY''"
| "keyword_display KwOuter = ''OUTER''"
| "keyword_display KwOr = ''OR''"
| "keyword_display KwOrder = ''ORDER''"
| "keyword_display KwPrimary = ''PRIMARY''"
| "keyword_display KwRead = ''READ''"
| "keyword_display KwReferences = ''REFERENCES''"
| "keyword_display KwRight = ''RIGHT''"
| "keyword_display KwRollback = ''ROLLBACK''"
| "keyword_display KwSelect = ''SELECT''"
| "keyword_display KwSet = ''SET''"
| "keyword_display KwString = ''STRING''"
| "keyword_display KwSystem = ''SYSTEM''"
| "keyword_display KwTable = ''TABLE''"
| "keyword_display KwText = ''TEXT''"
| "keyword_display KwTime = ''TIME''"
| "keyword_display KwTransaction = ''TRANSACTION''"
| "keyword_display KwTrue = ''TRUE''"
| "keyword_display KwUnique = ''UNIQUE''"
| "keyword_display KwUpdate = ''UPDATE''"
| "keyword_display KwValues = ''VALUES''"
| "keyword_display KwVarchar = ''VARCHAR''"
| "keyword_display KwWhere = ''WHERE''"
| "keyword_display KwWrite = ''WRITE''"

text \<open>
  \<^verbatim>\<open>Keyword::try_from\<close> is a \<^verbatim>\<open>match\<close> on the lowercased name; the table lists its arms.
\<close>

definition keyword_table :: "(string \<times> keyword) list" where
  "keyword_table = [
     (''as'', KwAs),
     (''asc'', KwAsc),
     (''and'', KwAnd),
     (''begin'', KwBegin),
     (''bool'', KwBool),
     (''boolean'', KwBoolean),
     (''by'', KwBy),
     (''commit'', KwCommit),
     (''create'', KwCreate),
     (''cross'', KwCross),
     (''default'', KwDefault),
     (''delete'', KwDelete),
     (''desc'', KwDesc),
     (''double'', KwDouble),
     (''drop'', KwDrop),
     (''exists'', KwExists),
     (''explain'', KwExplain),
     (''false'', KwFalse),
     (''float'', KwFloat),
     (''from'', KwFrom),
     (''group'', KwGroup),
     (''having'', KwHaving),
     (''if'', KwIf),
     (''index'', KwIndex),
     (''infinity'', KwInfinity),
     (''inner'', KwInner),
     (''insert'', KwInsert),
     (''int'', KwInt),
     (''integer'', KwInteger),
     (''into'', KwInto),
     (''is'', KwIs),
     (''join'', KwJoin),
     (''key'', KwKey),
     (''left'', KwLeft),
     (''like'', KwLike),
     (''limit'', KwLimit),
     (''nan'', KwNaN),
     (''not'', KwNot),
     (''null'', KwNull),
     (''of'', KwOf),
     (''offset'', KwOffset),
     (''on'', KwOn),
     (''only'', KwOnly),
     (''or'', KwOr),
     (''order'', KwOrder),
     (''outer'', KwOuter),
     (''primary'', KwPrimary),
     (''read'', KwRead),
     (''references'', KwReferences),
     (''right'', KwRight),
     (''rollback'', KwRollback),
     (''select'', KwSelect),
     (''set'', KwSet),
     (''string'', KwString),
     (''system'', KwSystem),
     (''table'', KwTable),
     (''text'', KwText),
     (''time'', KwTime),
     (''transaction'', KwTransaction),
     (''true'', KwTrue),
     (''unique'', KwUnique),
     (''update'', KwUpdate),
     (''values'', KwValues),
     (''varchar'', KwVarchar),
     (''where'', KwWhere),
     (''write'', KwWrite)]"

definition keyword_try_from :: "ustring \<Rightarrow> keyword option" where
  "keyword_try_from name = map_of (map (\<lambda>(s, k). (ascii s, k)) keyword_table) name"

datatype token =
  TNumber bytes
| TString ustring
| TIdent ustring
| TKeyword keyword
| TPeriod | TEqual | TNotEqual | TGreaterThan | TGreaterThanOrEqual | TLessThan
| TLessThanOrEqual | TLessOrGreaterThan | TPlus | TMinus | TAsterisk | TSlash | TCaret
| TPercent | TExclamation | TQuestion | TComma | TSemicolon | TOpenParen | TCloseParen

section \<open>Parse errors\<close>

datatype parse_error =
  UnexpectedToken token
| UnexpectedEof
| ExpectedIdent token
| ExpectedToken token token
| InvalidSystemTime bytes
| WantedNumber token
| NestedExplain
| NullabilityAlreadySet ustring
| UnexpectedKeyword keyword
| DuplicateColumn ustring
| CantAliasStar
| NumberTooLarge
| InvalidFloatLiteral bytes
| ExpectedAtom token

fun render :: "parse_error \<Rightarrow> error" where
  "render (UnexpectedToken t) = InvalidInput ''unexpected token ''"
| "render UnexpectedEof = InvalidInput ''unexpected end of input''"
| "render (ExpectedIdent t) = InvalidInput ''expected identifier, got ''"
| "render (ExpectedToken e f) = InvalidInput ''expected token , found ''"
| "render (InvalidSystemTime b) = InvalidInput ''invalid system time ''"
| "render (WantedNumber t) = InvalidInput ''unexpected token , wanted number''"
| "render NestedExplain = InvalidInput ''cannot nest EXPLAIN statements''"
| "render (NullabilityAlreadySet n) = InvalidInput ''nullability already set for column ''"
| "render (UnexpectedKeyword k) = InvalidInput ''unexpected keyword ''"
| "render (DuplicateColumn c) = InvalidInput ''column  set multiple times''"
| "render CantAliasStar = InvalidInput (''can'' @ [CHR 0x27] @ ''t alias *'')"
| "render NumberTooLarge = InvalidInput ''number too large to fit in target type''"
| "render (InvalidFloatLiteral b) = InvalidInput ''invalid float literal ''"
| "render (ExpectedAtom t) = InvalidInput ''expected expression atom, found ''"

section \<open>Expressions\<close>

datatype literal =
  LNull
| LBoolean bool
| LInteger i64
| LFloat f64
| LString ustring

datatype expression =
  EAll
| EColumn "ustring option" ustring
| ELiteral literal
| EFunction ustring "expression list"
| EOperator operator
and operator =
  OAnd expression expression
| ONot expression
| OOr expression expression
| OEqual expression expression
| OGreaterThan expression expression
| OGreaterThanOrEqual expression expression
| OIs expression literal
| OLessThan expression expression
| OLessThanOrEqual expression expression
| ONotEqual expression expression
| OAdd expression expression
| ODivide expression expression
| OExponentiate expression expression
| OFactorial expression
| OIdentity expression
| OMultiply expression expression
| ONegate expression
| ORemainder expression expression
| OSubtract expression expression
| OLike expression expression

text \<open>
  \<^verbatim>\<open>walk\<close> calls the visitor on a node, and then, if it returned true, on the node's operands;
  the operands of a function call are walked by \<^verbatim>\<open>any\<close>.
\<close>

fun ast_walk :: "(expression \<Rightarrow> bool) \<Rightarrow> expression \<Rightarrow> bool"
and ast_walk_op :: "(expression \<Rightarrow> bool) \<Rightarrow> operator \<Rightarrow> bool" where
  "ast_walk visitor EAll \<longleftrightarrow> visitor EAll"
| "ast_walk visitor (EColumn t c) \<longleftrightarrow> visitor (EColumn t c)"
| "ast_walk visitor (ELiteral l) \<longleftrightarrow> visitor (ELiteral l)"
| "ast_walk visitor (EFunction f es) \<longleftrightarrow>
     visitor (EFunction f es) \<and> (\<exists>e \<in> set es. ast_walk visitor e)"
| "ast_walk visitor (EOperator op) \<longleftrightarrow> visitor (EOperator op) \<and> ast_walk_op visitor op"
| "ast_walk_op visitor (OAdd l r) \<longleftrightarrow> ast_walk visitor l \<and> ast_walk visitor r"
| "ast_walk_op visitor (OAnd l r) \<longleftrightarrow> ast_walk visitor l \<and> ast_walk visitor r"
| "ast_walk_op visitor (ODivide l r) \<longleftrightarrow> ast_walk visitor l \<and> ast_walk visitor r"
| "ast_walk_op visitor (OEqual l r) \<longleftrightarrow> ast_walk visitor l \<and> ast_walk visitor r"
| "ast_walk_op visitor (OExponentiate l r) \<longleftrightarrow> ast_walk visitor l \<and> ast_walk visitor r"
| "ast_walk_op visitor (OGreaterThan l r) \<longleftrightarrow> ast_walk visitor l \<and> ast_walk visitor r"
| "ast_walk_op visitor (OGreaterThanOrEqual l r) \<longleftrightarrow> ast_walk visitor l \<and> ast_walk visitor r"
| "ast_walk_op visitor (OLessThan l r) \<longleftrightarrow> ast_walk visitor l \<and> ast_walk visitor r"
| "ast_walk_op visitor (OLessThanOrEqual l r) \<longleftrightarrow> ast_walk visitor l \<and> ast_walk visitor r"
| "ast_walk_op visitor (OLike l r) \<longleftrightarrow> ast_walk visitor l \<and> ast_walk visitor r"
| "ast_walk_op visitor (OMultiply l r) \<longleftrightarrow> ast_walk visitor l \<and> ast_walk visitor r"
| "ast_walk_op visitor (ONotEqual l r) \<longleftrightarrow> ast_walk visitor l \<and> ast_walk visitor r"
| "ast_walk_op visitor (OOr l r) \<longleftrightarrow> ast_walk visitor l \<and> ast_walk visitor r"
| "ast_walk_op visitor (ORemainder l r) \<longleftrightarrow> ast_walk visitor l \<and> ast_walk visitor r"
| "ast_walk_op visitor (OSubtract l r) \<longleftrightarrow> ast_walk visitor l \<and> ast_walk visitor r"
| "ast_walk_op visitor (OFactorial e) \<longleftrightarrow> ast_walk visitor e"
| "ast_walk_op visitor (OIdentity e) \<longleftrightarrow> ast_walk visitor e"
| "ast_walk_op visitor (ONegate e) \<longleftrightarrow> ast_walk visitor e"
| "ast_walk_op visitor (ONot e) \<longleftrightarrow> ast_walk visitor e"
| "ast_walk_op visitor (OIs e l) \<longleftrightarrow> ast_walk visitor e"

definition ast_contains :: "(expression \<Rightarrow> bool) \<Rightarrow> expression \<Rightarrow> bool" where
  "ast_contains visitor e \<longleftrightarrow> \<not> ast_walk (\<lambda>x. \<not> visitor x) e"

text \<open>
  \<^verbatim>\<open>collect\<close> pushes the matching nodes to the vector \<^verbatim>\<open>exprs\<close>, in the order it meets them.
\<close>

fun ast_collect :: "(expression \<Rightarrow> bool) \<Rightarrow> expression \<Rightarrow> expression list \<Rightarrow> expression list"
and ast_collect_op :: "(expression \<Rightarrow> bool) \<Rightarrow> operator \<Rightarrow> expression list \<Rightarrow> expression list" where
  "ast_collect visitor EAll exprs = (if visitor EAll then exprs @ [EAll] else exprs)"
| "ast_collect visitor (EColumn t c) exprs =
     (if visitor (EColumn t c) then exprs @ [EColumn t c] else exprs)"
| "ast_collect visitor (ELiteral l) exprs =
     (if visitor (ELiteral l) then exprs @ [ELiteral l] else exprs)"
| "ast_collect visitor (EFunction f es) exprs =
     (if visitor (EFunction f es) then exprs @ [EFunction f es]
      else fold (ast_collect visitor) es exprs)"
| "ast_collect visitor (EOperator op) exprs =
     (if visitor (EOperator op) then exprs @ [EOperator op] else ast_collect_op visitor op exprs)"
| "ast_collect_op visitor (OAdd l r) exprs = ast_collect visitor r (ast_collect visitor l exprs)"
| "ast_collect_op visitor (OAnd l r) exprs = ast_collect visitor r (ast_collect visitor l exprs)"
| "ast_collect_op visitor (ODivide l r) exprs = ast_collect visitor r (ast_collect visitor l exprs)"
| "ast_collect_op visitor (OEqual l r) exprs = ast_collect visitor r (ast_collect visitor l exprs)"
| "ast_collect_op visitor (OExponentiate l r) exprs = ast_collect visitor r (ast_collect visitor l exprs)"
| "ast_collect_op visitor (OGreaterThan l r) exprs = ast_collect visitor r (ast_collect visitor l exprs)"
| "ast_collect_op visitor (OGreaterThanOrEqual l r) exprs = ast_collect visitor r (ast_collect visitor l exprs)"
| "ast_collect_op visitor (OLessThan l r) exprs = ast_collect visitor r (ast_collect visitor l exprs)"
| "ast_collect_op visitor (OLessThanOrEqual l r) exprs = ast_collect visitor r (ast_collect visitor l exprs)"
| "ast_collect_op visitor (OLike l r) exprs = ast_collect visitor r (ast_collect visitor l exprs)"
| "ast_collect_op visitor (OMultiply l r) exprs = ast_collect visitor r (ast_collect visitor l exprs)"
| "ast_collect_op visitor (ONotEqual l r) exprs = ast_collect visitor r (ast_collect visitor l exprs)"
| "ast_collect_op visitor (OOr l r) exprs = ast_collect visitor r (ast_collect visitor l exprs)"
| "ast_collect_op visitor (ORemainder l r) exprs = ast_collect visitor r (ast_collect visitor l exprs)"
| "ast_collect_op visitor (OSubtract l r) exprs = ast_collect visitor r (ast_collect visitor l exprs)"
| "ast_collect_op visitor (OFactorial e) exprs = ast_collect visitor e exprs"
| "ast_collect_op visitor (OIdentity e) exprs = ast_collect visitor e exprs"
| "ast_collect_op visitor (ONegate e) exprs = ast_collect visitor e exprs"
| "ast_collect_op visitor (ONot e) exprs = ast_collect visitor e exprs"
| "ast_collect_op visitor (OIs e l) exprs = ast_collect visitor e exprs"

section \<open>Statements\<close>

datatype data_type = DTBoolean | DTInteger | DTFloat | DTString

datatype join_type = Cross | Inner | Left | Right

fun is_outer :: "join_type \<Rightarrow> bool" where
  "is_outer Left = True"
| "is_outer Right = True"
| "is_outer Cross = False"
| "is_outer Inner = False"

datatype direction = Ascending | Descending

record ast_column =
  col_name :: ustring
  col_datatype :: data_type
  col_primary_key :: bool
  col_nullable :: "bool option"
  col_default :: "expression option"
  col_unique :: bool
  col_index :: bool
  col_references :: "ustring option"

datatype ast_from =
  FTable ustring "ustring option"
| FJoin ast_from ast_from join_type "expression option"

text \<open>
  The ghost field \<^verbatim>\<open>order\<close> of \<^verbatim>\<open>Update\<close> is erased at run time and left out; the map \<^verbatim>\<open>set\<close> is a
  strictly ordered association list.
\<close>

datatype statement =
  SBegin bool "u64 option"
| SCommit
| SRollback
| SExplain statement
| SCreateTable ustring "ast_column list"
| SDropTable ustring bool
| SDelete ustring "expression option"
| SInsert ustring "ustring list option" "expression list list"
| SUpdate ustring "(ustring \<times> expression option) list" "expression option"
| SSelect "(expression \<times> ustring option) list" "ast_from list" "expression option"
    "expression list" "expression option" "(expression \<times> direction) list"
    "expression option" "expression option"

end
