(* ===== verification/Sql_Number.thy ===== *)
theory Sql_Number
  imports Sql_Ast
begin

text \<open>
  Number literals: the decimal scanner and printer of \<^verbatim>\<open>src/sql/parser/verified_integer.rs\<close>, kept
  at 64 bits with the overflow guard of the source, and the interface \<open>float_ops\<close> to Rust's
  float formatter and parser, which \<^verbatim>\<open>float_trust.rs\<close> declares as a trusted boundary. The
  scanner is compared with the unbounded value of a digit string: it accepts exactly the
  digit strings whose value fits, whatever their number of leading zeros.
\<close>

unbundle bit_operations_syntax

section \<open>Decimal integers\<close>

definition is_digit :: "u8 \<Rightarrow> bool" where
  "is_digit b \<longleftrightarrow> 48 \<le> b \<and> b \<le> 57"

function print_u64 :: "u64 \<Rightarrow> bytes" where
  "print_u64 n =
     (if n < 10 then [ucast (48 + n)] else print_u64 (n div 10) @ [ucast (48 + n mod 10)])"
  by pat_completeness auto
termination
  by (relation "measure unat") (auto simp: word_less_nat_alt unat_div)

declare print_u64.simps [simp del]

definition print_i64 :: "i64 \<Rightarrow> bytes" where
  "print_i64 n = print_u64 n"

definition parse_digit_step :: "u64 option \<Rightarrow> u8 \<Rightarrow> u64 option" where
  "parse_digit_step acc b =
     (if 48 \<le> b \<and> b \<le> 57 then
        let digit = ucast (b - 48) in
        (case acc of
           Some pre \<Rightarrow>
             if pre \<le> (u64_max - digit) div 10 then Some (pre * 10 + digit) else None
         | None \<Rightarrow> None)
      else None)"

fun parse_digits :: "bytes \<Rightarrow> u64 option" where
  "parse_digits [] = None"
| "parse_digits (b0 # bs) =
     foldl parse_digit_step (if 48 \<le> b0 \<and> b0 \<le> 57 then Some (ucast (b0 - 48)) else None) bs"

definition i64_max :: u64 where
  "i64_max = 9223372036854775807"

definition parse_i64 :: "bytes \<Rightarrow> i64 option" where
  "parse_i64 input =
     (case parse_digits input of
        Some v \<Rightarrow> if v \<le> i64_max then Some v else None
      | None \<Rightarrow> None)"

definition parse_u64 :: "bytes \<Rightarrow> u64 option" where
  "parse_u64 input = parse_digits input"

section \<open>The value of a digit string\<close>

definition digit_value :: "u8 \<Rightarrow> nat" where
  "digit_value b = unat b - 48"

definition decimal_value :: "bytes \<Rightarrow> nat" where
  "decimal_value = foldl (\<lambda>n b. 10 * n + digit_value b) 0"

lemma decimal_value_snoc [simp]:
  "decimal_value (bs @ [b]) = 10 * decimal_value bs + digit_value b"
  by (simp add: decimal_value_def)

lemma decimal_value_Nil [simp]: "decimal_value [] = 0"
  by (simp add: decimal_value_def)

lemma is_digit_iff: "is_digit b \<longleftrightarrow> 48 \<le> unat b \<and> unat b \<le> 57"
  by (simp add: is_digit_def word_le_nat_alt)

lemma digit_value_le: "is_digit b \<Longrightarrow> digit_value b \<le> 9"
  unfolding is_digit_iff digit_value_def by linarith

lemma unat_digit: "is_digit b \<Longrightarrow> unat (ucast (b - 48) :: u64) = digit_value b"
proof -
  assume "is_digit b"
  then have "unat (b - 48) = digit_value b" "digit_value b < 2 ^ 64"
    by (auto simp: is_digit_iff digit_value_def unat_sub word_le_nat_alt)
  then show ?thesis by (simp add: unsigned_ucast_eq take_bit_nat_eq_self)
qed

lemma parse_digit_step_Some:
  assumes "is_digit b"
  shows "parse_digit_step (Some v) b =
    (if 10 * unat v + digit_value b < 2 ^ 64 then Some (of_nat (10 * unat v + digit_value b)) else None)"
proof -
  let ?d = "ucast (b - 48) :: u64"
  have d: "unat ?d = digit_value b" "digit_value b \<le> 9"
    using assms by (rule unat_digit, rule digit_value_le)
  have "unat ((u64_max - ?d) div 10) = (2 ^ 64 - 1 - digit_value b) div 10"
    using d by (simp add: unat_div unat_sub word_le_nat_alt unsigned_minus_1_eq_mask mask_eq_exp_minus_1)
  then have "v \<le> (u64_max - ?d) div 10 \<longleftrightarrow> unat v \<le> (2 ^ 64 - 1 - digit_value b) div 10"
    by (simp add: word_le_nat_alt)
  also have "\<dots> \<longleftrightarrow> 10 * unat v + digit_value b < 2 ^ 64"
    using d(2) by (simp add: less_eq_div_iff_mult_less_eq) linarith
  finally have "v \<le> (u64_max - ?d) div 10 \<longleftrightarrow> 10 * unat v + digit_value b < 2 ^ 64" .
  moreover have "v * 10 + ?d = of_nat (10 * unat v + digit_value b)"
    using d(1) by (simp flip: d(1) add: mult.commute)
  ultimately show ?thesis
    using assms by (simp add: parse_digit_step_def is_digit_def)
qed

lemma parse_digits_exact:
  "parse_digits input =
     (if input \<noteq> [] \<and> list_all is_digit input \<and> decimal_value input < 2 ^ 64
      then Some (of_nat (decimal_value input)) else None)"
proof (induction input rule: rev_induct)
  case (snoc b bs)
  show ?case
  proof (cases "bs = []")
    case True
    then show ?thesis
      using digit_value_le[of b] by (auto simp: is_digit_def decimal_value_def simp flip: unat_digit)
  next
    case False
    then have "parse_digits (bs @ [b]) = parse_digit_step (parse_digits bs) b"
      by (cases bs) auto
    moreover have "\<not> is_digit b \<Longrightarrow> parse_digit_step acc b = None" for acc
      by (auto simp: parse_digit_step_def is_digit_def)
    moreover have "parse_digit_step None b = None"
      by (simp add: parse_digit_step_def)
    moreover have "decimal_value bs < 2 ^ 64 \<Longrightarrow> unat (of_nat (decimal_value bs) :: u64) = decimal_value bs"
      by (simp add: unsigned_of_nat take_bit_nat_eq_self)
    ultimately show ?thesis
      using False snoc parse_digit_step_Some[of b] by (cases "is_digit b") auto
  qed
qed simp

lemma print_u64_digit:
  assumes "n < (10 :: u64)"
  shows "is_digit (ucast (48 + n))" and "digit_value (ucast (48 + n)) = unat n"
proof -
  from assms have "unat n < 10" by (simp add: word_less_nat_alt)
  then have "unat (48 + n) = 48 + unat n" by (simp add: unat_word_ariths)
  with \<open>unat n < 10\<close> have "unat (ucast (48 + n) :: u8) = 48 + unat n"
    by (simp add: unsigned_ucast_eq take_bit_nat_eq_self)
  with \<open>unat n < 10\<close> show "is_digit (ucast (48 + n))" "digit_value (ucast (48 + n)) = unat n"
    unfolding is_digit_iff digit_value_def by linarith+
qed

lemma print_u64_props:
  "print_u64 n \<noteq> [] \<and> list_all is_digit (print_u64 n) \<and> decimal_value (print_u64 n) = unat n"
proof (induction n rule: print_u64.induct)
  case (1 n)
  show ?case
  proof (cases "n < 10")
    case True
    then show ?thesis
      using print_u64_digit[of n] by (simp add: print_u64.simps[of n] decimal_value_def)
  next
    case False
    have "n mod 10 < 10" by (simp add: word_less_nat_alt unat_mod)
    then show ?thesis
      using 1 False print_u64_digit[of "n mod 10"]
      by (simp add: print_u64.simps[of n] unat_div unat_mod)
  qed
qed

lemma parse_digits_print: "parse_digits (print_u64 n) = Some n"
  using print_u64_props[of n] unsigned_less[of n] by (simp add: parse_digits_exact)

lemma le_i64_max_iff: "m \<le> i64_max \<longleftrightarrow> unat m < 2 ^ 63"
  by (simp add: i64_max_def word_le_nat_alt) linarith

lemma sint_nonneg_iff: "0 \<le> sint (m :: i64) \<longleftrightarrow> unat m < 2 ^ 63"
proof -
  have "bit m 63 \<longleftrightarrow> odd (unat m div 2 ^ 63)"
    unfolding bit_iff_odd[symmetric] by (simp add: bit_unsigned_iff)
  moreover have "unat m div 2 ^ 63 < 2"
    using unsigned_less[of m, where ?'a = nat] by (simp add: less_mult_imp_div_less)
  then have "odd (unat m div 2 ^ 63) \<longleftrightarrow> \<not> unat m < 2 ^ 63"
    by (auto simp: less_2_cases_iff div_eq_0_iff)
  ultimately show ?thesis using bit_last_iff[of m] by auto
qed

text \<open>C23 Integers survive printing. Every \<^verbatim>\<open>u64\<close> parses back from its printed digits, and so does
  every non-negative \<^verbatim>\<open>i64\<close>; the printed form of a negative \<^verbatim>\<open>i64\<close> (which the SQL grammar writes
  as a minus operator applied to a literal) is rejected.
\<close>

theorem parse_print_integer:
  "parse_u64 (print_u64 n) = Some n \<and>
   parse_i64 (print_i64 m) = (if 0 \<le> sint m then Some m else None)"
  by (simp add: parse_u64_def parse_i64_def print_i64_def parse_digits_print le_i64_max_iff sint_nonneg_iff)

text \<open>C24 Bounds of number literals. The two scanners accept a byte string exactly when it is a
  non-empty string of ASCII digits whose decimal value fits the target type, and then return
  that value; leading zeros do not matter and no step of the 64-bit arithmetic wraps around.
\<close>

theorem parse_integer_bounds:
  "parse_u64 input =
     (if input \<noteq> [] \<and> list_all is_digit input \<and> decimal_value input < 2 ^ 64
      then Some (of_nat (decimal_value input)) else None) \<and>
   parse_i64 input =
     (if input \<noteq> [] \<and> list_all is_digit input \<and> decimal_value input < 2 ^ 63
      then Some (of_nat (decimal_value input)) else None)"
  by (simp add: parse_u64_def parse_i64_def parse_digits_exact le_i64_max_iff unsigned_of_nat take_bit_nat_eq_self)

section \<open>Floats\<close>

text \<open>
  \<^verbatim>\<open>float_trust.rs\<close> wraps Rust's \<^verbatim>\<open>{:?}\<close> formatter, \<^verbatim>\<open>f64::from_str\<close> and the constants \<^verbatim>\<open>f64::NAN\<close> and
  \<^verbatim>\<open>f64::INFINITY\<close> without exposing their bodies. \<open>float_ops_ok\<close> is the file's one axiom,
  \<^verbatim>\<open>axiom_f64_finite_roundtrip\<close>: a finite value survives formatting and parsing, and its text
  is not a string of digits only (it has a decimal point or an exponent).
\<close>

record float_ops =
  format_f64 :: "f64 \<Rightarrow> bytes"
  parse_f64 :: "bytes \<Rightarrow> f64 option"
  canonical_nan :: f64
  infinity :: f64

definition is_finite :: "f64 \<Rightarrow> bool" where
  "is_finite x \<longleftrightarrow> drop_bit 52 x AND 2047 \<noteq> 2047"

definition is_sign_negative :: "f64 \<Rightarrow> bool" where
  "is_sign_negative x \<longleftrightarrow> bit x 63"

definition float_ops_ok :: "float_ops \<Rightarrow> bool" where
  "float_ops_ok F \<longleftrightarrow> (\<forall>x. is_finite x \<longrightarrow>
     parse_f64 F (format_f64 F x) = Some x \<and> \<not> list_all is_digit (format_f64 F x))"

end
