(* ===== verification/Sql_Expr_Parser.thy ===== *)
theory Sql_Expr_Parser
  imports Sql_Number
begin

text \<open>
  The production expression parser, \<^verbatim>\<open>src/sql/parser/verified_precedence.rs\<close>: precedence climbing
  with prefix, infix and postfix operators, and the helpers of \<^verbatim>\<open>verified_roundtrip.rs\<close> it calls.
  The source passes the token vector and a position; no function looks behind its position, so
  the model passes the list of the remaining tokens, and a position that is returned is the
  list of the tokens after it. A parser returns \<open>Inr\<close> with the result and the remaining tokens,
  or \<open>Inl\<close> with the error; the position that comes with an error is never read. The fuel that
  bounds the recursion in the source is kept, with its value. The loops over infix and postfix
  operators end because every pass consumes a token.
\<close>

type_synonym 'a parsed = "parse_error + 'a \<times> token list"

section \<open>Operators\<close>

datatype binary_tag =
  BAnd | BOr | BEqual | BGreaterThan | BGreaterThanOrEqual | BLessThan | BLessThanOrEqual
| BNotEqual | BAdd | BDivide | BExponentiate | BMultiply | BRemainder | BSubtract | BLike

datatype unary_tag = UIdentity | UNegate | UNot

fun binary_prec :: "binary_tag \<Rightarrow> nat" where
  "binary_prec BOr = 1"
| "binary_prec BAnd = 2"
| "binary_prec BEqual = 4"
| "binary_prec BNotEqual = 4"
| "binary_prec BLike = 4"
| "binary_prec BGreaterThan = 5"
| "binary_prec BGreaterThanOrEqual = 5"
| "binary_prec BLessThan = 5"
| "binary_prec BLessThanOrEqual = 5"
| "binary_prec BAdd = 6"
| "binary_prec BSubtract = 6"
| "binary_prec BMultiply = 7"
| "binary_prec BDivide = 7"
| "binary_prec BRemainder = 7"
| "binary_prec BExponentiate = 8"

fun binary_assoc :: "binary_tag \<Rightarrow> nat" where
  "binary_assoc BExponentiate = 0"
| "binary_assoc _ = 1"

fun prefix_prec :: "unary_tag \<Rightarrow> nat" where
  "prefix_prec UNot = 3"
| "prefix_prec UIdentity = 10"
| "prefix_prec UNegate = 10"

fun prefix_op_exec :: "token \<Rightarrow> unary_tag option" where
  "prefix_op_exec TPlus = Some UIdentity"
| "prefix_op_exec TMinus = Some UNegate"
| "prefix_op_exec (TKeyword KwNot) = Some UNot"
| "prefix_op_exec _ = None"

fun binary_tag_exec :: "token \<Rightarrow> binary_tag option" where
  "binary_tag_exec (TKeyword KwAnd) = Some BAnd"
| "binary_tag_exec (TKeyword KwOr) = Some BOr"
| "binary_tag_exec TEqual = Some BEqual"
| "binary_tag_exec TGreaterThan = Some BGreaterThan"
| "binary_tag_exec TGreaterThanOrEqual = Some BGreaterThanOrEqual"
| "binary_tag_exec TLessThan = Some BLessThan"
| "binary_tag_exec TLessThanOrEqual = Some BLessThanOrEqual"
| "binary_tag_exec TNotEqual = Some BNotEqual"
| "binary_tag_exec TLessOrGreaterThan = Some BNotEqual"
| "binary_tag_exec TPlus = Some BAdd"
| "binary_tag_exec TSlash = Some BDivide"
| "binary_tag_exec TCaret = Some BExponentiate"
| "binary_tag_exec TAsterisk = Some BMultiply"
| "binary_tag_exec TPercent = Some BRemainder"
| "binary_tag_exec TMinus = Some BSubtract"
| "binary_tag_exec (TKeyword KwLike) = Some BLike"
| "binary_tag_exec _ = None"

fun build_unary :: "unary_tag \<Rightarrow> expression \<Rightarrow> expression" where
  "build_unary UIdentity e = EOperator (OIdentity e)"
| "build_unary UNegate e = EOperator (ONegate e)"
| "build_unary UNot e = EOperator (ONot e)"

fun build_binary :: "binary_tag \<Rightarrow> expression \<Rightarrow> expression \<Rightarrow> expression" where
  "build_binary BAnd l r = EOperator (OAnd l r)"
| "build_binary BOr l r = EOperator (OOr l r)"
| "build_binary BEqual l r = EOperator (OEqual l r)"
| "build_binary BGreaterThan l r = EOperator (OGreaterThan l r)"
| "build_binary BGreaterThanOrEqual l r = EOperator (OGreaterThanOrEqual l r)"
| "build_binary BLessThan l r = EOperator (OLessThan l r)"
| "build_binary BLessThanOrEqual l r = EOperator (OLessThanOrEqual l r)"
| "build_binary BNotEqual l r = EOperator (ONotEqual l r)"
| "build_binary BAdd l r = EOperator (OAdd l r)"
| "build_binary BDivide l r = EOperator (ODivide l r)"
| "build_binary BExponentiate l r = EOperator (OExponentiate l r)"
| "build_binary BMultiply l r = EOperator (OMultiply l r)"
| "build_binary BRemainder l r = EOperator (ORemainder l r)"
| "build_binary BSubtract l r = EOperator (OSubtract l r)"
| "build_binary BLike l r = EOperator (OLike l r)"

section \<open>Literals\<close>

text \<open>\<^verbatim>\<open>all_digits_exec\<close> looks at the last byte and recurses on the bytes before it.\<close>

function all_digits_exec :: "bytes \<Rightarrow> bool" where
  "all_digits_exec bytes =
     (if length bytes = 0 then True
      else let b = bytes ! (length bytes - 1) in
        if 48 \<le> b \<and> b \<le> 57 then all_digits_exec (take (length bytes - 1) bytes) else False)"
  by pat_completeness auto
termination
  by (relation "measure length") auto

declare all_digits_exec.simps [simp del]

text \<open>\<^verbatim>\<open>all_ascii_digits\<close> scans from the front.\<close>

fun all_ascii_digits :: "bytes \<Rightarrow> bool" where
  "all_ascii_digits [] = True"
| "all_ascii_digits (b # bs) = (if b < 48 \<or> b > 57 then False else all_ascii_digits bs)"

fun parse_literal_exec :: "float_ops \<Rightarrow> token \<Rightarrow> literal option" where
  "parse_literal_exec F (TKeyword KwNull) = Some LNull"
| "parse_literal_exec F (TKeyword KwTrue) = Some (LBoolean True)"
| "parse_literal_exec F (TKeyword KwFalse) = Some (LBoolean False)"
| "parse_literal_exec F (TNumber bytes) =
     (if all_digits_exec bytes then map_option LInteger (parse_i64 bytes)
      else map_option LFloat (parse_f64 F bytes))"
| "parse_literal_exec F (TString v) = Some (LString v)"
| "parse_literal_exec F _ = None"

section \<open>Postfix operators\<close>

datatype postfix_op =
  Factorial
| Is bool bool \<comment> \<open>negated, nan\<close>

text \<open>The operand of \<^verbatim>\<open>IS\<close>, after an optional \<^verbatim>\<open>NOT\<close>.\<close>

fun parse_is_operand :: "bool \<Rightarrow> token list \<Rightarrow> (postfix_op \<times> token list) option" where
  "parse_is_operand negated (TKeyword KwNaN # ts) = Some (Is negated True, ts)"
| "parse_is_operand negated (TKeyword KwNull # ts) = Some (Is negated False, ts)"
| "parse_is_operand negated _ = None"

fun parse_postfix_at :: "token list \<Rightarrow> nat \<Rightarrow> (postfix_op \<times> token list) option" where
  "parse_postfix_at (TKeyword KwIs # ts) min_prec =
     (if 4 < min_prec then None
      else case ts of
        TKeyword KwNot # us \<Rightarrow> parse_is_operand True us
      | _ \<Rightarrow> parse_is_operand False ts)"
| "parse_postfix_at (TExclamation # ts) min_prec =
     (if 9 < min_prec then None else Some (Factorial, ts))"
| "parse_postfix_at _ min_prec = None"

fun build_postfix :: "float_ops \<Rightarrow> postfix_op \<Rightarrow> expression \<Rightarrow> expression" where
  "build_postfix F Factorial lhs = EOperator (OFactorial lhs)"
| "build_postfix F (Is negated nan) lhs =
     (let value = (if nan then LFloat (canonical_nan F) else LNull);
          is = EOperator (OIs lhs value)
      in if negated then EOperator (ONot is) else is)"

lemma parse_is_operand_shorter:
  "parse_is_operand n ts = Some (op, us) \<Longrightarrow> length us < length ts"
  by (induction n ts rule: parse_is_operand.induct) auto

lemma parse_postfix_shorter:
  "parse_postfix_at ts m = Some (op, us) \<Longrightarrow> length us < length ts"
  by (induction ts m rule: parse_postfix_at.induct)
    (auto split: if_splits list.splits token.splits keyword.splits dest!: parse_is_operand_shorter)

function postfix_loop :: "float_ops \<Rightarrow> expression \<Rightarrow> token list \<Rightarrow> nat \<Rightarrow> expression \<times> token list" where
  "postfix_loop F lhs ts min_prec =
     (case parse_postfix_at ts min_prec of
        Some (op, us) \<Rightarrow> postfix_loop F (build_postfix F op lhs) us min_prec
      | None \<Rightarrow> (lhs, ts))"
  by pat_completeness auto
termination
  by (relation "measure (\<lambda>(F, lhs, ts, m). length ts)") (auto dest: parse_postfix_shorter)

declare postfix_loop.simps [simp del]

section \<open>Precedence climbing\<close>

text \<open>The keywords that are literals.\<close>

definition keyword_atom :: "float_ops \<Rightarrow> keyword \<Rightarrow> literal option" where
  "keyword_atom F k =
     (if k = KwTrue then Some (LBoolean True)
      else if k = KwFalse then Some (LBoolean False)
      else if k = KwInfinity then Some (LFloat (infinity F))
      else if k = KwNaN then Some (LFloat (canonical_nan F))
      else if k = KwNull then Some LNull
      else None)"

function parse_expression_at :: "float_ops \<Rightarrow> token list \<Rightarrow> nat \<Rightarrow> nat \<Rightarrow> expression parsed"
and parse_atom :: "float_ops \<Rightarrow> token list \<Rightarrow> nat \<Rightarrow> expression parsed"
and parse_function_call :: "float_ops \<Rightarrow> ustring \<Rightarrow> token list \<Rightarrow> nat \<Rightarrow> expression parsed"
and parse_fn_args_exec :: "float_ops \<Rightarrow> token list \<Rightarrow> nat \<Rightarrow> expression list parsed"
and parse_fn_args_ne_exec :: "float_ops \<Rightarrow> token list \<Rightarrow> nat \<Rightarrow> expression list parsed"
and infix_loop :: "float_ops \<Rightarrow> expression \<Rightarrow> token list \<Rightarrow> nat \<Rightarrow> nat \<Rightarrow> expression parsed" where
  "parse_expression_at F ts min_prec fuel =
     (if fuel = 0 \<or> ts = [] then Inl UnexpectedEof
      else
        case
          (case prefix_op_exec (hd ts) of
             Some tag \<Rightarrow>
               if prefix_prec tag \<ge> min_prec then
                 (case parse_expression_at F (tl ts) (prefix_prec tag) (fuel - 1) of
                    Inr (inner, rest) \<Rightarrow> Inr (build_unary tag inner, rest)
                  | Inl e \<Rightarrow> Inl e)
               else parse_atom F ts (fuel - 1)
           | None \<Rightarrow> parse_atom F ts (fuel - 1))
        of
          Inl e \<Rightarrow> Inl e
        | Inr (lhs0, cur0) \<Rightarrow>
            (case postfix_loop F lhs0 cur0 min_prec of (lhs1, cur1) \<Rightarrow>
               case infix_loop F lhs1 cur1 min_prec (fuel - 1) of
                 Inl e \<Rightarrow> Inl e
               | Inr (lhs2, cur2) \<Rightarrow> Inr (postfix_loop F lhs2 cur2 min_prec)))"
| "parse_atom F ts fuel =
     (if fuel = 0 then Inl UnexpectedEof
      else case ts of
        [] \<Rightarrow> Inl UnexpectedEof
      | t # us \<Rightarrow>
          (case t of
             TAsterisk \<Rightarrow> Inr (EAll, us)
           | TNumber n \<Rightarrow>
               (case parse_literal_exec F t of
                  Some l \<Rightarrow> Inr (ELiteral l, us)
                | None \<Rightarrow> Inl (if all_ascii_digits n then NumberTooLarge else InvalidFloatLiteral n))
           | TString s \<Rightarrow>
               (case parse_literal_exec F t of
                  Some l \<Rightarrow> Inr (ELiteral l, us)
                | None \<Rightarrow> Inl (ExpectedAtom t))
           | TKeyword k \<Rightarrow>
               (case keyword_atom F k of
                  Some l \<Rightarrow> Inr (ELiteral l, us)
                | None \<Rightarrow> Inl (ExpectedAtom t))
           | TIdent name \<Rightarrow>
               (case us of
                  [] \<Rightarrow> Inr (EColumn None name, us)
                | u # vs \<Rightarrow>
                    if u = TOpenParen then parse_function_call F name vs fuel
                    else if u = TPeriod then
                      (case vs of
                         [] \<Rightarrow> Inl UnexpectedEof
                       | TIdent column # ws \<Rightarrow> Inr (EColumn (Some name) column, ws)
                       | v # ws \<Rightarrow> Inl (ExpectedIdent v))
                    else Inr (EColumn None name, us))
           | TOpenParen \<Rightarrow>
               (case parse_expression_at F us 0 (fuel - 1) of
                  Inl e \<Rightarrow> Inl e
                | Inr (expr, rest) \<Rightarrow>
                    (case rest of
                       [] \<Rightarrow> Inl UnexpectedEof
                     | v # vs \<Rightarrow>
                         if v = TCloseParen then Inr (expr, vs)
                         else Inl (ExpectedToken TCloseParen v)))
           | _ \<Rightarrow> Inl (ExpectedAtom t)))"
| "parse_function_call F name ts fuel =
     (case parse_fn_args_exec F ts fuel of
        Inl e \<Rightarrow> Inl e
      | Inr (args, rest) \<Rightarrow>
          (case rest of
             [] \<Rightarrow> Inl UnexpectedEof
           | t # us \<Rightarrow>
               if t = TCloseParen then Inr (EFunction name args, us)
               else Inl (ExpectedToken TCloseParen t)))"
| "parse_fn_args_exec F ts fuel =
     (case ts of
        [] \<Rightarrow> Inl UnexpectedEof
      | t # us \<Rightarrow> if t = TCloseParen then Inr ([], ts) else parse_fn_args_ne_exec F ts fuel)"
| "parse_fn_args_ne_exec F ts fuel =
     (if ts = [] \<or> fuel = 0 then Inl UnexpectedEof
      else case parse_expression_at F ts 0 (fuel - 1) of
        Inl e \<Rightarrow> Inl e
      | Inr (expr, rest) \<Rightarrow>
          (case rest of
             [] \<Rightarrow> Inl UnexpectedEof
           | t # us \<Rightarrow>
               if t = TCloseParen then Inr ([expr], rest)
               else if t = TComma then
                 (case parse_fn_args_ne_exec F us (fuel - 1) of
                    Inl e \<Rightarrow> Inl e
                  | Inr (args, vs) \<Rightarrow> Inr (expr # args, vs))
               else Inl (ExpectedToken TComma t)))"
| "infix_loop F lhs ts min_prec next_fuel =
     (case ts of
        [] \<Rightarrow> Inr (lhs, [])
      | t # us \<Rightarrow>
          (case binary_tag_exec t of
             Some tag \<Rightarrow>
               if binary_prec tag \<ge> min_prec then
                 (case parse_expression_at F us (binary_prec tag + binary_assoc tag) next_fuel of
                    Inr (right, rest) \<Rightarrow> infix_loop F (build_binary tag lhs right) rest min_prec next_fuel
                  | Inl e \<Rightarrow> Inl e)
               else Inr (lhs, ts)
           | None \<Rightarrow> Inr (lhs, ts)))"
  by pat_completeness auto

text \<open>
  Whatever a parser accepts, it consumed: the expression parsers at least one token, the loop and
  the argument parsers none or more. The infix loop needs this to end, so it is proved on the
  domain of the recursion, before termination.
\<close>

lemma postfix_loop_length: "length (snd (postfix_loop F lhs ts m)) \<le> length ts"
proof (induction F lhs ts m rule: postfix_loop.induct)
  case (1 F lhs ts m)
  show ?case
  proof (cases "parse_postfix_at ts m")
    case (Some p)
    then obtain op us where p: "parse_postfix_at ts m = Some (op, us)" by (cases p) simp
    with 1 have "length (snd (postfix_loop F (build_postfix F op lhs) us m)) \<le> length us" by simp
    with parse_postfix_shorter[OF p] show ?thesis
      by (simp add: postfix_loop.simps[of F lhs] p)
  qed (simp add: postfix_loop.simps[of F lhs])
qed

abbreviation parser_dom :: "((float_ops \<times> token list \<times> nat \<times> nat) + (float_ops \<times> token list \<times> nat) +
    (float_ops \<times> ustring \<times> token list \<times> nat)) + (float_ops \<times> token list \<times> nat) +
    (float_ops \<times> token list \<times> nat) + float_ops \<times> expression \<times> token list \<times> nat \<times> nat \<Rightarrow> bool" where
  "parser_dom \<equiv> parse_expression_at_parse_atom_parse_function_call_parse_fn_args_exec_parse_fn_args_ne_exec_infix_loop_dom"

lemma parser_progress:
  "parser_dom (Inl (Inl (F, ts, m, n))) \<Longrightarrow>
     \<forall>e us. parse_expression_at F ts m n = Inr (e, us) \<longrightarrow> length us < length ts"
  "parser_dom (Inl (Inr (Inl (F, ts, n)))) \<Longrightarrow>
     \<forall>e us. parse_atom F ts n = Inr (e, us) \<longrightarrow> length us < length ts"
  "parser_dom (Inl (Inr (Inr (F, name, ts, n)))) \<Longrightarrow>
     \<forall>e us. parse_function_call F name ts n = Inr (e, us) \<longrightarrow> length us < length ts"
  "parser_dom (Inr (Inl (F, ts, n))) \<Longrightarrow>
     \<forall>es us. parse_fn_args_exec F ts n = Inr (es, us) \<longrightarrow> length us \<le> length ts"
  "parser_dom (Inr (Inr (Inl (F, ts, n)))) \<Longrightarrow>
     \<forall>es us. parse_fn_args_ne_exec F ts n = Inr (es, us) \<longrightarrow> length us \<le> length ts"
  "parser_dom (Inr (Inr (Inr (F, lhs, ts, m, n)))) \<Longrightarrow>
     \<forall>e us. infix_loop F lhs ts m n = Inr (e, us) \<longrightarrow> length us \<le> length ts"
proof (induction F ts m n and F ts n and F name ts n and F ts n and F ts n and F lhs ts m n
    rule: parse_expression_at_parse_atom_parse_function_call_parse_fn_args_exec_parse_fn_args_ne_exec_infix_loop.pinduct)
  case (1 F ts m n)
  have lhs: "length cur < length ts" if "\<not> (n = 0 \<or> ts = [])"
    "(case prefix_op_exec (hd ts) of None \<Rightarrow> parse_atom F ts (n - 1)
      | Some tag \<Rightarrow>
          if m \<le> prefix_prec tag
          then case parse_expression_at F (tl ts) (prefix_prec tag) (n - 1) of
                 Inl x \<Rightarrow> Inl x
               | Inr (inner, rest) \<Rightarrow> Inr (build_unary tag inner, rest)
          else parse_atom F ts (n - 1)) = Inr (e, cur)" for e cur
    using that 1(2,3,4) by (cases ts) (fastforce split: option.splits if_splits sum.splits)+
  show ?case
  proof (intro allI impI)
    fix e us assume eq: "parse_expression_at F ts m n = Inr (e, us)"
    then have n: "\<not> (n = 0 \<or> ts = [])"
      unfolding parse_expression_at.psimps[OF 1(1)] by (simp split: if_splits)
    from eq n obtain lhs0 cur0 where l: "(case prefix_op_exec (hd ts) of None \<Rightarrow> parse_atom F ts (n - 1)
      | Some tag \<Rightarrow>
          if m \<le> prefix_prec tag
          then case parse_expression_at F (tl ts) (prefix_prec tag) (n - 1) of
                 Inl x \<Rightarrow> Inl x
               | Inr (inner, rest) \<Rightarrow> Inr (build_unary tag inner, rest)
          else parse_atom F ts (n - 1)) = Inr (lhs0, cur0)"
      unfolding parse_expression_at.psimps[OF 1(1)]
      by (simp split: sum.splits(2) prod.splits del: not_gr_zero)
    obtain lhs1 cur1 where p: "postfix_loop F lhs0 cur0 m = (lhs1, cur1)" by fastforce
    from eq n obtain lhs2 cur2 where i: "infix_loop F lhs1 cur1 m (n - 1) = Inr (lhs2, cur2)"
      and r: "postfix_loop F lhs2 cur2 m = (e, us)"
      unfolding parse_expression_at.psimps[OF 1(1)] l by (auto simp: p split: sum.splits)
    have "length us \<le> length cur2" using postfix_loop_length[of F lhs2 cur2 m] r by simp
    also have "length cur2 \<le> length cur1" using 1(5)[OF n l refl p[symmetric]] i by blast
    also have "length cur1 \<le> length cur0" using postfix_loop_length[of F lhs0 cur0 m] p by simp
    also have "length cur0 < length ts" by (rule lhs[OF n l])
    finally show "length us < length ts" .
  qed
next
  case (2 F ts n)
  show ?case
    unfolding parse_atom.psimps[OF 2(1)] using 2(2,3)
    by (fastforce split: if_splits list.splits token.splits option.splits sum.splits)
next
  case (3 F name ts n)
  then show ?case
    by (fastforce simp: parse_function_call.psimps split: sum.splits list.splits if_splits)
next
  case (4 F ts n)
  then show ?case
    by (auto simp: parse_fn_args_exec.psimps split: list.splits if_splits)
next
  case (5 F ts n)
  show ?case
    unfolding parse_fn_args_ne_exec.psimps[OF 5(1)] using 5(2,3)
    by (fastforce split: if_splits list.splits sum.splits)
next
  case (6 F lhs ts m n)
  show ?case
    unfolding infix_loop.psimps[OF 6(1)] using 6(2,3)
    by (fastforce split: if_splits list.splits option.splits sum.splits)
qed

lemma parser_total: "\<forall>x. parser_dom x"
proof (relation "inv_image (less_than <*lex*> less_than <*lex*> less_than)
    (\<lambda>x. case x of
       Inl (Inl (F, ts, m, n)) \<Rightarrow> (n, 0, length ts)
     | Inl (Inr (Inl (F, ts, n))) \<Rightarrow> (n, 3, length ts)
     | Inl (Inr (Inr (F, name, ts, n))) \<Rightarrow> (n, 2, length ts)
     | Inr (Inl (F, ts, n)) \<Rightarrow> (n, 1, length ts)
     | Inr (Inr (Inl (F, ts, n))) \<Rightarrow> (n, 0, length ts)
     | Inr (Inr (Inr (F, lhs, ts, m, n))) \<Rightarrow> (n, 1 :: nat, length ts))", goal_cases)
  case (13 F lhs ts m n t us tag b right rest)
  then show ?case using parser_progress(1)[of F us "binary_prec tag + binary_assoc tag" n] by fastforce
qed auto

termination parse_expression_at
  by (rule parser_total)

declare parse_expression_at.simps [simp del] parse_atom.simps [simp del]
  parse_function_call.simps [simp del] parse_fn_args_exec.simps [simp del]
  parse_fn_args_ne_exec.simps [simp del] infix_loop.simps [simp del]

lemmas parser_simps = parse_expression_at.simps parse_atom.simps parse_function_call.simps
  parse_fn_args_exec.simps parse_fn_args_ne_exec.simps infix_loop.simps

lemmas parser_induct =
  parse_expression_at_parse_atom_parse_function_call_parse_fn_args_exec_parse_fn_args_ne_exec_infix_loop.induct

definition parse_expression_full :: "float_ops \<Rightarrow> token list \<Rightarrow> parse_error + expression" where
  "parse_expression_full F toks =
     (case parse_expression_at F toks 0 (2 * length toks + 3) of
        Inl e \<Rightarrow> Inl e
      | Inr (expr, rest) \<Rightarrow>
          (case rest of [] \<Rightarrow> Inr expr | t # _ \<Rightarrow> Inl (UnexpectedToken t)))"

section \<open>The phases of the expression parser\<close>

text \<open>
  \<open>prec_lhs_phase\<close> is the first operand with its prefix operators, \<open>climb\<close> the three loops that
  follow it.
\<close>

definition prec_lhs_phase :: "float_ops \<Rightarrow> token list \<Rightarrow> nat \<Rightarrow> nat \<Rightarrow> expression parsed" where
  "prec_lhs_phase F ts m n =
     (case prefix_op_exec (hd ts) of
        Some tag \<Rightarrow>
          if prefix_prec tag \<ge> m then
            (case parse_expression_at F (tl ts) (prefix_prec tag) (n - 1) of
               Inr (inner, rest) \<Rightarrow> Inr (build_unary tag inner, rest)
             | Inl e \<Rightarrow> Inl e)
          else parse_atom F ts (n - 1)
      | None \<Rightarrow> parse_atom F ts (n - 1))"

definition climb :: "float_ops \<Rightarrow> expression \<Rightarrow> token list \<Rightarrow> nat \<Rightarrow> nat \<Rightarrow> expression parsed" where
  "climb F lhs cur m next_fuel =
     (case postfix_loop F lhs cur m of (lhs1, cur1) \<Rightarrow>
        case infix_loop F lhs1 cur1 m next_fuel of
          Inl e \<Rightarrow> Inl e
        | Inr (lhs2, cur2) \<Rightarrow> Inr (postfix_loop F lhs2 cur2 m))"

lemma parse_expression_phases:
  "parse_expression_at F ts m n =
     (if n = 0 \<or> ts = [] then Inl UnexpectedEof
      else case prec_lhs_phase F ts m n of
        Inl e \<Rightarrow> Inl e
      | Inr (lhs, cur) \<Rightarrow> climb F lhs cur m (n - 1))"
  unfolding parse_expression_at.simps[of F ts m n] prec_lhs_phase_def climb_def ..

lemma parse_expression_shorter:
  "parse_expression_at F ts m n = Inr (e, us) \<Longrightarrow> length us < length ts"
  by (rule parser_progress(1)[OF spec[OF parser_total], rule_format])

lemma parse_atom_shorter: "parse_atom F ts n = Inr (e, us) \<Longrightarrow> length us < length ts"
  by (rule parser_progress(2)[OF spec[OF parser_total], rule_format])

lemma prec_lhs_phase_shorter:
  "prec_lhs_phase F ts m n = Inr (e, us) \<Longrightarrow> ts \<noteq> [] \<Longrightarrow> length us < length ts"
  by (cases ts) (auto simp: prec_lhs_phase_def split: option.splits if_splits sum.splits
      dest!: parse_expression_shorter parse_atom_shorter)

section \<open>The fuel is enough\<close>

text \<open>
  The fuel a parser is called with does not matter for its result, once it exceeds twice the
  number of the remaining tokens by a constant that depends on the parser.
\<close>

lemma parser_fuel:
  "\<forall>n'. 2 * length ts + 3 \<le> n \<longrightarrow> 2 * length ts + 3 \<le> n' \<longrightarrow>
     parse_expression_at F ts m n = parse_expression_at F ts m n'"
  "\<forall>n'. 2 * length ts + 2 \<le> n \<longrightarrow> 2 * length ts + 2 \<le> n' \<longrightarrow>
     parse_atom F ts n = parse_atom F ts n'"
  "\<forall>n'. 2 * length ts + 4 \<le> n \<longrightarrow> 2 * length ts + 4 \<le> n' \<longrightarrow>
     parse_function_call F name ts n = parse_function_call F name ts n'"
  "\<forall>n'. 2 * length ts + 4 \<le> n \<longrightarrow> 2 * length ts + 4 \<le> n' \<longrightarrow>
     parse_fn_args_exec F ts n = parse_fn_args_exec F ts n'"
  "\<forall>n'. 2 * length ts + 4 \<le> n \<longrightarrow> 2 * length ts + 4 \<le> n' \<longrightarrow>
     parse_fn_args_ne_exec F ts n = parse_fn_args_ne_exec F ts n'"
  "\<forall>n'. 2 * length ts + 1 \<le> n \<longrightarrow> 2 * length ts + 1 \<le> n' \<longrightarrow>
     infix_loop F lhs ts m n = infix_loop F lhs ts m n'"
proof (induction F ts m n and F ts n and F name ts n and F ts n and F ts n and F lhs ts m n
    rule: parser_induct)
  case (1 F ts m n)
  show ?case
  proof (intro allI impI)
    fix n' assume b: "2 * length ts + 3 \<le> n" "2 * length ts + 3 \<le> n'"
    show "parse_expression_at F ts m n = parse_expression_at F ts m n'"
    proof (cases "ts = []")
      case False
      have lhs: "prec_lhs_phase F ts m n = prec_lhs_phase F ts m n'"
      proof (cases "prefix_op_exec (hd ts)")
        case None
        then show ?thesis using 1(1)[rule_format, of "n' - 1"] b False by (simp add: prec_lhs_phase_def)
      next
        case (Some tag)
        obtain t us where ts: "ts = t # us" using False by (cases ts) auto
        show ?thesis
          using 1(2)[OF _ Some, rule_format, of "n' - 1"] 1(3)[OF _ Some, rule_format, of "n' - 1"] b Some
          by (auto simp: prec_lhs_phase_def ts)
      qed
      have "climb F l c m (n - 1) = climb F l c m (n' - 1)"
        if l: "prec_lhs_phase F ts m n = Inr (l, c)" for l c
      proof -
        obtain l1 c1 where p: "postfix_loop F l c m = (l1, c1)" by fastforce
        have "length c1 \<le> length c" using postfix_loop_length[of F l c m] p by simp
        also have "length c < length ts" by (rule prec_lhs_phase_shorter[OF l False])
        finally have c1: "length c1 < length ts" .
        have "infix_loop F l1 c1 m (n - 1) = infix_loop F l1 c1 m (n' - 1)"
          using 1(4)[OF _ l[unfolded prec_lhs_phase_def] refl p[symmetric]] b False c1 by simp
        then show ?thesis by (simp add: climb_def p)
      qed
      then show ?thesis
        unfolding parse_expression_phases using b lhs by (auto split: sum.split)
    qed (simp add: parse_expression_at.simps)
  qed
next
  case (2 F ts n)
  show ?case
  proof (intro allI impI)
    fix n' assume b: "2 * length ts + 2 \<le> n" "2 * length ts + 2 \<le> n'"
    have call: "parse_function_call F name vs n = parse_function_call F name vs n'"
      if "ts = TIdent name # TOpenParen # vs" for name vs
      using 2(1)[OF _ that refl refl refl] b that by simp
    have paren: "parse_expression_at F us 0 (n - 1) = parse_expression_at F us 0 (n' - 1)"
      if "ts = TOpenParen # us" for us
      using 2(2)[OF _ that refl] b that by simp
    show "parse_atom F ts n = parse_atom F ts n'"
    proof (cases ts)
      case (Cons t us)
      show ?thesis
      proof (cases t)
        case (TIdent name)
        then show ?thesis
          using b call Cons by (cases us) (auto simp: parse_atom.simps)
      next
        case TOpenParen
        then show ?thesis using b paren[of us] Cons by (simp add: parse_atom.simps)
      qed (use b Cons in \<open>simp_all add: parse_atom.simps\<close>)
    qed (simp add: parse_atom.simps)
  qed
next
  case (3 F name ts n)
  show ?case
  proof (intro allI impI)
    fix n' assume "2 * length ts + 4 \<le> n" "2 * length ts + 4 \<le> n'"
    with 3 have "parse_fn_args_exec F ts n = parse_fn_args_exec F ts n'" by blast
    then show "parse_function_call F name ts n = parse_function_call F name ts n'"
      by (simp add: parse_function_call.simps)
  qed
next
  case (4 F ts n)
  then show ?case
    by (auto simp: parse_fn_args_exec.simps split: list.split)
next
  case (5 F ts n)
  show ?case
  proof (intro allI impI)
    fix n' assume b: "2 * length ts + 4 \<le> n" "2 * length ts + 4 \<le> n'"
    have e: "parse_expression_at F ts 0 (n - 1) = parse_expression_at F ts 0 (n' - 1)"
      if "ts \<noteq> []" using 5(1) b that by simp
    have more: "parse_fn_args_ne_exec F us (n - 1) = parse_fn_args_ne_exec F us (n' - 1)"
      if "ts \<noteq> []" "parse_expression_at F ts 0 (n - 1) = Inr (expr, TComma # us)" for expr us
      using 5(2)[OF _ that(2) refl refl] parse_expression_shorter[OF that(2)] that(1) b by simp
    show "parse_fn_args_ne_exec F ts n = parse_fn_args_ne_exec F ts n'"
    proof (cases "ts = []")
      case False
      show ?thesis
      proof (cases "parse_expression_at F ts 0 (n - 1)")
        case (Inl err)
        then have "parse_expression_at F ts 0 (n' - 1) = Inl err" using e False by simp
        then show ?thesis using Inl b by (simp add: parse_fn_args_ne_exec.simps[of F ts])
      next
        case (Inr p)
        then obtain expr rest where r: "parse_expression_at F ts 0 (n - 1) = Inr (expr, rest)"
          by (cases p) simp
        have r': "parse_expression_at F ts 0 (n' - 1) = Inr (expr, rest)" using e r False by simp
        show ?thesis
          using b more[of expr] r r' False
          by (cases rest) (simp_all add: parse_fn_args_ne_exec.simps[of F ts])
      qed
    qed (simp add: parse_fn_args_ne_exec.simps)
  qed
next
  case (6 F lhs ts m n)
  show ?case
  proof (intro allI impI)
    fix n' assume b: "2 * length ts + 1 \<le> n" "2 * length ts + 1 \<le> n'"
    have e: "parse_expression_at F us (binary_prec tag + binary_assoc tag) n =
        parse_expression_at F us (binary_prec tag + binary_assoc tag) n'"
      if "ts = t # us" "binary_tag_exec t = Some tag" "m \<le> binary_prec tag" for t us tag
      using 6(1)[OF that] b that(1) by simp
    have more: "infix_loop F (build_binary tag lhs right) rest m n =
        infix_loop F (build_binary tag lhs right) rest m n'"
      if "ts = t # us" "binary_tag_exec t = Some tag" "m \<le> binary_prec tag"
        "parse_expression_at F us (binary_prec tag + binary_assoc tag) n = Inr (right, rest)"
      for t us tag right rest
      using 6(2)[OF that refl] parse_expression_shorter[OF that(4)] b that(1) by simp
    show "infix_loop F lhs ts m n = infix_loop F lhs ts m n'"
    proof (cases ts)
      case (Cons t us)
      show ?thesis
      proof (cases "\<exists>tag. binary_tag_exec t = Some tag \<and> m \<le> binary_prec tag")
        case True
        then obtain tag where tag: "binary_tag_exec t = Some tag" "m \<le> binary_prec tag" by blast
        show ?thesis
          using e[OF Cons tag] more[OF Cons tag] Cons tag
          by (auto simp: infix_loop.simps[of F lhs "t # us" m] split: sum.split)
      qed (auto simp: infix_loop.simps[of F lhs "t # us" m] Cons split: option.split)
    qed (simp add: infix_loop.simps)
  qed
qed

text \<open>C25 Termination with the fuel of the source. Every caller starts the expression parser with
  fuel \<open>2 * n + 3\<close> for \<open>n\<close> remaining tokens; any larger fuel gives the same result, so the parser
  never stops for lack of fuel. When it accepts, it has consumed at least one token.\<close>

theorem parse_fuel_enough:
  assumes "2 * length ts + 3 \<le> fuel"
  shows "parse_expression_at F ts m fuel = parse_expression_at F ts m (2 * length ts + 3) \<and>
    (case parse_expression_at F ts m fuel of Inl e \<Rightarrow> True | Inr (e, rest) \<Rightarrow> length rest < length ts)"
  using parser_fuel(1)[rule_format, OF assms order.refl] parse_expression_shorter[of F ts m fuel]
  by (auto split: sum.split)

definition sample_floats :: float_ops where
  "sample_floats = \<lparr>
     format_f64 = \<lambda>x. 46 # print_u64 x,
     parse_f64 = \<lambda>bs. (case bs of [] \<Rightarrow> None | b # ds \<Rightarrow> if b = 46 then parse_digits ds else None),
     canonical_nan = 0x7FF8000000000000,
     infinity = 0x7FF0000000000000\<rparr>"

lemma sample_floats_ok: "float_ops_ok sample_floats"
  by (simp add: float_ops_ok_def sample_floats_def parse_digits_print is_digit_def)

theorem parse_fuel_enough_witness:
  "parse_expression_at sample_floats [TIdent (ascii ''a''), TPlus, TNumber [49]] 0 50 =
     Inr (EOperator (OAdd (EColumn None (ascii ''a'')) (ELiteral (LInteger 1))), []) \<and>
   parse_expression_at sample_floats [TIdent (ascii ''a''), TPlus, TNumber [49]] 0 50 =
     parse_expression_at sample_floats [TIdent (ascii ''a''), TPlus, TNumber [49]] 0 9"
proof
  show "parse_expression_at sample_floats [TIdent (ascii ''a''), TPlus, TNumber [49]] 0 50 =
     Inr (EOperator (OAdd (EColumn None (ascii ''a'')) (ELiteral (LInteger 1))), [])"
    by code_simp
  show "parse_expression_at sample_floats [TIdent (ascii ''a''), TPlus, TNumber [49]] 0 50 =
     parse_expression_at sample_floats [TIdent (ascii ''a''), TPlus, TNumber [49]] 0 9"
    using parse_fuel_enough[of "[TIdent (ascii ''a''), TPlus, TNumber [49]]" 50 sample_floats 0] by simp
qed

end
