(* ===== verification/Spec2Isabelle.thy ===== *)
theory Spec2Isabelle
  imports Keycode BitCask Mvcc_Scan Raft_Properties Sql_Expr_Parser
begin

text \<open>
  toyDB: a verification development of the distributed SQL database under \<^verbatim>\<open>src/\<close>.
\<close>

end
